(* ===== verification/Prelude.thy ===== *)
theory Prelude
  imports Main "HOL-Library.AList" "HOL-Library.Char_ord" "HOL-Library.List_Lexorder"
begin

text \<open>
  The shared prelude of the development: the exceptions of the Python code as values,
  results that may be an exception, Python dictionaries as association lists in
  insertion order (\<open>AList.update\<close> keeps the position of a key that is present and
  appends a new one, as \<^verbatim>\<open>d[k] = v\<close> does), decimal printing of numbers, and the
  generic lemmas the components share.
\<close>

section \<open>Collections of rewrite rules\<close>

named_theorems res_simps \<open>case analysis of results\<close>
named_theorems dict_simps \<open>lookup after dictionary updates\<close>

section \<open>Exceptions and results\<close>

text \<open>
  One constructor per exception class the modelled code raises; the string is a short
  tag of the message, so that distinct \<^verbatim>\<open>raise\<close> statements stay distinguishable.
\<close>

datatype pyerr =
    ValueError string
  | RuntimeError string
  | KeyError string
  | TypeError string
  | IndexError string
  | FileExistsError string
  | OSError string
  | ConnectionError string
  | RPCError string
  | ReproducibilityError string
  | BisectError string
  | InvalidGraph string
  | VnnlibError string
  | OtherError string

type_synonym 'a res = "pyerr + 'a"

fun rbind :: "'a res \<Rightarrow> ('a \<Rightarrow> 'b res) \<Rightarrow> 'b res" where
  "rbind (Inl e) f = Inl e"
| "rbind (Inr x) f = f x"

fun is_ok :: "'a res \<Rightarrow> bool" where
  "is_ok (Inl e) = False"
| "is_ok (Inr x) = True"

text \<open>A loop whose body may raise: the first exception ends it.\<close>

fun rmap :: "('a \<Rightarrow> 'b res) \<Rightarrow> 'a list \<Rightarrow> 'b list res" where
  "rmap f [] = Inr []"
| "rmap f (x # xs) = rbind (f x) (\<lambda>y. rbind (rmap f xs) (\<lambda>ys. Inr (y # ys)))"

fun rfold :: "('s \<Rightarrow> 'a \<Rightarrow> 's res) \<Rightarrow> 's \<Rightarrow> 'a list \<Rightarrow> 's res" where
  "rfold f s [] = Inr s"
| "rfold f s (x # xs) = rbind (f s x) (\<lambda>s'. rfold f s' xs)"

definition rmap_opt :: "'a res \<Rightarrow> 'a option res" where
  "rmap_opt r = rbind r (\<lambda>x. Inr (Some x))"

text \<open>\<^verbatim>\<open>[x for x in xs if p(x)]\<close> and \<^verbatim>\<open>for x in xs: if p(x): ...; break\<close> with a test that may raise.\<close>

fun rfilter :: "('a \<Rightarrow> bool res) \<Rightarrow> 'a list \<Rightarrow> 'a list res" where
  "rfilter p [] = Inr []"
| "rfilter p (x # xs) =
     rbind (p x) (\<lambda>b. rbind (rfilter p xs) (\<lambda>ys. Inr (if b then x # ys else ys)))"

fun rfind :: "('a \<Rightarrow> bool res) \<Rightarrow> 'a list \<Rightarrow> 'a option res" where
  "rfind p [] = Inr None"
| "rfind p (x # xs) = rbind (p x) (\<lambda>b. if b then Inr (Some x) else rfind p xs)"

lemma rfilter_Inr: "(\<And>x. x \<in> set xs \<Longrightarrow> p x = Inr (q x)) \<Longrightarrow> rfilter p xs = Inr (filter q xs)"
  by (induction xs) auto

lemma rfind_Inr: "(\<And>x. x \<in> set xs \<Longrightarrow> p x = Inr (q x)) \<Longrightarrow> rfind p xs = Inr (List.find q xs)"
  by (induction xs) auto

lemma rbind_Inr [res_simps]: "rbind r f = Inr y \<longleftrightarrow> (\<exists>x. r = Inr x \<and> f x = Inr y)"
  by (cases r) auto

lemma rbind_Inl [res_simps]:
  "rbind r f = Inl e \<longleftrightarrow> r = Inl e \<or> (\<exists>x. r = Inr x \<and> f x = Inl e)"
  by (cases r) auto

lemma rbind_cong [fundef_cong]:
  "r = r' \<Longrightarrow> (\<And>x. r' = Inr x \<Longrightarrow> f x = g x) \<Longrightarrow> rbind r f = rbind r' g"
  by (cases r') auto

lemma rmap_cong [fundef_cong]:
  "xs = ys \<Longrightarrow> (\<And>x. x \<in> set ys \<Longrightarrow> f x = g x) \<Longrightarrow> rmap f xs = rmap g ys"
proof (induction ys arbitrary: xs)
  case Nil
  then show ?case by simp
next
  case (Cons y ys)
  then have "rmap f ys = rmap g ys" by simp
  with Cons.prems show ?case by simp
qed

lemma is_ok_iff: "is_ok r \<longleftrightarrow> (\<exists>x. r = Inr x)"
  by (cases r) auto

lemma rmap_length: "rmap f xs = Inr ys \<Longrightarrow> length ys = length xs"
  by (induction xs arbitrary: ys) (auto simp: res_simps)

lemma rmap_nth:
  "rmap f xs = Inr ys \<Longrightarrow> i < length xs \<Longrightarrow> f (xs ! i) = Inr (ys ! i)"
proof (induction xs arbitrary: ys i)
  case Nil
  then show ?case by simp
next
  case (Cons x xs)
  then show ?case by (cases i) (auto simp: res_simps)
qed

lemma rmap_Inr: "(\<And>x. x \<in> set xs \<Longrightarrow> f x = Inr (g x)) \<Longrightarrow> rmap f xs = Inr (map g xs)"
  by (induction xs) auto

lemma rmap_ok_iff: "is_ok (rmap f xs) \<longleftrightarrow> (\<forall>x\<in>set xs. is_ok (f x))"
proof (induction xs)
  case Nil
  then show ?case by simp
next
  case (Cons x xs)
  then show ?case by (cases "f x"; cases "rmap f xs") auto
qed

lemma rfold_append: "rfold f s (xs @ ys) = rbind (rfold f s xs) (\<lambda>s'. rfold f s' ys)"
proof (induction xs arbitrary: s)
  case Nil
  then show ?case by simp
next
  case (Cons x xs)
  then show ?case by (cases "f s x") auto
qed

lemma rfold_invariant:
  assumes "rfold f s xs = Inr t" and "P s"
    and "\<And>s x s'. x \<in> set xs \<Longrightarrow> P s \<Longrightarrow> f s x = Inr s' \<Longrightarrow> P s'"
  shows "P t"
  using assms
proof (induction xs arbitrary: s)
  case Nil
  then show ?case by simp
next
  case (Cons x xs)
  from Cons.prems(1) obtain s' where s': "f s x = Inr s'" "rfold f s' xs = Inr t"
    by (auto simp: res_simps)
  have "P s'" using Cons.prems(2,3) s'(1) by auto
  then show ?case using Cons.IH [OF s'(2)] Cons.prems(3) by auto
qed

text \<open>\<open>rgives r P\<close>: the computation returns, and its value satisfies \<open>P\<close>.\<close>

definition rgives :: "'a res \<Rightarrow> ('a \<Rightarrow> bool) \<Rightarrow> bool" where
  "rgives r P \<longleftrightarrow> (\<exists>x. r = Inr x \<and> P x)"

lemma rgives_Inr [simp]: "rgives (Inr x) P \<longleftrightarrow> P x"
  by (simp add: rgives_def)

lemma rgives_bind: "rgives r P \<Longrightarrow> (\<And>x. P x \<Longrightarrow> rgives (f x) Q) \<Longrightarrow> rgives (rbind r f) Q"
  by (auto simp: rgives_def)

lemma rgives_mono: "rgives r P \<Longrightarrow> (\<And>x. P x \<Longrightarrow> Q x) \<Longrightarrow> rgives r Q"
  by (auto simp: rgives_def)

lemma rgives_rmap:
  "list_all2 (\<lambda>x n. rgives (f x) (\<lambda>y. R y n)) xs ns \<Longrightarrow> rgives (rmap f xs) (\<lambda>ys. list_all2 R ys ns)"
proof (induction xs ns rule: list_all2_induct)
  case Nil
  then show ?case by simp
next
  case (Cons x xs n ns)
  then show ?case by (auto simp: rgives_def)
qed

section \<open>Dictionaries\<close>

type_synonym ('k, 'v) dict = "('k \<times> 'v) list"

abbreviation dict_get :: "('k, 'v) dict \<Rightarrow> 'k \<Rightarrow> 'v option" where
  "dict_get d k \<equiv> map_of d k"

abbreviation dict_set :: "'k \<Rightarrow> 'v \<Rightarrow> ('k, 'v) dict \<Rightarrow> ('k, 'v) dict" where
  "dict_set k v d \<equiv> AList.update k v d"

abbreviation dict_keys :: "('k, 'v) dict \<Rightarrow> 'k list" where
  "dict_keys d \<equiv> map fst d"

definition get_default :: "('k, 'v) dict \<Rightarrow> 'k \<Rightarrow> 'v \<Rightarrow> 'v" where
  "get_default d k x = (case map_of d k of None \<Rightarrow> x | Some v \<Rightarrow> v)"

text \<open>\<^verbatim>\<open>d.setdefault(k, v)\<close>: only writes when the key is absent.\<close>

definition dict_setdefault :: "'k \<Rightarrow> 'v \<Rightarrow> ('k, 'v) dict \<Rightarrow> ('k, 'v) dict" where
  "dict_setdefault k v d = (case map_of d k of None \<Rightarrow> d @ [(k, v)] | Some _ \<Rightarrow> d)"

text \<open>\<^verbatim>\<open>d.setdefault(k, []).append(v)\<close>: the idiom that groups values under a key.\<close>

definition dict_append :: "'k \<Rightarrow> 'v \<Rightarrow> ('k, 'v list) dict \<Rightarrow> ('k, 'v list) dict" where
  "dict_append k v d = dict_set k (get_default d k [] @ [v]) d"

lemma map_of_dict_set [dict_simps]: "map_of (dict_set k v d) = (map_of d)(k \<mapsto> v)"
  by (rule update_conv')

lemma keys_dict_set [dict_simps]: "set (dict_keys (dict_set k v d)) = insert k (set (dict_keys d))"
  by (auto simp: update_keys)

lemma dict_set_fresh: "k \<notin> set (dict_keys d) \<Longrightarrow> dict_set k v d = d @ [(k, v)]"
  by (induction d) auto

lemma map_of_setdefault [dict_simps]:
  "map_of (dict_setdefault k v d) j =
     (if j = k \<and> map_of d k = None then Some v else map_of d j)"
  by (auto simp: dict_setdefault_def map_add_def split: option.splits)

lemma get_default_append [dict_simps]:
  "get_default (dict_append k v d) j [] = (if j = k then get_default d k [] @ [v] else get_default d j [])"
  by (simp add: get_default_def dict_append_def map_of_dict_set)

lemma get_default_Nil [simp]: "get_default [] k x = x"
  by (simp add: get_default_def)

lemma distinct_setdefault:
  "distinct (dict_keys d) \<Longrightarrow> distinct (dict_keys (dict_setdefault k v d))"
  by (auto simp: dict_setdefault_def map_of_eq_None_iff split: option.splits)

lemma distinct_dict_append:
  "distinct (dict_keys d) \<Longrightarrow> distinct (dict_keys (dict_append k v d))"
  by (simp add: dict_append_def distinct_update)

lemma map_le_keeps: "m \<subseteq>\<^sub>m m' \<Longrightarrow> m k \<noteq> None \<Longrightarrow> m' k = m k"
  by (auto simp: map_le_def dom_def)

section \<open>Decimal numbers in names\<close>

definition digit :: "nat \<Rightarrow> char" where
  "digit n = char_of (48 + n)"

fun str_nat :: "nat \<Rightarrow> string" where
  "str_nat n = (if n < 10 then [digit n] else str_nat (n div 10) @ [digit (n mod 10)])"

declare str_nat.simps [simp del]

definition str_int :: "int \<Rightarrow> string" where
  "str_int i = (if i < 0 then ''-'' @ str_nat (nat (- i)) else str_nat (nat i))"

lemma digit_inj: "m < 10 \<Longrightarrow> n < 10 \<Longrightarrow> digit m = digit n \<Longrightarrow> m = n"
proof -
  assume b: "m < 10" "n < 10" and e: "digit m = digit n"
  from e have "of_char (digit m) = (of_char (digit n) :: nat)" by simp
  then have "(48 + m) mod 256 = (48 + n) mod 256" by (simp add: digit_def)
  with b show "m = n" by simp
qed

lemma str_nat_ne [simp]: "str_nat n \<noteq> []" "[] \<noteq> str_nat n"
  by (subst str_nat.simps, simp)+

lemma digit_simps [simp]:
  "digit 0 = CHR ''0''" "digit (Suc 0) = CHR ''1''" "digit 1 = CHR ''1''" "digit 2 = CHR ''2''"
  "digit 3 = CHR ''3''" "digit 4 = CHR ''4''" "digit 5 = CHR ''5''" "digit 6 = CHR ''6''"
  "digit 7 = CHR ''7''" "digit 8 = CHR ''8''" "digit 9 = CHR ''9''"
  by (code_simp+)

lemma str_nat_digit [simp]:
  "str_nat 0 = ''0''" "str_nat (Suc 0) = ''1''" "str_nat 1 = ''1''" "str_nat 2 = ''2''"
  "str_nat 3 = ''3''" "str_nat 4 = ''4''" "str_nat 5 = ''5''" "str_nat 6 = ''6''"
  by (simp_all add: str_nat.simps)

lemma str_nat_inj: "str_nat m = str_nat n \<Longrightarrow> m = n"
proof (induction m arbitrary: n rule: str_nat.induct)
  case (1 m)
  show ?case
  proof (cases "m < 10")
    case True
    then have m: "str_nat m = [digit m]" by (simp add: str_nat.simps [of m])
    show ?thesis
    proof (cases "n < 10")
      case True
      with m \<open>m < 10\<close> "1.prems" show ?thesis
        by (auto simp: str_nat.simps [of n] dest: digit_inj)
    next
      case False
      with m "1.prems" show ?thesis by (simp add: str_nat.simps [of n])
    qed
  next
    case False
    then have m: "str_nat m = str_nat (m div 10) @ [digit (m mod 10)]"
      by (simp add: str_nat.simps [of m])
    have n: "\<not> n < 10" using m "1.prems" by (auto simp: str_nat.simps [of n])
    then have "str_nat n = str_nat (n div 10) @ [digit (n mod 10)]"
      by (simp add: str_nat.simps [of n])
    with m "1.prems" have "str_nat (m div 10) = str_nat (n div 10)"
      and d: "digit (m mod 10) = digit (n mod 10)" by simp_all
    then have "m div 10 = n div 10" using "1.IH" False by blast
    moreover have "m mod 10 = n mod 10" using d by (rule digit_inj [rotated 2]) simp_all
    ultimately show ?thesis by (metis div_mult_mod_eq)
  qed
qed

lemma str_nat_eq_iff [simp]: "str_nat m = str_nat n \<longleftrightarrow> m = n"
  by (auto dest: str_nat_inj)

section \<open>Lists\<close>

text \<open>\<^verbatim>\<open>enumerate(xs)\<close>, starting at \<open>i\<close>.\<close>

fun enum_from :: "nat \<Rightarrow> 'a list \<Rightarrow> (nat \<times> 'a) list" where
  "enum_from i [] = []"
| "enum_from i (x # xs) = (i, x) # enum_from (Suc i) xs"

abbreviation enumerate_py :: "'a list \<Rightarrow> (nat \<times> 'a) list" where
  "enumerate_py xs \<equiv> enum_from 0 xs"

lemma set_enum_from: "set (enum_from i xs) = {(i + k, xs ! k) | k. k < length xs}"
proof (induction xs arbitrary: i)
  case Nil
  then show ?case by simp
next
  case (Cons x xs)
  show ?case
  proof (intro set_eqI iffI)
    fix p
    assume "p \<in> set (enum_from i (x # xs))"
    then consider "p = (i, x)" | k where "k < length xs" "p = (Suc i + k, xs ! k)"
      using Cons.IH [of "Suc i"] by auto
    then show "p \<in> {(i + k, (x # xs) ! k) | k. k < length (x # xs)}"
    proof cases
      case 1
      then show ?thesis by force
    next
      case (2 k)
      then have "p = (i + Suc k, (x # xs) ! Suc k)" "Suc k < length (x # xs)" by auto
      then show ?thesis by blast
    qed
  next
    fix p
    assume "p \<in> {(i + k, (x # xs) ! k) | k. k < length (x # xs)}"
    then obtain k where k: "p = (i + k, (x # xs) ! k)" "k < length (x # xs)" by blast
    then show "p \<in> set (enum_from i (x # xs))"
      using Cons.IH [of "Suc i"] by (cases k) auto
  qed
qed

lemma in_set_enumerate_py: "(i, x) \<in> set (enumerate_py xs) \<longleftrightarrow> i < length xs \<and> xs ! i = x"
  by (auto simp: set_enum_from)

lemma length_enum_from [simp]: "length (enum_from i xs) = length xs"
  by (induction xs arbitrary: i) auto

lemma map_fst_enum_from [simp]: "map fst (enum_from i xs) = [i ..< i + length xs]"
  by (induction xs arbitrary: i) (auto simp: upt_rec)

lemma enum_from_append: "enum_from i (xs @ ys) = enum_from i xs @ enum_from (i + length xs) ys"
  by (induction xs arbitrary: i) auto

lemma map_snd_enum_from [simp]: "map snd (enum_from i xs) = xs"
  by (induction xs arbitrary: i) auto

text \<open>\<^verbatim>\<open>next((x for x in xs if p(x)), default)\<close>.\<close>

definition next_default :: "('a \<Rightarrow> bool) \<Rightarrow> 'a list \<Rightarrow> 'a \<Rightarrow> 'a" where
  "next_default p xs d = (case List.find p xs of None \<Rightarrow> d | Some x \<Rightarrow> x)"

lemma next_default_cases:
  obtains "next_default p xs d = d" "\<forall>x\<in>set xs. \<not> p x"
  | "next_default p xs d \<in> set xs" "p (next_default p xs d)"
proof (cases "List.find p xs")
  case None
  then have "\<forall>x\<in>set xs. \<not> p x" by (auto simp: find_None_iff)
  with None show thesis using that(1) by (simp add: next_default_def)
next
  case (Some x)
  then have "x \<in> set xs" "p x" by (auto simp: find_Some_iff)
  with Some show thesis using that(2) by (simp add: next_default_def)
qed

lemma list_all2_left: "list_all2 P xs ys \<Longrightarrow> y \<in> set ys \<Longrightarrow> \<exists>x \<in> set xs. P x y"
  by (induction rule: list_all2_induct) auto

text \<open>The elements collected by two nested loops.\<close>

lemma set_concat_rows:
  "set (concat (concat (map (\<lambda>(i, n). map (f i) (g n)) xs))) =
     {e. \<exists>i n s. (i, n) \<in> set xs \<and> s \<in> set (g n) \<and> e \<in> set (f i s)}"
  by (induction xs) auto

end
