(* ===== verification/Onnx.thy ===== *)
theory Onnx
  imports Prelude "HOL-Library.Word"
begin

text \<open>
  The parts of the ONNX protobuf messages that the Python code of the repository reads
  and writes: tensors, value infos, attributes, nodes, graphs and models. A protobuf field
  that can be absent (\<^verbatim>\<open>HasField\<close>) is an option, a repeated field is a list. Graphs
  nest through node attributes (the bodies of If, Loop and Scan), so attributes, nodes and
  graphs are one mutually recursive datatype.
\<close>

section \<open>Messages\<close>

type_synonym byte = "8 word"
type_synonym bytes = "byte list"

datatype elem_type =
    UNDEFINED | FLOAT | UINT8 | INT8 | UINT16 | INT16 | INT32 | INT64 | STRING | BOOL
  | FLOAT16 | DOUBLE | UINT32 | UINT64 | COMPLEX64 | COMPLEX128 | BFLOAT16
  | OtherType nat

datatype location = DEFAULT | EXTERNAL

record tensor_proto =
  tname :: string
  data_type :: elem_type
  tdims :: "int list"
  raw_data :: "bytes option"
  data_location :: location
  external_data :: "(string \<times> string) list"

datatype odim = DimValue int | DimParam string | DimUnset

record value_info =
  vname :: string
  elem_type_of :: elem_type
  vshape :: "odim list option"

datatype attribute = Attr
    (attr_name: string) (attr_i: int) (attr_s: string) (attr_ints: "int list")
    (attr_t: "tensor_proto option") (attr_tensors: "tensor_proto list")
    (attr_g: "graph option") (attr_graphs: "graph list")
  and node = Node
    (op_type: string) (ndomain: string) (nname: string)
    (ninput: "string list") (noutput: "string list") (nattr: "attribute list")
  and graph = Graph
    (gnode: "node list") (ginput: "value_info list") (goutput: "value_info list")
    (gvalue_info: "value_info list") (ginit: "tensor_proto list")

record model =
  ir_version :: int
  opset_import :: "(string \<times> int) list"
  mgraph :: graph

section \<open>Field access\<close>

text \<open>\<^verbatim>\<open>a or b\<close> on strings: the empty string is false.\<close>

definition or_name :: "string \<Rightarrow> string \<Rightarrow> string" where
  "or_name a b = (if a = '''' then b else a)"

definition is_std_domain :: "node \<Rightarrow> bool" where
  "is_std_domain n \<longleftrightarrow> ndomain n = '''' \<or> ndomain n = ''ai.onnx''"

definition with_nodes :: "node list \<Rightarrow> graph \<Rightarrow> graph" where
  "with_nodes ns g = Graph ns (ginput g) (goutput g) (gvalue_info g) (ginit g)"

definition with_input :: "value_info list \<Rightarrow> graph \<Rightarrow> graph" where
  "with_input is g = Graph (gnode g) is (goutput g) (gvalue_info g) (ginit g)"

definition with_output :: "value_info list \<Rightarrow> graph \<Rightarrow> graph" where
  "with_output os g = Graph (gnode g) (ginput g) os (gvalue_info g) (ginit g)"

definition with_value_info :: "value_info list \<Rightarrow> graph \<Rightarrow> graph" where
  "with_value_info vs g = Graph (gnode g) (ginput g) (goutput g) vs (ginit g)"

definition with_init :: "tensor_proto list \<Rightarrow> graph \<Rightarrow> graph" where
  "with_init ts g = Graph (gnode g) (ginput g) (goutput g) (gvalue_info g) ts"

lemma graph_field_updates [simp]:
  "gnode (with_nodes ns g) = ns" "ginput (with_nodes ns g) = ginput g"
  "goutput (with_nodes ns g) = goutput g" "gvalue_info (with_nodes ns g) = gvalue_info g"
  "ginit (with_nodes ns g) = ginit g"
  "gnode (with_input is g) = gnode g" "ginput (with_input is g) = is"
  "goutput (with_input is g) = goutput g" "gvalue_info (with_input is g) = gvalue_info g"
  "ginit (with_input is g) = ginit g"
  "gnode (with_output os g) = gnode g" "ginput (with_output os g) = ginput g"
  "goutput (with_output os g) = os" "gvalue_info (with_output os g) = gvalue_info g"
  "ginit (with_output os g) = ginit g"
  "gnode (with_value_info vs g) = gnode g" "ginput (with_value_info vs g) = ginput g"
  "goutput (with_value_info vs g) = goutput g" "gvalue_info (with_value_info vs g) = vs"
  "ginit (with_value_info vs g) = ginit g"
  "gnode (with_init ts g) = gnode g" "ginput (with_init ts g) = ginput g"
  "goutput (with_init ts g) = goutput g" "gvalue_info (with_init ts g) = gvalue_info g"
  "ginit (with_init ts g) = ts"
  by (simp_all add: with_nodes_def with_input_def with_output_def with_value_info_def with_init_def)

text \<open>A tensor with nothing but a name, an element type and inline bytes; for examples.\<close>

definition inline_tensor :: "string \<Rightarrow> elem_type \<Rightarrow> int list \<Rightarrow> bytes \<Rightarrow> tensor_proto" where
  "inline_tensor n ty ds bs =
     \<lparr>tname = n, data_type = ty, tdims = ds, raw_data = Some bs,
      data_location = DEFAULT, external_data = []\<rparr>"

definition simple_node :: "string \<Rightarrow> string list \<Rightarrow> string list \<Rightarrow> node" where
  "simple_node op ins outs = Node op '''' '''' ins outs []"

section \<open>Indexed traversals that thread a store\<close>

text \<open>
  \<^verbatim>\<open>for i, x in enumerate(xs): ...\<close> where the body rewrites \<open>x\<close> in place and updates a
  store: the list of rewritten elements and the final store.
\<close>

fun mapacc_i :: "(nat \<Rightarrow> 'a \<Rightarrow> 's \<Rightarrow> 'b \<times> 's) \<Rightarrow> nat \<Rightarrow> 'a list \<Rightarrow> 's \<Rightarrow> 'b list \<times> 's" where
  "mapacc_i f i [] s = ([], s)"
| "mapacc_i f i (x # xs) s =
     (let (y, s1) = f i x s; (ys, s2) = mapacc_i f (Suc i) xs s1 in (y # ys, s2))"

fun map_i :: "(nat \<Rightarrow> 'a \<Rightarrow> 'b) \<Rightarrow> nat \<Rightarrow> 'a list \<Rightarrow> 'b list" where
  "map_i f i [] = []"
| "map_i f i (x # xs) = f i x # map_i f (Suc i) xs"

fun concat_i :: "(nat \<Rightarrow> 'a \<Rightarrow> 'b list) \<Rightarrow> nat \<Rightarrow> 'a list \<Rightarrow> 'b list" where
  "concat_i f i [] = []"
| "concat_i f i (x # xs) = f i x @ concat_i f (Suc i) xs"

lemma mapacc_i_cong [fundef_cong]:
  "xs = ys \<Longrightarrow> (\<And>i x s. x \<in> set ys \<Longrightarrow> f i x s = g i x s) \<Longrightarrow> i = j \<Longrightarrow> s = t \<Longrightarrow>
     mapacc_i f i xs s = mapacc_i g j ys t"
proof (induction ys arbitrary: xs i j s t)
  case Nil
  then show ?case by simp
next
  case (Cons y ys)
  then have "\<And>i s. mapacc_i f i ys s = mapacc_i g i ys s" by simp
  with Cons.prems show ?case by (simp add: split_def)
qed

lemma map_i_cong [fundef_cong]:
  "xs = ys \<Longrightarrow> (\<And>i x. x \<in> set ys \<Longrightarrow> f i x = g i x) \<Longrightarrow> i = j \<Longrightarrow> map_i f i xs = map_i g j ys"
  by (induction ys arbitrary: xs i j) auto

lemma concat_i_cong [fundef_cong]:
  "xs = ys \<Longrightarrow> (\<And>i x. x \<in> set ys \<Longrightarrow> f i x = g i x) \<Longrightarrow> i = j \<Longrightarrow>
     concat_i f i xs = concat_i g j ys"
  by (induction ys arbitrary: xs i j) auto

lemma mapacc_i_split:
  assumes "\<And>i x s. x \<in> set xs \<Longrightarrow> f i x s = (h i x, fold u (c i x) s)"
  shows "mapacc_i f i xs s = (map_i h i xs, fold u (concat_i c i xs) s)"
  using assms by (induction xs arbitrary: i s) auto

lemma map_i_comp: "map_i f i (map_i g i xs) = map_i (\<lambda>i x. f i (g i x)) i xs"
  by (induction xs arbitrary: i) auto

lemma map_i_id: "(\<And>j x. (j, x) \<in> set (enum_from i xs) \<Longrightarrow> f j x = x) \<Longrightarrow> map_i f i xs = xs"
  by (induction xs arbitrary: i) auto

lemma set_concat_i: "set (concat_i f i xs) = (\<Union>(j, x)\<in>set (enum_from i xs). set (f j x))"
  by (induction xs arbitrary: i) auto

lemma enum_from_mem: "(j, x) \<in> set (enum_from i xs) \<Longrightarrow> x \<in> set xs"
  by (induction xs arbitrary: i) auto

lemma concat_i_map_i: "concat_i f i (map_i g i xs) = concat_i (\<lambda>i x. f i (g i x)) i xs"
  by (induction xs arbitrary: i) auto

lemma map_concat_i: "map h (concat_i f i xs) = concat_i (\<lambda>i x. map h (f i x)) i xs"
  by (induction xs arbitrary: i) auto

lemma length_map_i [simp]: "length (map_i f i xs) = length xs"
  by (induction xs arbitrary: i) auto

end
