(* ===== verification/Tensor_Store.thy ===== *)
theory Tensor_Store
  imports Onnx
begin

text \<open>
  Moving the bytes of tensors out of a model and back: the helpers behind
  \<^verbatim>\<open>export_safetensors\<close>, \<^verbatim>\<open>export_gguf\<close>, \<^verbatim>\<open>import_safetensors\<close>, \<^verbatim>\<open>import_gguf\<close>,
  \<^verbatim>\<open>load_model\<close> and \<^verbatim>\<open>import_gguf_weights\<close> of \<^verbatim>\<open>onnxsim/onnx_simplifier.py\<close>. Three families
  of functions walk the same tree of graphs, nodes and attributes: \<^verbatim>\<open>_extract_*\<close> takes the
  raw bytes out into a dictionary, \<^verbatim>\<open>_restore_*\<close> puts them back, \<^verbatim>\<open>_hydrate_*\<close> fills tensors
  that live in a pool outside the model. The archive reader and writer are C++ code and are
  arguments of the definitions that call them.
\<close>

section \<open>The traversals of the code\<close>

type_synonym store = "(string, bytes) dict"

definition extract_tensor_to_dict :: "tensor_proto \<Rightarrow> string \<Rightarrow> store \<Rightarrow> tensor_proto \<times> store" where
  "extract_tensor_to_dict t key d =
     (if data_location t = EXTERNAL \<or> data_type t = STRING then (t, d)
      else case raw_data t of
        None \<Rightarrow> (t, d)
      | Some bs \<Rightarrow> (t\<lparr>raw_data := None\<rparr>, dict_set key bs d))"

fun extract_attr_tensors_to_dict :: "attribute \<Rightarrow> string \<Rightarrow> store \<Rightarrow> attribute \<times> store"
  and extract_graph_tensors_to_dict :: "graph \<Rightarrow> store \<Rightarrow> graph \<times> store" where
  "extract_attr_tensors_to_dict (Attr nm i s ints t ts g gs) path d =
     (let (t', d1) = (case t of None \<Rightarrow> (None, d)
            | Some x \<Rightarrow> (let (x', d') = extract_tensor_to_dict x (or_name (tname x) (path @ ''/t'')) d
                        in (Some x', d')));
          (ts', d2) = mapacc_i (\<lambda>k x. extract_tensor_to_dict x
             (or_name (tname x) (path @ ''/tensors'' @ str_nat k))) 0 ts d1;
          (g', d3) = (case g of None \<Rightarrow> (None, d2)
            | Some b \<Rightarrow> (let (b', d') = extract_graph_tensors_to_dict b d2 in (Some b', d')));
          (gs', d4) = mapacc_i (\<lambda>k. extract_graph_tensors_to_dict) 0 gs d3
      in (Attr nm i s ints t' ts' g' gs', d4))"
| "extract_graph_tensors_to_dict (Graph ns is os vs inits) d =
     (let (inits', d1) = mapacc_i (\<lambda>k x. extract_tensor_to_dict x
             (or_name (tname x) (''initializer'' @ str_nat k))) 0 inits d;
          (ns', d2) = mapacc_i (\<lambda>ni nd d. case nd of Node op dm nm ins outs as \<Rightarrow>
             (let node_path = or_name nm (''node'' @ str_nat ni);
                  (as', d') = mapacc_i (\<lambda>ai a. extract_attr_tensors_to_dict a
                     (node_path @ ''/attr'' @ str_nat ai)) 0 as d
              in (Node op dm nm ins outs as', d'))) 0 ns d1
      in (Graph ns' is os vs inits', d2))"

definition restore_tensor_raw_data :: "tensor_proto \<Rightarrow> string \<Rightarrow> store \<Rightarrow> tensor_proto" where
  "restore_tensor_raw_data t key d =
     (case dict_get d key of None \<Rightarrow> t | Some bs \<Rightarrow> t\<lparr>raw_data := Some bs\<rparr>)"

fun restore_attr_tensors_raw_data :: "attribute \<Rightarrow> string \<Rightarrow> store \<Rightarrow> attribute"
  and restore_graph_tensors_raw_data :: "graph \<Rightarrow> store \<Rightarrow> graph" where
  "restore_attr_tensors_raw_data (Attr nm i s ints t ts g gs) path d =
     Attr nm i s ints
       (map_option (\<lambda>x. restore_tensor_raw_data x (or_name (tname x) (path @ ''/t'')) d) t)
       (map_i (\<lambda>k x. restore_tensor_raw_data x
          (or_name (tname x) (path @ ''/tensors'' @ str_nat k)) d) 0 ts)
       (map_option (\<lambda>b. restore_graph_tensors_raw_data b d) g)
       (map_i (\<lambda>k b. restore_graph_tensors_raw_data b d) 0 gs)"
| "restore_graph_tensors_raw_data (Graph ns is os vs inits) d =
     Graph
       (map_i (\<lambda>ni nd. case nd of Node op dm nm ins outs as \<Rightarrow>
          Node op dm nm ins outs (map_i (\<lambda>ai a. restore_attr_tensors_raw_data a
            (or_name nm (''node'' @ str_nat ni) @ ''/attr'' @ str_nat ai) d) 0 as)) 0 ns)
       is os vs
       (map_i (\<lambda>k x. restore_tensor_raw_data x
          (or_name (tname x) (''initializer'' @ str_nat k)) d) 0 inits)"

text \<open>The pool is the C++ \<^verbatim>\<open>TensorPool\<close>: what the code uses of it is membership and the bytes.\<close>

type_synonym pool = "string \<Rightarrow> bytes option"

definition hydrate_tensor_from_pool :: "tensor_proto \<Rightarrow> string \<Rightarrow> pool \<Rightarrow> tensor_proto" where
  "hydrate_tensor_from_pool t key p =
     (if data_location t \<noteq> EXTERNAL then t
      else case p key of
        None \<Rightarrow> t
      | Some bs \<Rightarrow> t\<lparr>raw_data := Some bs, data_location := DEFAULT, external_data := []\<rparr>)"

fun hydrate_attr_tensors_from_pool :: "attribute \<Rightarrow> string \<Rightarrow> pool \<Rightarrow> attribute"
  and hydrate_graph_tensors_from_pool :: "graph \<Rightarrow> pool \<Rightarrow> graph" where
  "hydrate_attr_tensors_from_pool (Attr nm i s ints t ts g gs) path p =
     Attr nm i s ints
       (map_option (\<lambda>x. hydrate_tensor_from_pool x (or_name (tname x) (path @ ''/t'')) p) t)
       (map_i (\<lambda>k x. hydrate_tensor_from_pool x
          (or_name (tname x) (path @ ''/tensors'' @ str_nat k)) p) 0 ts)
       (map_option (\<lambda>b. hydrate_graph_tensors_from_pool b p) g)
       (map_i (\<lambda>k b. hydrate_graph_tensors_from_pool b p) 0 gs)"
| "hydrate_graph_tensors_from_pool (Graph ns is os vs inits) p =
     Graph
       (map_i (\<lambda>ni nd. case nd of Node op dm nm ins outs as \<Rightarrow>
          Node op dm nm ins outs (map_i (\<lambda>ai a. hydrate_attr_tensors_from_pool a
            (or_name nm (''node'' @ str_nat ni) @ ''/attr'' @ str_nat ai) p) 0 as)) 0 ns)
       is os vs
       (map_i (\<lambda>k x. hydrate_tensor_from_pool x
          (or_name (tname x) (''initializer'' @ str_nat k)) p) 0 inits)"

section \<open>Export and import\<close>

text \<open>
  \<^verbatim>\<open>export_safetensors\<close> and \<^verbatim>\<open>export_gguf\<close>: the bytes are taken out, the C++ writer (the
  argument \<open>c_export\<close>, which may fail) sees the stripped model and the dictionary, and the
  \<^verbatim>\<open>finally\<close> clause puts the bytes back whatever the writer did. The result is what the
  caller sees: the outcome and the model it passed.
\<close>

definition export_archive ::
  "(model \<Rightarrow> store \<Rightarrow> string \<Rightarrow> 'f res) \<Rightarrow> model \<Rightarrow> string \<Rightarrow> 'f res \<times> model" where
  "export_archive c_export m out_path =
     (let (g, d) = extract_graph_tensors_to_dict (mgraph m) [];
          stripped = m\<lparr>mgraph := g\<rparr>;
          r = c_export stripped d out_path
      in (r, stripped\<lparr>mgraph := restore_graph_tensors_raw_data g d\<rparr>))"

definition export_safetensors ::
  "(model \<Rightarrow> store \<Rightarrow> string \<Rightarrow> 'f res) \<Rightarrow> model \<Rightarrow> string \<Rightarrow> 'f res \<times> model" where
  "export_safetensors c_export m out_path = export_archive c_export m out_path"

definition export_gguf ::
  "(model \<Rightarrow> store \<Rightarrow> string \<Rightarrow> 'f res) \<Rightarrow> model \<Rightarrow> string \<Rightarrow> 'f res \<times> model" where
  "export_gguf c_export m out_path = export_archive c_export m out_path"

definition import_archive :: "(string \<Rightarrow> (model \<times> pool) res) \<Rightarrow> string \<Rightarrow> model res" where
  "import_archive c_import in_path =
     rbind (c_import in_path) (\<lambda>(m, p).
       Inr (m\<lparr>mgraph := hydrate_graph_tensors_from_pool (mgraph m) p\<rparr>))"

definition load_model ::
  "(string \<Rightarrow> (model \<times> pool) res) \<Rightarrow> string \<Rightarrow> bool \<Rightarrow> (model \<times> pool) res" where
  "load_model c_load path hydrate_all =
     rbind (c_load path) (\<lambda>(m, p).
       Inr (if hydrate_all
            then (m\<lparr>mgraph := hydrate_graph_tensors_from_pool (mgraph m) p\<rparr>, p) else (m, p)))"

text \<open>
  \<^verbatim>\<open>_tensor_proto_nbytes\<close>: the item size of a type comes from the onnx package (an argument,
  \<open>None\<close> for a type with no fixed width); the rest is a product over the dimensions.
\<close>

definition tensor_proto_nbytes :: "(elem_type \<Rightarrow> nat option) \<Rightarrow> elem_type \<Rightarrow> int list \<Rightarrow> int option" where
  "tensor_proto_nbytes itemsize ty ds =
     (case itemsize ty of None \<Rightarrow> None | Some n \<Rightarrow> Some (foldl (*) (int n) ds))"

text \<open>
  \<^verbatim>\<open>import_gguf_weights\<close>: the C++ reader gives a model whose matched initializers have lost
  their bytes, the decoded tensors by name (type and bytes) and the names it skipped. An
  initializer whose declared size does not fit the decoded bytes gets its original back; the
  dictionary of originals is built by name, so a later duplicate name wins.
\<close>

definition import_gguf_step ::
  "(elem_type \<Rightarrow> nat option) \<Rightarrow> (string \<Rightarrow> (elem_type \<times> bytes) option) \<Rightarrow> (string, tensor_proto) dict \<Rightarrow>
   tensor_proto \<Rightarrow> string list \<Rightarrow> (tensor_proto \<times> string list) res" where
  "import_gguf_step itemsize matched originals init skipped =
     (case matched (tname init) of
        None \<Rightarrow> Inr (init, skipped)
      | Some (ty, dat) \<Rightarrow>
          (case tensor_proto_nbytes itemsize ty (tdims init) of
             Some expected \<Rightarrow>
               if expected \<noteq> int (length dat) then
                 (case dict_get originals (tname init) of
                    None \<Rightarrow> Inl (KeyError ''originals'')
                  | Some o' \<Rightarrow> Inr (o', skipped @ [tname init]))
               else Inr (init\<lparr>data_type := ty, raw_data := Some dat\<rparr>, skipped)
           | None \<Rightarrow> Inr (init\<lparr>data_type := ty, raw_data := Some dat\<rparr>, skipped)))"

fun import_gguf_inits ::
  "(elem_type \<Rightarrow> nat option) \<Rightarrow> (string \<Rightarrow> (elem_type \<times> bytes) option) \<Rightarrow> (string, tensor_proto) dict \<Rightarrow>
   tensor_proto list \<Rightarrow> string list \<Rightarrow> (tensor_proto list \<times> string list) res" where
  "import_gguf_inits itemsize matched originals [] skipped = Inr ([], skipped)"
| "import_gguf_inits itemsize matched originals (t # ts) skipped =
     rbind (import_gguf_step itemsize matched originals t skipped) (\<lambda>(t', sk).
       rbind (import_gguf_inits itemsize matched originals ts sk) (\<lambda>(ts', sk').
         Inr (t' # ts', sk')))"

definition import_gguf_weights ::
  "(elem_type \<Rightarrow> nat option) \<Rightarrow>
   (model \<Rightarrow> string \<Rightarrow> (model \<times> (string \<Rightarrow> (elem_type \<times> bytes) option) \<times> string list) res) \<Rightarrow>
   model \<Rightarrow> string \<Rightarrow> (model \<times> string list) res" where
  "import_gguf_weights itemsize c_import m path =
     (let originals = foldl (\<lambda>d t. dict_set (tname t) t d) [] (ginit (mgraph m))
      in rbind (c_import m path) (\<lambda>(res, matched, skipped).
           rbind (import_gguf_inits itemsize matched originals (ginit (mgraph res)) skipped)
             (\<lambda>(ts, sk). Inr (res\<lparr>mgraph := with_init ts (mgraph res)\<rparr>, sk))))"

section \<open>Keyed maps over the tensors of a graph\<close>

text \<open>
  The specification side of the traversals: the list of tensors with the keys the code gives
  them, and a map over all of them. Every traversal above is such a map.
\<close>

fun slots_attr :: "attribute \<Rightarrow> string \<Rightarrow> (string \<times> tensor_proto) list"
  and slots_graph :: "graph \<Rightarrow> (string \<times> tensor_proto) list" where
  "slots_attr (Attr nm i s ints t ts g gs) path =
     (case t of None \<Rightarrow> [] | Some x \<Rightarrow> [(or_name (tname x) (path @ ''/t''), x)]) @
     concat_i (\<lambda>k x. [(or_name (tname x) (path @ ''/tensors'' @ str_nat k), x)]) 0 ts @
     (case g of None \<Rightarrow> [] | Some b \<Rightarrow> slots_graph b) @
     concat_i (\<lambda>k b. slots_graph b) 0 gs"
| "slots_graph (Graph ns is os vs inits) =
     concat_i (\<lambda>k x. [(or_name (tname x) (''initializer'' @ str_nat k), x)]) 0 inits @
     concat_i (\<lambda>ni nd. case nd of Node op dm nm ins outs as \<Rightarrow>
       concat_i (\<lambda>ai a. slots_attr a
         (or_name nm (''node'' @ str_nat ni) @ ''/attr'' @ str_nat ai)) 0 as) 0 ns"

fun map_attr :: "(string \<Rightarrow> tensor_proto \<Rightarrow> tensor_proto) \<Rightarrow> attribute \<Rightarrow> string \<Rightarrow> attribute"
  and map_graph :: "(string \<Rightarrow> tensor_proto \<Rightarrow> tensor_proto) \<Rightarrow> graph \<Rightarrow> graph" where
  "map_attr h (Attr nm i s ints t ts g gs) path =
     Attr nm i s ints
       (map_option (\<lambda>x. h (or_name (tname x) (path @ ''/t'')) x) t)
       (map_i (\<lambda>k x. h (or_name (tname x) (path @ ''/tensors'' @ str_nat k)) x) 0 ts)
       (map_option (map_graph h) g) (map_i (\<lambda>k. map_graph h) 0 gs)"
| "map_graph h (Graph ns is os vs inits) =
     Graph
       (map_i (\<lambda>ni nd. case nd of Node op dm nm ins outs as \<Rightarrow>
          Node op dm nm ins outs (map_i (\<lambda>ai a. map_attr h a
            (or_name nm (''node'' @ str_nat ni) @ ''/attr'' @ str_nat ai)) 0 as)) 0 ns)
       is os vs
       (map_i (\<lambda>k x. h (or_name (tname x) (''initializer'' @ str_nat k)) x) 0 inits)"

definition extractable :: "tensor_proto \<Rightarrow> bool" where
  "extractable t \<longleftrightarrow> data_location t \<noteq> EXTERNAL \<and> data_type t \<noteq> STRING \<and> raw_data t \<noteq> None"

definition strip_tensor :: "string \<Rightarrow> tensor_proto \<Rightarrow> tensor_proto" where
  "strip_tensor k t = (if extractable t then t\<lparr>raw_data := None\<rparr> else t)"

definition put_tensor :: "string \<times> tensor_proto \<Rightarrow> store \<Rightarrow> store" where
  "put_tensor p d = (if extractable (snd p) then dict_set (fst p) (the (raw_data (snd p))) d else d)"

lemma extract_tensor_eq: "extract_tensor_to_dict t k d = (strip_tensor k t, put_tensor (k, t) d)"
  by (auto simp: extract_tensor_to_dict_def strip_tensor_def put_tensor_def extractable_def
      split: option.splits)

lemma mapacc_i_keyed:
  "mapacc_i (\<lambda>i x. extract_tensor_to_dict x (key i x)) i xs d =
     (map_i (\<lambda>i x. strip_tensor (key i x) x) i xs, fold put_tensor (concat_i (\<lambda>i x. [(key i x, x)]) i xs) d)"
  by (rule mapacc_i_split) (simp add: extract_tensor_eq)

lemma extract_is_map:
  "extract_attr_tensors_to_dict a path d =
     (map_attr strip_tensor a path, fold put_tensor (slots_attr a path) d)"
  "extract_graph_tensors_to_dict g d = (map_graph strip_tensor g, fold put_tensor (slots_graph g) d)"
proof (induction a path and g arbitrary: d and d rule: slots_attr_slots_graph.induct)
  case (1 nm i s ints t ts g gs path)
  have gs: "mapacc_i (\<lambda>k. extract_graph_tensors_to_dict) 0 gs d' =
      (map_i (\<lambda>k. map_graph strip_tensor) 0 gs, fold put_tensor (concat_i (\<lambda>k b. slots_graph b) 0 gs) d')" for d'
    using 1(2) by (intro mapacc_i_split) auto
  show ?case
    using 1(1) by (cases t; cases g) (simp_all add: mapacc_i_keyed gs extract_tensor_eq)
next
  case (2 ns gi go vs inits)
  have nodes: "mapacc_i (\<lambda>ni nd d. case nd of Node op dm nm ins outs as \<Rightarrow>
             (let node_path = or_name nm (''node'' @ str_nat ni);
                  (as', d') = mapacc_i (\<lambda>ai a. extract_attr_tensors_to_dict a
                     (node_path @ ''/attr'' @ str_nat ai)) 0 as d
              in (Node op dm nm ins outs as', d'))) 0 ns d' =
      (map_i (\<lambda>ni nd. case nd of Node op dm nm ins outs as \<Rightarrow>
          Node op dm nm ins outs (map_i (\<lambda>ai a. map_attr strip_tensor a
            (or_name nm (''node'' @ str_nat ni) @ ''/attr'' @ str_nat ai)) 0 as)) 0 ns,
       fold put_tensor (concat_i (\<lambda>ni nd. case nd of Node op dm nm ins outs as \<Rightarrow>
         concat_i (\<lambda>ai a. slots_attr a
           (or_name nm (''node'' @ str_nat ni) @ ''/attr'' @ str_nat ai)) 0 as) 0 ns) d')" for d'
  proof (rule mapacc_i_split)
    fix ni nd and d'' :: store
    assume nd: "nd \<in> set ns"
    obtain op dm nm ins outs as where n: "nd = Node op dm nm ins outs as" by (cases nd)
    have "mapacc_i (\<lambda>ai a. extract_attr_tensors_to_dict a
            (or_name nm (''node'' @ str_nat ni) @ ''/attr'' @ str_nat ai)) 0 as d'' =
        (map_i (\<lambda>ai a. map_attr strip_tensor a
            (or_name nm (''node'' @ str_nat ni) @ ''/attr'' @ str_nat ai)) 0 as,
         fold put_tensor (concat_i (\<lambda>ai a. slots_attr a
            (or_name nm (''node'' @ str_nat ni) @ ''/attr'' @ str_nat ai)) 0 as) d'')"
      by (rule mapacc_i_split) (rule 2 [OF nd n])
    then show "(case nd of Node op dm nm ins outs as \<Rightarrow>
             (let node_path = or_name nm (''node'' @ str_nat ni);
                  (as', d') = mapacc_i (\<lambda>ai a. extract_attr_tensors_to_dict a
                     (node_path @ ''/attr'' @ str_nat ai)) 0 as d''
              in (Node op dm nm ins outs as', d'))) =
        (case nd of Node op dm nm ins outs as \<Rightarrow>
          Node op dm nm ins outs (map_i (\<lambda>ai a. map_attr strip_tensor a
            (or_name nm (''node'' @ str_nat ni) @ ''/attr'' @ str_nat ai)) 0 as),
         fold put_tensor (case nd of Node op dm nm ins outs as \<Rightarrow>
           concat_i (\<lambda>ai a. slots_attr a
             (or_name nm (''node'' @ str_nat ni) @ ''/attr'' @ str_nat ai)) 0 as) d'')"
      by (simp add: n)
  qed
  show ?case by (simp add: mapacc_i_keyed nodes)
qed

lemma map_nodes_cong:
  assumes "\<And>op dm nm ins outs as ni ai a. Node op dm nm ins outs as \<in> set ns \<Longrightarrow> a \<in> set as \<Longrightarrow>
      F nm ni ai a = G nm ni ai a"
  shows "map_i (\<lambda>ni nd. case nd of Node op dm nm ins outs as \<Rightarrow>
           Node op dm nm ins outs (map_i (F nm ni) 0 as)) i ns =
         map_i (\<lambda>ni nd. case nd of Node op dm nm ins outs as \<Rightarrow>
           Node op dm nm ins outs (map_i (G nm ni) 0 as)) i ns"
proof (rule map_i_cong)
  fix ni nd
  assume nd: "nd \<in> set ns"
  obtain op dm nm ins outs as where n: "nd = Node op dm nm ins outs as" by (cases nd)
  have "map_i (F nm ni) 0 as = map_i (G nm ni) 0 as"
    using assms nd n by (intro map_i_cong) auto
  then show "(case nd of Node op dm nm ins outs as \<Rightarrow> Node op dm nm ins outs (map_i (F nm ni) 0 as)) =
      (case nd of Node op dm nm ins outs as \<Rightarrow> Node op dm nm ins outs (map_i (G nm ni) 0 as))"
    by (simp add: n)
qed simp_all

lemma restore_is_map:
  "restore_attr_tensors_raw_data a path d = map_attr (\<lambda>k t. restore_tensor_raw_data t k d) a path"
  "restore_graph_tensors_raw_data g d = map_graph (\<lambda>k t. restore_tensor_raw_data t k d) g"
proof (induction a path and g rule: slots_attr_slots_graph.induct)
  case (1 nm i s ints t ts g gs path)
  then show ?case by (cases g) (auto cong: map_i_cong)
next
  case (2 ns gi go vs inits)
  show ?case using 2 by (simp only: restore_graph_tensors_raw_data.simps map_graph.simps graph.inject)
      (intro conjI map_nodes_cong, auto)
qed

lemma hydrate_is_map:
  "hydrate_attr_tensors_from_pool a path p = map_attr (\<lambda>k t. hydrate_tensor_from_pool t k p) a path"
  "hydrate_graph_tensors_from_pool g p = map_graph (\<lambda>k t. hydrate_tensor_from_pool t k p) g"
proof (induction a path and g rule: slots_attr_slots_graph.induct)
  case (1 nm i s ints t ts g gs path)
  then show ?case by (cases g) (auto cong: map_i_cong)
next
  case (2 ns gi go vs inits)
  show ?case using 2 by (simp only: hydrate_graph_tensors_from_pool.simps map_graph.simps graph.inject)
      (intro conjI map_nodes_cong, auto)
qed

section \<open>Laws of keyed maps\<close>

lemma concat_i_memI: "(j, x) \<in> set (enum_from i xs) \<Longrightarrow> y \<in> set (f j x) \<Longrightarrow> y \<in> set (concat_i f i xs)"
  by (auto simp: set_concat_i)

lemma slots_attr_memI:
  "t = Some x \<Longrightarrow> (or_name (tname x) (path @ ''/t''), x) \<in> set (slots_attr (Attr nm i s ints t ts g gs) path)"
  "(j, x) \<in> set (enum_from 0 ts) \<Longrightarrow>
     (or_name (tname x) (path @ ''/tensors'' @ str_nat j), x) \<in> set (slots_attr (Attr nm i s ints t ts g gs) path)"
  "g = Some b \<Longrightarrow> y \<in> set (slots_graph b) \<Longrightarrow> y \<in> set (slots_attr (Attr nm i s ints t ts g gs) path)"
  "(j, b) \<in> set (enum_from 0 gs) \<Longrightarrow> y \<in> set (slots_graph b) \<Longrightarrow>
     y \<in> set (slots_attr (Attr nm i s ints t ts g gs) path)"
  unfolding slots_attr.simps set_append
  by (simp, (intro UnI2 UnI1, rule concat_i_memI, assumption, simp), simp,
      (intro UnI2, rule concat_i_memI, assumption, simp))

lemma slots_graph_memI:
  "(j, x) \<in> set (enum_from 0 inits) \<Longrightarrow>
     (or_name (tname x) (''initializer'' @ str_nat j), x) \<in> set (slots_graph (Graph ns gi go vs inits))"
  "(ni, Node op dm nm ins outs as) \<in> set (enum_from 0 ns) \<Longrightarrow> (ai, a) \<in> set (enum_from 0 as) \<Longrightarrow>
     y \<in> set (slots_attr a (or_name nm (''node'' @ str_nat ni) @ ''/attr'' @ str_nat ai)) \<Longrightarrow>
     y \<in> set (slots_graph (Graph ns gi go vs inits))"
  unfolding slots_graph.simps set_append
  by ((rule UnI1, rule concat_i_memI, assumption, simp),
      (rule UnI2, rule concat_i_memI, assumption, unfold node.case, rule concat_i_memI, assumption+))

text \<open>A graph is unchanged by a map that fixes each of its tensors under the key it has there.\<close>

lemma map_fixes_slots:
  "(\<And>k t. (k, t) \<in> set (slots_attr a path) \<Longrightarrow> h k t = t) \<Longrightarrow> map_attr h a path = a"
  "(\<And>k t. (k, t) \<in> set (slots_graph g) \<Longrightarrow> h k t = t) \<Longrightarrow> map_graph h g = g"
proof (induction a path and g rule: slots_attr_slots_graph.induct)
  case (1 nm i s ints t ts g gs path)
  have "map_i (\<lambda>k x. h (or_name (tname x) (path @ ''/tensors'' @ str_nat k)) x) 0 ts = ts"
    by (rule map_i_id, rule "1.prems", rule slots_attr_memI(2)) simp
  moreover have "map_i (\<lambda>k. map_graph h) 0 gs = gs"
  proof (rule map_i_id)
    fix j b assume "(j, b) \<in> set (enum_from 0 gs)"
    then show "map_graph h b = b"
      using 1(2) [OF enum_from_mem] "1.prems" slots_attr_memI(4) by metis
  qed
  moreover have "map_option (map_graph h) g = g"
    using 1(1) "1.prems" by (cases g) auto
  moreover have "map_option (\<lambda>x. h (or_name (tname x) (path @ ''/t'')) x) t = t"
    using "1.prems" by (cases t) auto
  ultimately show ?case by simp
next
  case (2 ns gi go vs inits)
  have "map_i (\<lambda>k x. h (or_name (tname x) (''initializer'' @ str_nat k)) x) 0 inits = inits"
    by (rule map_i_id, rule "2.prems", rule slots_graph_memI(1)) simp
  moreover have "map_i (\<lambda>ni nd. case nd of Node op dm nm ins outs as \<Rightarrow>
      Node op dm nm ins outs (map_i (\<lambda>ai a. map_attr h a
        (or_name nm (''node'' @ str_nat ni) @ ''/attr'' @ str_nat ai)) 0 as)) 0 ns = ns"
  proof (rule map_i_id)
    fix ni nd assume nd: "(ni, nd) \<in> set (enum_from 0 ns)"
    obtain op dm nm ins outs as where n: "nd = Node op dm nm ins outs as" by (cases nd)
    have "map_i (\<lambda>ai a. map_attr h a (or_name nm (''node'' @ str_nat ni) @ ''/attr'' @ str_nat ai)) 0 as = as"
    proof (rule map_i_id)
      fix ai a assume a: "(ai, a) \<in> set (enum_from 0 as)"
      show "map_attr h a (or_name nm (''node'' @ str_nat ni) @ ''/attr'' @ str_nat ai) = a"
      proof (rule 2(1) [OF enum_from_mem [OF nd] n enum_from_mem [OF a]])
        fix k t assume "(k, t) \<in> set (slots_attr a (or_name nm (''node'' @ str_nat ni) @ ''/attr'' @ str_nat ai))"
        then show "h k t = t" using nd a n by (intro "2.prems" slots_graph_memI(2)) simp
      qed
    qed
    then show "(case nd of Node op dm nm ins outs as \<Rightarrow> Node op dm nm ins outs (map_i (\<lambda>ai a. map_attr h a
        (or_name nm (''node'' @ str_nat ni) @ ''/attr'' @ str_nat ai)) 0 as)) = nd"
      by (simp add: n)
  qed
  ultimately show ?case by (simp only: map_graph.simps)
qed

lemma map_fixed_elem: "map f xs = xs \<Longrightarrow> x \<in> set xs \<Longrightarrow> f x = x"
  by (induction xs) auto

text \<open>
  A rewriting of single tensors that keeps their names, so that a second traversal meets the
  same keys. The laws of such rewritings hold for every traversal of the code.
\<close>

locale keyed_rewrite =
  fixes visit :: "string \<Rightarrow> tensor_proto \<Rightarrow> tensor_proto"
  assumes visit_name: "tname (visit k t) = tname t"
begin

lemma map_after:
  "map_attr h (map_attr visit a path) path = map_attr (\<lambda>k t. h k (visit k t)) a path"
  "map_graph h (map_graph visit g) = map_graph (\<lambda>k t. h k (visit k t)) g"
proof (induction a path and g rule: slots_attr_slots_graph.induct)
  case (1 nm i s ints t ts g gs path)
  then show ?case
    by (cases t; cases g) (auto simp: map_i_comp visit_name cong: map_i_cong)
next
  case (2 ns gi go vs inits)
  have "map_i (\<lambda>ni nd. case nd of Node op dm nm ins outs as \<Rightarrow> Node op dm nm ins outs
        (map_i (\<lambda>ai a. map_attr h a (or_name nm (''node'' @ str_nat ni) @ ''/attr'' @ str_nat ai)) 0 as)) 0
      (map_i (\<lambda>ni nd. case nd of Node op dm nm ins outs as \<Rightarrow> Node op dm nm ins outs
        (map_i (\<lambda>ai a. map_attr visit a (or_name nm (''node'' @ str_nat ni) @ ''/attr'' @ str_nat ai)) 0 as)) 0 ns)
    = map_i (\<lambda>ni nd. case nd of Node op dm nm ins outs as \<Rightarrow> Node op dm nm ins outs
        (map_i (\<lambda>ai a. map_attr (\<lambda>k t. h k (visit k t)) a
          (or_name nm (''node'' @ str_nat ni) @ ''/attr'' @ str_nat ai)) 0 as)) 0 ns"
    unfolding map_i_comp
  proof (rule map_i_cong)
    fix ni nd assume nd: "nd \<in> set ns"
    obtain op dm nm ins outs as where n: "nd = Node op dm nm ins outs as" by (cases nd)
    show "(case case nd of Node op dm nm ins outs as \<Rightarrow> Node op dm nm ins outs
        (map_i (\<lambda>ai a. map_attr visit a (or_name nm (''node'' @ str_nat ni) @ ''/attr'' @ str_nat ai)) 0 as)
       of Node op dm nm ins outs as \<Rightarrow> Node op dm nm ins outs
        (map_i (\<lambda>ai a. map_attr h a (or_name nm (''node'' @ str_nat ni) @ ''/attr'' @ str_nat ai)) 0 as)) =
      (case nd of Node op dm nm ins outs as \<Rightarrow> Node op dm nm ins outs
        (map_i (\<lambda>ai a. map_attr (\<lambda>k t. h k (visit k t)) a
          (or_name nm (''node'' @ str_nat ni) @ ''/attr'' @ str_nat ai)) 0 as))"
      using 2 [OF nd n] by (simp only: n node.case map_i_comp node.inject simp_thms) (rule map_i_cong; simp)
  qed simp_all
  then show ?case
    by (simp only: map_graph.simps graph.inject simp_thms) (simp only: map_i_comp visit_name)
qed

lemma slots_after:
  "slots_attr (map_attr visit a path) path = map (\<lambda>(k, t). (k, visit k t)) (slots_attr a path)"
  "slots_graph (map_graph visit g) = map (\<lambda>(k, t). (k, visit k t)) (slots_graph g)"
proof (induction a path and g rule: slots_attr_slots_graph.induct)
  case (1 nm i s ints t ts g gs path)
  then show ?case
    by (cases t; cases g) (auto simp: concat_i_map_i map_concat_i visit_name cong: concat_i_cong)
next
  case (2 ns gi go vs inits)
  have "concat_i (\<lambda>ni nd. case nd of Node op dm nm ins outs as \<Rightarrow>
       concat_i (\<lambda>ai a. slots_attr a (or_name nm (''node'' @ str_nat ni) @ ''/attr'' @ str_nat ai)) 0 as) 0
      (map_i (\<lambda>ni nd. case nd of Node op dm nm ins outs as \<Rightarrow> Node op dm nm ins outs
        (map_i (\<lambda>ai a. map_attr visit a (or_name nm (''node'' @ str_nat ni) @ ''/attr'' @ str_nat ai)) 0 as)) 0 ns)
    = map (\<lambda>(k, t). (k, visit k t)) (concat_i (\<lambda>ni nd. case nd of Node op dm nm ins outs as \<Rightarrow>
       concat_i (\<lambda>ai a. slots_attr a (or_name nm (''node'' @ str_nat ni) @ ''/attr'' @ str_nat ai)) 0 as) 0 ns)"
    unfolding concat_i_map_i map_concat_i
  proof (rule concat_i_cong)
    fix ni nd assume nd: "nd \<in> set ns"
    obtain op dm nm ins outs as where n: "nd = Node op dm nm ins outs as" by (cases nd)
    show "(case case nd of Node op dm nm ins outs as \<Rightarrow> Node op dm nm ins outs
        (map_i (\<lambda>ai a. map_attr visit a (or_name nm (''node'' @ str_nat ni) @ ''/attr'' @ str_nat ai)) 0 as)
       of Node op dm nm ins outs as \<Rightarrow>
       concat_i (\<lambda>ai a. slots_attr a (or_name nm (''node'' @ str_nat ni) @ ''/attr'' @ str_nat ai)) 0 as) =
      map (\<lambda>(k, t). (k, visit k t)) (case nd of Node op dm nm ins outs as \<Rightarrow>
       concat_i (\<lambda>ai a. slots_attr a (or_name nm (''node'' @ str_nat ni) @ ''/attr'' @ str_nat ai)) 0 as)"
      using 2 [OF nd n] by (simp only: n node.case concat_i_map_i map_concat_i) (rule concat_i_cong; simp)
  qed simp_all
  then show ?case
    by (simp only: map_graph.simps slots_graph.simps map_append append_same_eq)
       (simp add: concat_i_map_i map_concat_i visit_name)
qed

lemma fixes_iff: "map_graph visit g = g \<longleftrightarrow> (\<forall>(k, t)\<in>set (slots_graph g). visit k t = t)"
proof
  assume "map_graph visit g = g"
  then have "map (\<lambda>(k, t). (k, visit k t)) (slots_graph g) = slots_graph g"
    using slots_after(2) [of g] by simp
  then show "\<forall>(k, t)\<in>set (slots_graph g). visit k t = t"
    by (auto dest: map_fixed_elem)
qed (auto intro: map_fixes_slots(2))

end

interpretation strip: keyed_rewrite strip_tensor
  by unfold_locales (simp add: strip_tensor_def)

interpretation restore: keyed_rewrite "\<lambda>k t. restore_tensor_raw_data t k d" for d
  by unfold_locales (simp add: restore_tensor_raw_data_def split: option.splits)

interpretation hydrate: keyed_rewrite "\<lambda>k t. hydrate_tensor_from_pool t k p" for p
  by unfold_locales (simp add: hydrate_tensor_from_pool_def split: option.splits)

interpretation restore_strip: keyed_rewrite "\<lambda>k t. restore_tensor_raw_data (strip_tensor k t) k d" for d
  by unfold_locales (simp add: restore.visit_name strip.visit_name)

section \<open>Export leaves the model as it was, exactly when the keys agree\<close>

definition keys_agree :: "graph \<Rightarrow> bool" where
  "keys_agree g \<longleftrightarrow> list_all (\<lambda>(k, t). list_all (\<lambda>(k', t').
      k = k' \<longrightarrow> extractable t' \<longrightarrow> raw_data t = raw_data t') (slots_graph g)) (slots_graph g)"

lemma keys_agree_iff:
  "keys_agree g \<longleftrightarrow> (\<forall>k t t'. (k, t) \<in> set (slots_graph g) \<longrightarrow> (k, t') \<in> set (slots_graph g) \<longrightarrow>
     extractable t' \<longrightarrow> raw_data t = raw_data t')"
  by (auto simp: keys_agree_def list_all_iff)

lemma fold_put_tensor:
  "map_of (fold put_tensor xs d) k = Some bs \<Longrightarrow>
     map_of d k = Some bs \<or> (\<exists>t. (k, t) \<in> set xs \<and> extractable t \<and> raw_data t = Some bs)"
  by (induction xs arbitrary: d)
     (fastforce simp: put_tensor_def extractable_def dict_simps split: if_splits)+

lemma fold_put_tensor_dom:
  "(k, t) \<in> set xs \<and> extractable t \<or> map_of d k \<noteq> None \<Longrightarrow> map_of (fold put_tensor xs d) k \<noteq> None"
proof (induction xs arbitrary: d)
  case Nil
  then show ?case by simp
next
  case (Cons x xs)
  show ?case unfolding fold_Cons comp_def
    by (rule Cons.IH) (use Cons.prems in \<open>auto simp: put_tensor_def dict_simps\<close>)
qed

lemma restore_strip_fixes:
  assumes "(k, t) \<in> set (slots_graph g)" and "d = fold put_tensor (slots_graph g) []"
  shows "restore_tensor_raw_data (strip_tensor k t) k d = t \<longleftrightarrow>
    (case map_of d k of None \<Rightarrow> True | Some bs \<Rightarrow> raw_data t = Some bs)"
proof (cases "map_of d k")
  case None
  then have "\<not> extractable t" using fold_put_tensor_dom [of k t "slots_graph g" "[]"] assms by auto
  with None show ?thesis by (simp add: restore_tensor_raw_data_def strip_tensor_def)
next
  case (Some bs)
  have "t\<lparr>raw_data := Some bs\<rparr> = t \<longleftrightarrow> raw_data t = Some bs" by (cases t) auto
  with Some show ?thesis
    by (auto simp: restore_tensor_raw_data_def strip_tensor_def)
qed

lemma restore_extract_fixes_iff:
  "restore_graph_tensors_raw_data (fst (extract_graph_tensors_to_dict g []))
     (snd (extract_graph_tensors_to_dict g [])) = g \<longleftrightarrow> keys_agree g"
proof -
  define d where "d = fold put_tensor (slots_graph g) []"
  let ?h = "\<lambda>k t. restore_tensor_raw_data (strip_tensor k t) k d"
  have "map_graph ?h g = g \<longleftrightarrow> (\<forall>(k, t)\<in>set (slots_graph g). ?h k t = t)"
    by (rule restore_strip.fixes_iff)
  also have "\<dots> \<longleftrightarrow> (\<forall>(k, t)\<in>set (slots_graph g).
      case map_of d k of None \<Rightarrow> True | Some bs \<Rightarrow> raw_data t = Some bs)"
    using restore_strip_fixes [OF _ d_def] by fastforce
  also have "\<dots> \<longleftrightarrow> keys_agree g"
  proof
    assume *: "\<forall>(k, t)\<in>set (slots_graph g). case map_of d k of None \<Rightarrow> True | Some bs \<Rightarrow> raw_data t = Some bs"
    have "raw_data t = raw_data t'"
      if "(k, t) \<in> set (slots_graph g)" "(k, t') \<in> set (slots_graph g)" "extractable t'" for k t t'
    proof -
      from that obtain bs where "map_of d k = Some bs"
        using fold_put_tensor_dom [of k t' "slots_graph g" "[]"] d_def by auto
      then have "raw_data t = Some bs" "raw_data t' = Some bs"
        using that(1,2) by (auto dest: bspec [OF *])
      then show ?thesis by simp
    qed
    then show "keys_agree g" unfolding keys_agree_iff by blast
  next
    assume *: "keys_agree g"
    show "\<forall>(k, t)\<in>set (slots_graph g). case map_of d k of None \<Rightarrow> True | Some bs \<Rightarrow> raw_data t = Some bs"
    proof (clarsimp split: option.split)
      fix k t bs assume kt: "(k, t) \<in> set (slots_graph g)" and "map_of d k = Some bs"
      then obtain t' where "(k, t') \<in> set (slots_graph g)" "extractable t'" "raw_data t' = Some bs"
        using fold_put_tensor [of "slots_graph g" "[]" k bs] d_def by auto
      with * kt show "raw_data t = Some bs" unfolding keys_agree_iff by metis
    qed
  qed
  finally show ?thesis
    by (simp add: extract_is_map restore_is_map strip.map_after d_def)
qed

text \<open>
  C1. \<^verbatim>\<open>export_safetensors\<close> and \<^verbatim>\<open>export_gguf\<close> promise to leave the caller's model unchanged,
  also when the writer fails. For every writer and every model, the model is unchanged exactly
  when no two tensors that share a key (their name, or the positional fallback of an unnamed
  one) disagree about their bytes.
\<close>

theorem export_leaves_model_unchanged_iff:
  "(snd (export_safetensors c_export m out_path) = m \<longleftrightarrow> keys_agree (mgraph m)) \<and>
   (snd (export_gguf c_export m out_path) = m \<longleftrightarrow> keys_agree (mgraph m))"
proof -
  have "m\<lparr>mgraph := g\<rparr> = m \<longleftrightarrow> g = mgraph m" for g by (cases m) auto
  then have "snd (export_archive c_export m out_path) = m \<longleftrightarrow> keys_agree (mgraph m)"
    by (simp add: export_archive_def split_def Let_def restore_extract_fixes_iff)
  then show ?thesis by (simp add: export_safetensors_def export_gguf_def)
qed

text \<open>
  Two unnamed constants, one in the main graph and one in the body of an If node, get the same
  fallback key \<^verbatim>\<open>node0/attr0/t\<close>: the path of a node does not say which graph it is in.
\<close>

definition const_node :: "bytes \<Rightarrow> node" where
  "const_node bs = Node ''Constant'' '''' '''' [] [''c'']
     [Attr ''value'' 0 '''' [] (Some (inline_tensor '''' UINT8 [1] bs)) [] None []]"

definition branch_model :: "bytes \<Rightarrow> bytes \<Rightarrow> model" where
  "branch_model main branch = \<lparr>ir_version = 8, opset_import = [('''', 17)],
     mgraph = Graph
       [const_node main,
        Node ''If'' '''' '''' [''c''] [''y'']
          [Attr ''then_branch'' 0 '''' [] None [] (Some (Graph [const_node branch] [] [] [] [])) []]]
       [] [] [] []\<rparr>"

text \<open>
  C2. The promise is broken by models whose unnamed constants collide: after exporting, the
  constant of the main graph holds the bytes of the one in the branch, whatever the writer did.
\<close>

theorem export_collision_overwrites_constant:
  "snd (export_safetensors c_export (branch_model main branch) out_path) = branch_model branch branch"
  by (simp add: export_safetensors_def export_archive_def branch_model_def const_node_def
      inline_tensor_def extract_tensor_to_dict_def or_name_def restore_tensor_raw_data_def)

section \<open>Export then import\<close>

text \<open>
  What the reader and the writer promise each other: a tensor whose key was in the dictionary
  comes back as an external reference, and the pool resolves the keys of the dictionary. The
  external-data entries (\<open>ext\<close>) are the archive's own business.
\<close>

definition adopt_tensor ::
  "(string \<Rightarrow> (string \<times> string) list) \<Rightarrow> store \<Rightarrow> string \<Rightarrow> tensor_proto \<Rightarrow> tensor_proto" where
  "adopt_tensor ext d k t =
     (if map_of d k = None then t else t\<lparr>data_location := EXTERNAL, external_data := ext k\<rparr>)"

interpretation adopt: keyed_rewrite "adopt_tensor ext d" for ext d
  by unfold_locales (simp add: adopt_tensor_def)

interpretation adopt_strip: keyed_rewrite "\<lambda>k t. adopt_tensor ext d k (strip_tensor k t)" for ext d
  by unfold_locales (simp add: adopt.visit_name strip.visit_name)

interpretation hydrate_adopt_strip:
  keyed_rewrite "\<lambda>k t. hydrate_tensor_from_pool (adopt_tensor ext d k (strip_tensor k t)) k (map_of d)" for ext d
  by unfold_locales (simp add: hydrate.visit_name adopt.visit_name strip.visit_name)

definition archive_contract ::
  "(string \<Rightarrow> (string \<times> string) list) \<Rightarrow> (model \<Rightarrow> store \<Rightarrow> string \<Rightarrow> 'f res) \<Rightarrow>
   ('f \<Rightarrow> string \<Rightarrow> (model \<times> pool) res) \<Rightarrow> bool" where
  "archive_contract ext c_export c_import \<longleftrightarrow>
     (\<forall>m d path f. c_export m d path = Inr f \<longrightarrow>
        c_import f path = Inr (m\<lparr>mgraph := map_graph (adopt_tensor ext d) (mgraph m)\<rparr>, map_of d))"

definition inline_clean :: "graph \<Rightarrow> bool" where
  "inline_clean g \<longleftrightarrow> list_all (\<lambda>(k, t). extractable t \<longrightarrow> external_data t = []) (slots_graph g)"

lemma fold_put_unique:
  assumes "distinct (map fst xs)" and "(k, t) \<in> set xs"
  shows "map_of (fold put_tensor xs []) k = (if extractable t then raw_data t else None)"
proof -
  have uniq: "t' = t" if "(k, t') \<in> set xs" for t'
    using assms that by (metis map_of_is_SomeI option.inject)
  show ?thesis
  proof (cases "map_of (fold put_tensor xs []) k")
    case None
    then show ?thesis using fold_put_tensor_dom [of k t xs "[]"] assms(2) by auto
  next
    case (Some bs)
    then show ?thesis using fold_put_tensor [of xs "[]" k bs] uniq by auto
  qed
qed

lemma hydrate_adopt_strip_fixes:
  assumes "distinct (map fst (slots_graph g))" and "inline_clean g" and kt: "(k, t) \<in> set (slots_graph g)"
    and "d = fold put_tensor (slots_graph g) []"
  shows "hydrate_tensor_from_pool (adopt_tensor ext d k (strip_tensor k t)) k (map_of d) = t"
proof -
  have d: "map_of d k = (if extractable t then raw_data t else None)"
    using fold_put_unique [OF assms(1) kt] assms(4) by simp
  show ?thesis
  proof (cases "extractable t")
    case True
    then obtain bs where bs: "raw_data t = Some bs" by (auto simp: extractable_def)
    have "external_data t = []" using assms(2) kt True by (auto simp: inline_clean_def list_all_iff)
    moreover have "data_location t = DEFAULT" using True by (cases "data_location t") (auto simp: extractable_def)
    ultimately have "t\<lparr>raw_data := Some bs, data_location := DEFAULT, external_data := []\<rparr> = t"
      using bs by (cases t) auto
    with True bs d show ?thesis
      by (simp add: hydrate_tensor_from_pool_def adopt_tensor_def strip_tensor_def)
  next
    case False
    with d show ?thesis
      by (auto simp: hydrate_tensor_from_pool_def adopt_tensor_def strip_tensor_def)
  qed
qed


definition archive_example :: model where
  "archive_example = \<lparr>ir_version = 8, opset_import = [('''', 17)],
     mgraph = Graph [const_node [7]] [] [] [] [inline_tensor ''w'' FLOAT [1] [1, 2, 3, 4]]\<rparr>"


section \<open>Weights from a GGUF file\<close>

definition gguf_rejects ::
  "(elem_type \<Rightarrow> nat option) \<Rightarrow> (string \<Rightarrow> (elem_type \<times> bytes) option) \<Rightarrow> tensor_proto \<Rightarrow> bool" where
  "gguf_rejects itemsize matched t =
     (case matched (tname t) of None \<Rightarrow> False
      | Some (ty, dat) \<Rightarrow> (case tensor_proto_nbytes itemsize ty (tdims t) of
          None \<Rightarrow> False | Some e \<Rightarrow> e \<noteq> int (length dat)))"

text \<open>What the C++ side promises: the initializers of the result are those of the model, in
  order, with their names and shapes; only matched ones differ elsewhere.\<close>

definition gguf_contract ::
  "(string \<Rightarrow> (elem_type \<times> bytes) option) \<Rightarrow> tensor_proto list \<Rightarrow> tensor_proto list \<Rightarrow> bool" where
  "gguf_contract matched orig res \<longleftrightarrow>
     list_all2 (\<lambda>t r. tname r = tname t \<and> tdims r = tdims t \<and> (matched (tname t) = None \<longrightarrow> r = t)) orig res"

definition gguf_outcome ::
  "(elem_type \<Rightarrow> nat option) \<Rightarrow> (string \<Rightarrow> (elem_type \<times> bytes) option) \<Rightarrow> tensor_proto \<Rightarrow> tensor_proto \<Rightarrow> bool" where
  "gguf_outcome itemsize matched t t' \<longleftrightarrow>
     tname t' = tname t \<and> tdims t' = tdims t \<and>
     (case matched (tname t) of
        None \<Rightarrow> t' = t
      | Some (ty, dat) \<Rightarrow>
          if gguf_rejects itemsize matched t then t' = t
          else data_type t' = ty \<and> raw_data t' = Some dat)"

lemma import_gguf_inits_outcome:
  assumes "gguf_contract matched orig res"
    and "\<And>t. t \<in> set orig \<Longrightarrow> map_of originals (tname t) = Some t"
  shows "\<exists>ts. import_gguf_inits itemsize matched originals res skipped =
      Inr (ts, skipped @ map tname (filter (gguf_rejects itemsize matched) orig)) \<and>
    list_all2 (gguf_outcome itemsize matched) orig ts"
  using assms
proof (induction orig arbitrary: res skipped)
  case Nil
  then show ?case by (simp add: gguf_contract_def)
next
  case (Cons t orig)
  then obtain r rs where res: "res = r # rs" and r: "tname r = tname t" "tdims r = tdims t"
      "matched (tname t) = None \<longrightarrow> r = t" and rs: "gguf_contract matched orig rs"
    by (auto simp: gguf_contract_def list_all2_Cons1)
  have step: "\<exists>t'. import_gguf_step itemsize matched originals r skipped =
      Inr (t', if gguf_rejects itemsize matched t then skipped @ [tname t] else skipped) \<and>
      gguf_outcome itemsize matched t t'"
    using r Cons.prems(2) [of t]
    by (auto simp: import_gguf_step_def gguf_rejects_def gguf_outcome_def split: option.splits prod.splits)
  then obtain t' where t': "import_gguf_step itemsize matched originals r skipped =
      Inr (t', if gguf_rejects itemsize matched t then skipped @ [tname t] else skipped)"
      "gguf_outcome itemsize matched t t'" by blast
  from Cons.IH [OF rs] Cons.prems(2) obtain ts where
    "import_gguf_inits itemsize matched originals rs
        (if gguf_rejects itemsize matched t then skipped @ [tname t] else skipped) =
      Inr (ts, (if gguf_rejects itemsize matched t then skipped @ [tname t] else skipped) @
        map tname (filter (gguf_rejects itemsize matched) orig))"
    "list_all2 (gguf_outcome itemsize matched) orig ts"
    by (metis list.set_intros(2))
  then show ?case using t' by (auto simp: res)
qed

lemma originals_lookup:
  assumes "distinct (map tname ts)" and "t \<in> set ts"
  shows "map_of (foldl (\<lambda>d t. dict_set (tname t) t d) [] ts) (tname t) = Some t"
proof -
  have "map_of (foldl (\<lambda>d t. dict_set (tname t) t d) d ts) n =
      (case List.find (\<lambda>t. tname t = n) ts of None \<Rightarrow> map_of d n | Some t \<Rightarrow> Some t)"
    if "distinct (map tname ts)" for d n
    using that
  proof (induction ts arbitrary: d)
    case Nil
    then show ?case by simp
  next
    case (Cons t ts)
    then have "List.find (\<lambda>u. tname u = tname t) ts = None"
      by (auto simp: find_None_iff) (metis image_eqI)
    then show ?case using Cons by (auto simp: dict_simps split: option.splits)
  qed
  moreover have "List.find (\<lambda>u. tname u = tname t) ts = Some t"
    using assms
  proof (induction ts)
    case (Cons u ts)
    then show ?case by (cases "tname u = tname t") (auto simp: image_iff)
  qed simp
  ultimately show ?thesis using assms(1) by simp
qed

text \<open>
  C4. \<^verbatim>\<open>import_gguf_weights\<close> never raises on its own account and never leaves bytes of the wrong
  length behind: every initializer keeps its name and shape, an unmatched or rejected one keeps
  its original value, every other one gets the decoded type and bytes, and the rejected names
  are appended to the skipped ones in order.
\<close>

theorem import_gguf_weights_outcome:
  assumes "c_import m path = Inr (res, matched, skipped)"
    and "gguf_contract matched (ginit (mgraph m)) (ginit (mgraph res))"
    and "distinct (map tname (ginit (mgraph m)))"
  shows "\<exists>m'. import_gguf_weights itemsize c_import m path =
      Inr (m', skipped @ map tname (filter (gguf_rejects itemsize matched) (ginit (mgraph m)))) \<and>
    list_all2 (gguf_outcome itemsize matched) (ginit (mgraph m)) (ginit (mgraph m'))"
proof -
  obtain ts where "import_gguf_inits itemsize matched
        (foldl (\<lambda>d t. dict_set (tname t) t d) [] (ginit (mgraph m))) (ginit (mgraph res)) skipped =
      Inr (ts, skipped @ map tname (filter (gguf_rejects itemsize matched) (ginit (mgraph m))))"
    "list_all2 (gguf_outcome itemsize matched) (ginit (mgraph m)) ts"
    using import_gguf_inits_outcome [OF assms(2)] originals_lookup [OF assms(3)] by blast
  then show ?thesis using assms(1) by (auto simp: import_gguf_weights_def Let_def)
qed

definition gguf_example :: model where
  "gguf_example = \<lparr>ir_version = 8, opset_import = [], mgraph = Graph [] [] [] []
     [inline_tensor ''a'' UINT8 [2] [0, 0], inline_tensor ''b'' UINT8 [3] [9, 9, 9]]\<rparr>"

theorem import_gguf_weights_outcome_witness:
  "\<exists>m'. import_gguf_weights (\<lambda>_. Some 1)
      (\<lambda>m path. Inr (m, (\<lambda>_. Some (UINT8, [5, 6])), [''z''])) gguf_example ''p'' = Inr (m', [''z'', ''b'']) \<and>
    list_all2 (gguf_outcome (\<lambda>_. Some 1) (\<lambda>_. Some (UINT8, [5, 6]))) (ginit (mgraph gguf_example)) (ginit (mgraph m'))"
proof -
  have rej: "map tname (filter (gguf_rejects (\<lambda>_. Some 1) (\<lambda>_. Some (UINT8, [5, 6]))) (ginit (mgraph gguf_example))) = [''b'']"
    by (simp add: gguf_example_def inline_tensor_def gguf_rejects_def tensor_proto_nbytes_def)
  have "gguf_contract (\<lambda>_. Some (UINT8, [5, 6])) (ginit (mgraph gguf_example)) (ginit (mgraph gguf_example))"
    by (simp add: gguf_contract_def list_all2_same)
  moreover have "distinct (map tname (ginit (mgraph gguf_example)))"
    by (simp add: gguf_example_def inline_tensor_def)
  ultimately show ?thesis
    using import_gguf_weights_outcome
      [of "\<lambda>m path. Inr (m, (\<lambda>_. Some (UINT8, [5, 6])), [''z''])" gguf_example "''p''" gguf_example
          "\<lambda>_. Some (UINT8, [5, 6])" "[''z'']" "\<lambda>_. Some 1"] rej by simp
qed

end
