(* ===== verification/Ep_Fragmentation.thy ===== *)
theory Ep_Fragmentation
  imports Onnx
begin

text \<open>
  \<^verbatim>\<open>onnxsim/_ep_fragmentation.py\<close>: how many islands the nodes that stay on an execution
  provider form once a set of flagged nodes is cut out of the graph, and how many
  producer/consumer edges cross the cut. Python sets of indices are lists without order;
  the theorems do not depend on the order in which a set is iterated.
\<close>

section \<open>The producer and consumer tables\<close>

text \<open>One pass over \<^verbatim>\<open>node.output\<close> or \<^verbatim>\<open>node.input\<close>: every non-empty name gets the index.\<close>

definition index_names :: "nat \<Rightarrow> string list \<Rightarrow> (string, nat list) dict \<Rightarrow> (string, nat list) dict" where
  "index_names i names d = fold (\<lambda>s d. if s = '''' then d else dict_append s i d) names d"

definition producers_table :: "node list \<Rightarrow> (string, nat list) dict" where
  "producers_table ns = fold (\<lambda>(i, n). index_names i (noutput n)) (enumerate_py ns) []"

definition consumers_table :: "node list \<Rightarrow> (string, nat list) dict" where
  "consumers_table ns = fold (\<lambda>(i, n). index_names i (ninput n)) (enumerate_py ns) []"

section \<open>Cutting the flagged nodes\<close>

text \<open>
  The state of the edge loop: the adjacency sets of the nodes and the number of boundary edges.
\<close>

definition add_edge :: "nat list \<Rightarrow> nat \<times> nat \<Rightarrow> nat list list \<times> nat \<Rightarrow> nat list list \<times> nat" where
  "add_edge flagged = (\<lambda>(p, c) (adj, b).
     if p = c then (adj, b)
     else if (p \<in> set flagged) \<noteq> (c \<in> set flagged) then (adj, Suc b)
     else if p \<notin> set flagged then
       (let adj1 = adj[p := List.insert c (adj ! p)] in (adj1[c := List.insert p (adj1 ! c)], b))
     else (adj, b))"

definition name_edges :: "(string, nat list) dict \<Rightarrow> (string, nat list) dict \<Rightarrow> (nat \<times> nat) list" where
  "name_edges prods cons =
     concat (map (\<lambda>s. List.product (get_default prods s []) (get_default cons s []))
                 (remdups (dict_keys prods @ dict_keys cons)))"

definition cut_edges :: "node list \<Rightarrow> nat list \<Rightarrow> nat list list \<times> nat" where
  "cut_edges ns flagged =
     fold (add_edge flagged) (name_edges (producers_table ns) (consumers_table ns))
          (replicate (length ns) [], 0)"

section \<open>Counting the islands\<close>

text \<open>The inner \<^verbatim>\<open>for nxt in adjacency[cur]\<close>; the top of the stack is the head of the list.\<close>

fun push_new :: "nat list \<Rightarrow> nat list \<Rightarrow> nat list \<Rightarrow> nat list \<times> nat list" where
  "push_new [] visited stack = (visited, stack)"
| "push_new (x # xs) visited stack =
     (if x \<in> set visited then push_new xs visited stack
      else push_new xs (x # visited) (x # stack))"

lemma push_new_measure:
  "push_new xs v s = (v', s') \<Longrightarrow> finite U \<Longrightarrow> set xs \<subseteq> U \<Longrightarrow>
     2 * card (U - set v') + length s' \<le> 2 * card (U - set v) + length s"
proof (induction xs arbitrary: v s)
  case Nil
  then show ?case by simp
next
  case (Cons x xs)
  show ?case
  proof (cases "x \<in> set v")
    case True
    with Cons show ?thesis by simp
  next
    case False
    have "U - set (x # v) = (U - set v) - {x}" by auto
    moreover have "x \<in> U - set v" using False Cons.prems by auto
    ultimately have "Suc (card (U - set (x # v))) = card (U - set v)"
      using Cons.prems(2) by (metis card_Suc_Diff1 finite_Diff)
    moreover have "2 * card (U - set v') + length s' \<le> 2 * card (U - set (x # v)) + length (x # s)"
      using Cons.IH [of "x # v" "x # s"] Cons.prems False by simp
    ultimately show ?thesis by simp
  qed
qed

text \<open>\<^verbatim>\<open>while stack: cur = stack.pop(); ...\<close>; a missing adjacency entry is a \<^verbatim>\<open>KeyError\<close>.\<close>

function island_walk :: "nat list list \<Rightarrow> nat list \<Rightarrow> nat list \<Rightarrow> nat list res" where
  "island_walk adj visited [] = Inr visited"
| "island_walk adj visited (cur # stack) =
     (if cur < length adj then
        (case push_new (adj ! cur) visited stack of (visited', stack') \<Rightarrow> island_walk adj visited' stack')
      else Inl (KeyError ''adjacency''))"
  by pat_completeness auto
termination
proof (relation "measure (\<lambda>(adj, v, s). 2 * card (set (concat adj) - set v) + length s)", goal_cases)
  case (2 adj v cur s v' s')
  then have "set (adj ! cur) \<subseteq> set (concat adj)" using 2 nth_mem [of cur adj] by fastforce
  then have "2 * card (set (concat adj) - set v') + length s' \<le> 2 * card (set (concat adj) - set v) + length s"
    using push_new_measure [OF 2(2) [symmetric]] by blast
  then show ?case using 2(2) [symmetric] by simp
qed simp

definition island_step :: "nat list list \<Rightarrow> nat list \<Rightarrow> nat list \<times> nat \<Rightarrow> nat \<Rightarrow> (nat list \<times> nat) res" where
  "island_step adj flagged = (\<lambda>(visited, count) i.
     if i \<in> set flagged \<or> i \<in> set visited then Inr (visited, count)
     else rbind (island_walk adj (i # visited) [i]) (\<lambda>visited'. Inr (visited', Suc count)))"

record island_report =
  island_count :: nat
  boundary_edge_count :: nat
  flagged_node_names :: "string list"

definition flagged_label :: "node list \<Rightarrow> nat \<Rightarrow> string res" where
  "flagged_label ns i =
     (if i < length ns then
        Inr (or_name (nname (ns ! i))
               (case noutput (ns ! i) of [] \<Rightarrow> ''<node '' @ str_nat i @ ''>'' | s # _ \<Rightarrow> s))
      else Inl (IndexError ''nodes''))"

definition estimate_fragmentation :: "graph \<Rightarrow> nat list \<Rightarrow> island_report res" where
  "estimate_fragmentation g flagged =
     (let ns = gnode g; (adj, b) = cut_edges ns flagged in
      rbind (rfold (island_step adj flagged) ([], 0) [0..<length ns]) (\<lambda>(_, count).
      rbind (rmap (flagged_label ns) (sort (remdups flagged))) (\<lambda>names.
        Inr \<lparr>island_count = count, boundary_edge_count = b, flagged_node_names = names\<rparr>)))"

section \<open>What the tables hold\<close>

lemma index_names_get:
  "get_default (index_names i names d) s [] =
     get_default d s [] @ (if s = '''' then [] else map (\<lambda>_. i) (filter (\<lambda>t. t = s) names))"
  unfolding index_names_def
  by (induction names arbitrary: d) (auto simp: dict_simps)

lemma index_names_keys:
  "set (dict_keys (index_names i names d)) = set (dict_keys d) \<union> (set names - {''''})"
  unfolding index_names_def
  by (induction names arbitrary: d) (auto simp: dict_append_def update_keys keys_dict_set [simplified set_map] split: if_splits)

lemma fold_index_get:
  "set (get_default (fold (\<lambda>(i, n). index_names i (f n)) xs d) s []) =
     set (get_default d s []) \<union> {i. \<exists>n. (i, n) \<in> set xs \<and> s \<in> set (f n) \<and> s \<noteq> ''''}"
  by (induction xs arbitrary: d) (auto simp: index_names_get split: if_splits)

lemma producers_table_get:
  "set (get_default (producers_table ns) s []) =
     {i. i < length ns \<and> s \<in> set (noutput (ns ! i)) \<and> s \<noteq> ''''}"
  by (auto simp: producers_table_def fold_index_get in_set_enumerate_py)

lemma consumers_table_get:
  "set (get_default (consumers_table ns) s []) =
     {i. i < length ns \<and> s \<in> set (ninput (ns ! i)) \<and> s \<noteq> ''''}"
  by (auto simp: consumers_table_def fold_index_get in_set_enumerate_py)

text \<open>\<open>feeds ns p c\<close>: node \<open>p\<close> writes a value that node \<open>c\<close> reads.\<close>

definition feeds :: "node list \<Rightarrow> nat \<Rightarrow> nat \<Rightarrow> bool" where
  "feeds ns p c \<longleftrightarrow> p < length ns \<and> c < length ns \<and>
     (\<exists>s \<in> set (noutput (ns ! p)). s \<noteq> '''' \<and> s \<in> set (ninput (ns ! c)))"

lemma get_default_ne: "get_default d s [] \<noteq> [] \<Longrightarrow> s \<in> set (dict_keys d)"
  by (cases "map_of d s") (auto simp: get_default_def dest: map_of_SomeD intro: rev_image_eqI)

lemma set_name_edges:
  "set (name_edges (producers_table ns) (consumers_table ns)) = {(p, c). feeds ns p c}"
proof -
  have "set (name_edges P C) = {(p, c). \<exists>s. p \<in> set (get_default P s []) \<and> c \<in> set (get_default C s [])}" (is "_ = ?R")
    for P C :: "(string, nat list) dict"
  proof
    show "set (name_edges P C) \<subseteq> ?R" by (auto simp: name_edges_def)
    show "?R \<subseteq> set (name_edges P C)"
    proof clarify
      fix p c s
      assume pc: "p \<in> set (get_default P s [])" "c \<in> set (get_default C s [])"
      then have "get_default P s [] \<noteq> []" by (metis empty_iff list.set(1))
      then have "s \<in> set (dict_keys P @ dict_keys C)" using get_default_ne [of P s] by auto
      moreover have "(p, c) \<in> set (List.product (get_default P s []) (get_default C s []))" using pc by simp
      ultimately show "(p, c) \<in> set (name_edges P C)" unfolding name_edges_def set_concat set_map set_remdups by blast
    qed
  qed
  then show ?thesis by (auto simp: producers_table_get consumers_table_get feeds_def)
qed

section \<open>What the edge loop builds\<close>

text \<open>Two nodes that stay touch when one feeds the other.\<close>

definition touches :: "(nat \<times> nat) set \<Rightarrow> nat list \<Rightarrow> (nat \<times> nat) set" where
  "touches E flagged = {(p, c). ((p, c) \<in> E \<or> (c, p) \<in> E) \<and> p \<noteq> c \<and> p \<notin> set flagged \<and> c \<notin> set flagged}"

definition adj_rel :: "nat list list \<Rightarrow> (nat \<times> nat) set" where
  "adj_rel adj = {(x, y). x < length adj \<and> y \<in> set (adj ! x)}"

lemma add_edge_keeps:
  assumes "add_edge flagged (p, c) (adj, b) = (adj', b')" "p < length adj" "c < length adj"
  shows "length adj' = length adj \<and> adj_rel adj' = adj_rel adj \<union> touches {(p, c)} flagged"
proof -
  consider "p = c" | "p \<noteq> c" "(p \<in> set flagged) \<noteq> (c \<in> set flagged)"
    | "p \<noteq> c" "p \<in> set flagged" "c \<in> set flagged" | "p \<noteq> c" "p \<notin> set flagged" "c \<notin> set flagged"
    by blast
  then show ?thesis
  proof cases
    case 4
    then have adj': "adj' = adj[p := List.insert c (adj ! p), c := List.insert p (adj ! c)]"
      using assms by (simp add: add_edge_def Let_def)
    show ?thesis using 4 assms(2,3)
      by (auto simp: adj' adj_rel_def touches_def nth_list_update split: if_splits)
  qed (use assms in \<open>auto simp: add_edge_def touches_def\<close>)
qed

lemma fold_add_edge:
  assumes "\<forall>(p, c) \<in> set es. p < length adj \<and> c < length adj"
    and "fold (add_edge flagged) es (adj, b) = (adj', b')"
  shows "length adj' = length adj \<and> adj_rel adj' = adj_rel adj \<union> touches (set es) flagged"
  using assms
proof (induction es arbitrary: adj b)
  case Nil
  then show ?case by (simp add: touches_def)
next
  case (Cons e es)
  obtain p c where e: "e = (p, c)" by (cases e)
  obtain adj1 b1 where step: "add_edge flagged (p, c) (adj, b) = (adj1, b1)" by (cases "add_edge flagged (p, c) (adj, b)")
  have k: "length adj1 = length adj \<and> adj_rel adj1 = adj_rel adj \<union> touches {(p, c)} flagged"
    using add_edge_keeps [OF step] Cons.prems(1) e by auto
  then have "length adj' = length adj1 \<and> adj_rel adj' = adj_rel adj1 \<union> touches (set es) flagged"
    using Cons.IH [of adj1 b1] Cons.prems step e by auto
  with k show ?case by (auto simp: e touches_def)
qed

lemma fold_add_edge_count:
  "snd (fold (add_edge flagged) es (adj, b)) =
     b + length (filter (\<lambda>(p, c). (p \<in> set flagged) \<noteq> (c \<in> set flagged)) es)"
proof (induction es arbitrary: adj b)
  case Nil
  then show ?case by simp
next
  case (Cons e es)
  then show ?case by (cases e) (auto simp: add_edge_def Let_def)
qed

lemma cut_edges_spec:
  assumes "cut_edges ns flagged = (adj, b)"
  shows "length adj = length ns"
    and "adj_rel adj = touches {(p, c). feeds ns p c} flagged"
    and "b = length (filter (\<lambda>(p, c). (p \<in> set flagged) \<noteq> (c \<in> set flagged))
                        (name_edges (producers_table ns) (consumers_table ns)))"
proof -
  let ?es = "name_edges (producers_table ns) (consumers_table ns)"
  have "\<forall>(p, c) \<in> set ?es. p < length (replicate (length ns) ([] :: nat list)) \<and>
      c < length (replicate (length ns) ([] :: nat list))"
    by (auto simp: set_name_edges feeds_def)
  from fold_add_edge [OF this assms [unfolded cut_edges_def]]
  show "length adj = length ns" and "adj_rel adj = touches {(p, c). feeds ns p c} flagged"
    by (auto simp: set_name_edges adj_rel_def)
  show "b = length (filter (\<lambda>(p, c). (p \<in> set flagged) \<noteq> (c \<in> set flagged)) ?es)"
    using fold_add_edge_count [of flagged ?es "replicate (length ns) []" 0]
      assms [unfolded cut_edges_def] by simp
qed

section \<open>The walk visits the connected component\<close>

lemma push_new_sets:
  "push_new xs v s = (v', s') \<Longrightarrow> set v' = set v \<union> set xs \<and> set s' = set s \<union> (set xs - set v)"
  by (induction xs arbitrary: v s) (auto split: if_splits)

text \<open>
  The visited nodes that are not on the stack have all their neighbours visited; then the walk
  ends with everything reachable from the stack.
\<close>

lemma island_walk_spec:
  assumes "\<forall>x < length adj. \<forall>y \<in> set (adj ! x). y < length adj"
    and "set stack \<subseteq> set visited" and "\<forall>x \<in> set visited. x < length adj"
    and "\<forall>x \<in> set visited - set stack. set (adj ! x) \<subseteq> set visited"
  shows "\<exists>v. island_walk adj visited stack = Inr v \<and>
    set v = set visited \<union> (adj_rel adj)\<^sup>* `` set stack"
  using assms
proof (induction adj visited stack rule: island_walk.induct)
  case (1 adj visited)
  then show ?case by simp
next
  case (2 adj visited cur stack)
  obtain v1 s1 where ps: "push_new (adj ! cur) visited stack = (v1, s1)" by (cases "push_new (adj ! cur) visited stack")
  note sets = push_new_sets [OF ps]
  have cur: "cur < length adj" using "2.prems" by auto
  have "\<exists>v. island_walk adj v1 s1 = Inr v \<and> set v = set v1 \<union> (adj_rel adj)\<^sup>* `` set s1"
  proof (rule "2.IH" [OF cur ps [symmetric]])
    show "\<forall>x \<in> set v1. x < length adj" using "2.prems" sets cur by auto
    show "\<forall>x \<in> set v1 - set s1. set (adj ! x) \<subseteq> set v1" using "2.prems"(4) sets by auto
  qed (use "2.prems" sets in auto)
  then obtain v where v: "island_walk adj v1 s1 = Inr v" "set v = set v1 \<union> (adj_rel adj)\<^sup>* `` set s1" by blast
  have nb: "(cur, y) \<in> adj_rel adj \<longleftrightarrow> y \<in> set (adj ! cur)" for y using cur by (simp add: adj_rel_def)
  have closed: "y \<in> set visited \<union> (adj_rel adj)\<^sup>* `` set s1"
    if "(x, y) \<in> (adj_rel adj)\<^sup>*" "x \<in> set visited - set stack" for x y
    using that
  proof (induction rule: rtrancl_induct)
    case base
    then show ?case by simp
  next
    case (step y z)
    have "y \<in> set visited \<union> (adj_rel adj)\<^sup>* `` set s1" using step by simp
    then show ?case
    proof
      assume y: "y \<in> set visited"
      show ?thesis
      proof (cases "y \<in> set s1")
        case True
        then show ?thesis using step.hyps(2) by blast
      next
        case False
        then have "set (adj ! y) \<subseteq> set v1" using y "2.prems"(4) sets by (cases "y = cur") auto
        then have "z \<in> set visited \<union> set (adj ! cur)" using step.hyps(2) sets by (auto simp: adj_rel_def)
        then show ?thesis using sets by auto
      qed
    next
      assume "y \<in> (adj_rel adj)\<^sup>* `` set s1"
      then show ?thesis using step.hyps(2) by (auto intro: rtrancl_into_rtrancl)
    qed
  qed
  have "set v = set visited \<union> (adj_rel adj)\<^sup>* `` set (cur # stack)"
  proof (intro set_eqI iffI)
    fix z assume "z \<in> set v"
    then consider "z \<in> set visited" | "z \<in> set (adj ! cur)" | x where "x \<in> set s1" "(x, z) \<in> (adj_rel adj)\<^sup>*"
      using v(2) sets by auto
    then show "z \<in> set visited \<union> (adj_rel adj)\<^sup>* `` set (cur # stack)"
    proof cases
      case 2
      then show ?thesis using nb by auto
    next
      case (3 x)
      then have "x \<in> set stack \<or> (cur, x) \<in> adj_rel adj" using sets nb by auto
      then show ?thesis using 3(2) by (auto intro: converse_rtrancl_into_rtrancl)
    qed simp
  next
    fix z assume "z \<in> set visited \<union> (adj_rel adj)\<^sup>* `` set (cur # stack)"
    then consider "z \<in> set visited" | "(cur, z) \<in> (adj_rel adj)\<^sup>*" | x where "x \<in> set stack" "(x, z) \<in> (adj_rel adj)\<^sup>*"
      by auto
    then show "z \<in> set v"
    proof cases
      case 1
      then show ?thesis using v(2) sets by auto
    next
      case 2
      have "cur \<in> set s1 \<or> cur \<in> set visited - set stack" using "2.prems"(2) sets by auto
      then show ?thesis using 2 closed [of cur z] v(2) sets by auto
    next
      case (3 x)
      then show ?thesis using v(2) sets by auto
    qed
  qed
  with v cur ps show ?case by simp
qed


section \<open>The number of islands\<close>

text \<open>The island of a node: the nodes joined to it by values between nodes that stay.\<close>

definition island_of :: "node list \<Rightarrow> nat list \<Rightarrow> nat \<Rightarrow> nat set" where
  "island_of ns flagged i = (touches {(p, c). feeds ns p c} flagged)\<^sup>* `` {i}"

lemma sym_touches: "sym (touches E flagged)"
  by (auto simp: touches_def intro: symI)

lemma island_of_eq: "j \<in> island_of ns flagged i \<Longrightarrow> island_of ns flagged j = island_of ns flagged i"
  using sym_rtrancl [OF sym_touches]
  by (auto simp: island_of_def dest: symD intro: rtrancl_trans)

lemma island_of_self [simp]: "i \<in> island_of ns flagged i"
  by (simp add: island_of_def)

lemma island_of_less: "j \<in> island_of ns flagged i \<Longrightarrow> i < length ns \<Longrightarrow> j < length ns"
  unfolding island_of_def Image_singleton_iff
  by (induction rule: rtrancl_induct) (auto simp: touches_def feeds_def)

lemma island_closed:
  "(x, y) \<in> touches {(p, c). feeds ns p c} flagged \<Longrightarrow> x \<in> island_of ns flagged i \<Longrightarrow>
     y \<in> island_of ns flagged i"
  by (auto simp: island_of_def intro: rtrancl_into_rtrancl)

definition islands_below :: "node list \<Rightarrow> nat list \<Rightarrow> nat \<Rightarrow> nat set set" where
  "islands_below ns flagged k = island_of ns flagged ` ({0..<k} - set flagged)"

lemma islands_below_Suc:
  "islands_below ns flagged (Suc k) =
     (if k \<in> set flagged then islands_below ns flagged k
      else insert (island_of ns flagged k) (islands_below ns flagged k))"
  by (auto simp: islands_below_def atLeast0_lessThan_Suc)

lemma island_visited:
  "k \<in> \<Union> (islands_below ns flagged m) \<longleftrightarrow> island_of ns flagged k \<in> islands_below ns flagged m"
proof
  assume "k \<in> \<Union> (islands_below ns flagged m)"
  then obtain j where "j \<in> {0..<m} - set flagged" "k \<in> island_of ns flagged j"
    by (auto simp: islands_below_def)
  then show "island_of ns flagged k \<in> islands_below ns flagged m"
    using island_of_eq by (fastforce simp: islands_below_def)
next
  assume "island_of ns flagged k \<in> islands_below ns flagged m"
  then show "k \<in> \<Union> (islands_below ns flagged m)" using island_of_self by blast
qed

lemma island_loop:
  assumes cut: "cut_edges ns flagged = (adj, b)" and "k \<le> length ns"
  shows "\<exists>v. rfold (island_step adj flagged) ([], 0) [0..<k] =
      Inr (v, card (islands_below ns flagged k)) \<and> set v = \<Union> (islands_below ns flagged k)"
  using assms(2)
proof (induction k)
  case 0
  then show ?case by (simp add: islands_below_def)
next
  case (Suc k)
  let ?I = "islands_below ns flagged k" and ?R = "touches {(p, c). feeds ns p c} flagged"
  from Suc obtain v where v: "rfold (island_step adj flagged) ([], 0) [0..<k] = Inr (v, card ?I)"
      "set v = \<Union> ?I" by auto
  note adj = cut_edges_spec(1,2) [OF cut]
  show ?case
  proof (cases "k \<in> set flagged \<or> k \<in> set v")
    case True
    then have "k \<in> set flagged \<or> island_of ns flagged k \<in> ?I" using v(2) island_visited by metis
    then have "islands_below ns flagged (Suc k) = ?I" by (auto simp: islands_below_Suc)
    then show ?thesis using v True by (simp add: rfold_append island_step_def)
  next
    case False
    have row: "set (adj ! x) \<subseteq> set v" if "x \<in> set v" for x
      using that v(2) adj island_of_less Suc.prems
      by (fastforce simp: islands_below_def adj_rel_def intro: island_closed)
    have "\<exists>v'. island_walk adj (k # v) [k] = Inr v' \<and> set v' = set (k # v) \<union> (adj_rel adj)\<^sup>* `` set [k]"
    proof (rule island_walk_spec)
      have "y < length ns" if "(x, y) \<in> ?R" for x y using that by (auto simp: touches_def feeds_def)
      then show "\<forall>x < length adj. \<forall>y \<in> set (adj ! x). y < length adj"
        using adj by (auto simp: adj_rel_def)
      show "\<forall>x \<in> set (k # v). x < length adj"
        using v(2) adj(1) Suc.prems island_of_less by (auto simp: islands_below_def)
      show "\<forall>x \<in> set (k # v) - set [k]. set (adj ! x) \<subseteq> set (k # v)" using row by auto
    qed simp
    then obtain v' where v': "island_walk adj (k # v) [k] = Inr v'"
        "set v' = set v \<union> island_of ns flagged k"
      using adj(2) island_of_self [of k ns flagged] by (auto simp: island_of_def insert_absorb simp del: island_walk.simps island_of_self)
    have "island_of ns flagged k \<notin> ?I" using False v(2) island_visited by blast
    moreover have "finite ?I" by (simp add: islands_below_def)
    ultimately show ?thesis using v v' False
      by (simp add: rfold_append island_step_def islands_below_Suc Un_commute)
  qed
qed

lemma fragmentation_report:
  assumes "set flagged \<subseteq> {0..<length (gnode g)}"
  shows "\<exists>r. estimate_fragmentation g flagged = Inr r \<and>
    island_count r = card (island_of (gnode g) flagged ` ({0..<length (gnode g)} - set flagged)) \<and>
    (boundary_edge_count r = 0 \<longleftrightarrow>
      (\<forall>p c. feeds (gnode g) p c \<longrightarrow> (p \<in> set flagged \<longleftrightarrow> c \<in> set flagged))) \<and>
    length (flagged_node_names r) = card (set flagged)"
proof -
  obtain adj b where cut: "cut_edges (gnode g) flagged = (adj, b)" by (cases "cut_edges (gnode g) flagged")
  obtain v where v: "rfold (island_step adj flagged) ([], 0) [0..<length (gnode g)] =
      Inr (v, card (islands_below (gnode g) flagged (length (gnode g))))"
    using island_loop [OF cut order_refl] by blast
  have "is_ok (rmap (flagged_label (gnode g)) (sort (remdups flagged)))"
    using assms by (auto simp: rmap_ok_iff flagged_label_def)
  then obtain names where names: "rmap (flagged_label (gnode g)) (sort (remdups flagged)) = Inr names"
    by (auto simp: is_ok_iff)
  have "length names = card (set flagged)"
    using rmap_length [OF names] by (simp add: length_remdups_card_conv)
  moreover have "b = 0 \<longleftrightarrow> (\<forall>p c. feeds (gnode g) p c \<longrightarrow> (p \<in> set flagged \<longleftrightarrow> c \<in> set flagged))"
    unfolding cut_edges_spec(3) [OF cut] length_0_conv filter_empty_conv set_name_edges by auto
  ultimately show ?thesis using cut v names
    by (simp add: estimate_fragmentation_def islands_below_def Let_def)
qed

text \<open>
  C8. Island count. For flagged node indices of the graph, \<^verbatim>\<open>estimate_fragmentation\<close> returns; its
  \<^verbatim>\<open>island_count\<close> is the number of connected components of the nodes that are not flagged (two such
  nodes being joined when one reads a value the other writes), its \<^verbatim>\<open>boundary_edge_count\<close> is zero
  exactly when no flagged node exchanges a value with an unflagged one, and there is one name
  per flagged node.
\<close>

theorem estimate_fragmentation_counts_islands:
  assumes "set flagged \<subseteq> {0..<length (gnode g)}"
  shows "\<exists>r. estimate_fragmentation g flagged = Inr r \<and>
    island_count r = card (island_of (gnode g) flagged ` ({0..<length (gnode g)} - set flagged)) \<and>
    (boundary_edge_count r = 0 \<longleftrightarrow>
      (\<forall>p c. feeds (gnode g) p c \<longrightarrow> (p \<in> set flagged \<longleftrightarrow> c \<in> set flagged))) \<and>
    length (flagged_node_names r) = card (set flagged)"
  using assms by (rule fragmentation_report)

text \<open>Three nodes in a row with the middle one flagged: two islands.\<close>

definition three_in_a_row :: graph where
  "three_in_a_row = Graph [simple_node ''Relu'' [''x''] [''a''], simple_node ''Resize'' [''a''] [''b''],
     simple_node ''Relu'' [''b''] [''c'']] [] [] [] []"

lemma three_in_a_row_eval:
  "estimate_fragmentation three_in_a_row [1] =
     Inr \<lparr>island_count = 2, boundary_edge_count = 2, flagged_node_names = [''b'']\<rparr>"
  by code_simp

theorem estimate_fragmentation_counts_islands_witness:
  "set [1] \<subseteq> {0..<length (gnode three_in_a_row)} \<and>
   card (island_of (gnode three_in_a_row) [1] ` ({0..<length (gnode three_in_a_row)} - set [1])) = 2"
proof -
  have "set [1] \<subseteq> {0..<length (gnode three_in_a_row)}" by (simp add: three_in_a_row_def)
  then show ?thesis
    using estimate_fragmentation_counts_islands [of "[1]" three_in_a_row] three_in_a_row_eval by auto
qed

end
