(* ===== verification/Device_Targets.thy ===== *)
theory Device_Targets
  imports Ep_Fragmentation
begin

text \<open>
  What the browser back ends can run: the operator tables of \<^verbatim>\<open>onnxsim/rustnn_runtime.py\<close> and
  \<^verbatim>\<open>onnxsim/model_info.py\<close>, and the checks of \<^verbatim>\<open>onnxsim/webnn_target.py\<close> and
  \<^verbatim>\<open>onnxsim/webgpu_target.py\<close> with the island estimates built on them. A warning text is
  kept as the values interpolated into it. The test \<^verbatim>\<open>(to_array(scales) < 1.0).any()\<close> on the
  contents of a tensor is a parameter, \<open>downsamples\<close>.
\<close>

section \<open>Operator tables\<close>

definition unary_ops :: "(string \<times> string) list" where
  "unary_ops = [
    (''Abs'', ''abs''), (''Ceil'', ''ceil''), (''Floor'', ''floor''), (''Neg'', ''neg''),
    (''Sign'', ''sign''), (''Exp'', ''exp''), (''Log'', ''log''), (''Sqrt'', ''sqrt''),
    (''Reciprocal'', ''reciprocal''), (''Sin'', ''sin''), (''Cos'', ''cos''),
    (''Tan'', ''tan''), (''Erf'', ''erf''), (''Identity'', ''identity''), (''Relu'', ''relu''),
    (''Sigmoid'', ''sigmoid''), (''Tanh'', ''tanh''), (''Softplus'', ''softplus''),
    (''Softsign'', ''softsign''), (''HardSwish'', ''hard_swish''), (''Not'', ''logical_not''),
    (''Round'', ''round_even'')]"

definition binary_ops :: "(string \<times> string) list" where
  "binary_ops = [
    (''Add'', ''add''), (''Sub'', ''sub''), (''Mul'', ''mul''), (''Div'', ''div''),
    (''Pow'', ''pow''), (''Equal'', ''equal''), (''Greater'', ''greater''),
    (''GreaterOrEqual'', ''greater_or_equal''), (''Less'', ''lesser''),
    (''LessOrEqual'', ''lesser_or_equal''), (''And'', ''logical_and''),
    (''Or'', ''logical_or''), (''Xor'', ''logical_xor''), (''MatMul'', ''matmul'')]"

definition variadic_ops :: "(string \<times> string) list" where
  "variadic_ops = [
    (''Max'', ''max''), (''Min'', ''min''), (''Sum'', ''add'')]"

definition reduce_ops :: "(string \<times> string) list" where
  "reduce_ops = [
    (''ReduceSum'', ''reduce_sum''), (''ReduceMean'', ''reduce_mean''),
    (''ReduceMax'', ''reduce_max''), (''ReduceMin'', ''reduce_min''),
    (''ReduceProd'', ''reduce_product''), (''ReduceL1'', ''reduce_l1''),
    (''ReduceL2'', ''reduce_l2''), (''ReduceLogSum'', ''reduce_log_sum''),
    (''ReduceLogSumExp'', ''reduce_log_sum_exp''), (''ReduceSumSquare'', ''reduce_sum_square'')]"

definition other_ops :: "string list" where
  "other_ops = [
    ''Constant'', ''LeakyRelu'', ''Elu'', ''HardSigmoid'', ''Clip'', ''Gelu'', ''Softmax'',
    ''Cast'', ''Where'', ''Gemm'', ''Conv'', ''ConvTranspose'', ''MaxPool'', ''AveragePool'',
    ''GlobalAveragePool'', ''GlobalMaxPool'', ''BatchNormalization'',
    ''InstanceNormalization'', ''LayerNormalization'', ''Reshape'', ''Flatten'', ''Transpose'',
    ''Concat'', ''Squeeze'', ''Unsqueeze'', ''Expand'', ''Slice'', ''Split'', ''Gather'',
    ''Pad'', ''ArgMax'', ''ArgMin'', ''PRelu'']"

definition webnn_supported_ops :: "string list" where
  "webnn_supported_ops =
     map fst unary_ops @ map fst binary_ops @ map fst variadic_ops @ map fst reduce_ops @ other_ops"

definition kernel_elementwise_ops :: "string list" where
  "kernel_elementwise_ops = [
    ''Abs'', ''Add'', ''And'', ''Cast'', ''Ceil'', ''Clip'', ''Cos'', ''Div'', ''Elu'',
    ''Equal'', ''Erf'', ''Exp'', ''Floor'', ''Gelu'', ''Greater'', ''GreaterOrEqual'',
    ''HardSigmoid'', ''HardSwish'', ''LeakyRelu'', ''Less'', ''LessOrEqual'', ''Log'', ''Max'',
    ''Min'', ''Mul'', ''Neg'', ''Not'', ''Or'', ''Pow'', ''Reciprocal'', ''Relu'', ''Round'',
    ''Sigmoid'', ''Sin'', ''Sqrt'', ''Sub'', ''Tanh'', ''Where'']"

definition is_kernel_elementwise :: "node \<Rightarrow> bool" where
  "is_kernel_elementwise n \<longleftrightarrow> is_std_domain n \<and> op_type n \<in> set kernel_elementwise_ops"

text \<open>The count of every operator without a lowering, by operator type.\<close>

definition unsupported_key :: "node \<Rightarrow> string" where
  "unsupported_key n = (if is_std_domain n then op_type n else ndomain n @ ''::'' @ op_type n)"

definition find_unsupported_webnn_ops :: "model \<Rightarrow> (string, nat) dict" where
  "find_unsupported_webnn_ops m =
     fold (\<lambda>n counts.
        if is_std_domain n \<and> op_type n \<in> set webnn_supported_ops then counts
        else dict_set (unsupported_key n) (get_default counts (unsupported_key n) 0 + 1) counts)
       (gnode (mgraph m)) []"

section \<open>Warnings\<close>

datatype target_msg =
    Int64Boundary string string
  | NonConstantShape string string string
  | AttentionInputs string "(string \<times> string) list"
  | Conv3d string string
  | ResizeAlignCorners string tensor_proto

definition target_label :: "node \<Rightarrow> string" where
  "target_label n = or_name (nname n) (case noutput n of [] \<Rightarrow> ''<unnamed>'' | s # _ \<Rightarrow> s)"

text \<open>The loop \<^verbatim>\<open>for i, node in enumerate(graph.node)\<close> that appends a message or continues.\<close>

definition flag_nodes :: "(node \<Rightarrow> target_msg option) \<Rightarrow> graph \<Rightarrow> (nat \<times> target_msg) list" where
  "flag_nodes check g =
     List.map_filter (\<lambda>(i, n). map_option (Pair i) (check n)) (enumerate_py (gnode g))"

definition initializer_map :: "graph \<Rightarrow> (string, tensor_proto) dict" where
  "initializer_map g = fold (\<lambda>t. dict_set (tname t) t) (ginit g) []"

section \<open>WebNN\<close>

definition constant_producing_names :: "graph \<Rightarrow> string list" where
  "constant_producing_names g =
     map tname (ginit g) @
     map (\<lambda>n. hd (noutput n)) (filter (\<lambda>n. op_type n = ''Constant'' \<and> noutput n \<noteq> []) (gnode g))"

definition int64_boundary_messages :: "graph \<Rightarrow> target_msg list" where
  "int64_boundary_messages g =
     concat (map (\<lambda>(kind, values).
         map (\<lambda>v. Int64Boundary kind (vname v)) (filter (\<lambda>v. elem_type_of v = INT64) values))
       [(''input'', ginput g), (''output'', goutput g)])"

definition check_reshape_expand :: "string list \<Rightarrow> node \<Rightarrow> target_msg option" where
  "check_reshape_expand consts n =
     (if op_type n \<notin> {''Reshape'', ''Expand''} \<or> length (ninput n) < 2 then None
      else let s = ninput n ! 1 in
        if s \<noteq> '''' \<and> s \<notin> set consts then Some (NonConstantShape (op_type n) (target_label n) s)
        else None)"

definition flagged_reshape_expand_nodes :: "graph \<Rightarrow> (nat \<times> target_msg) list" where
  "flagged_reshape_expand_nodes g = flag_nodes (check_reshape_expand (constant_producing_names g)) g"

definition check_webnn_support :: "model \<Rightarrow> target_msg list" where
  "check_webnn_support m =
     int64_boundary_messages (mgraph m) @ map snd (flagged_reshape_expand_nodes (mgraph m))"

definition estimate_webnn_islands :: "model \<Rightarrow> island_report res" where
  "estimate_webnn_islands m =
     estimate_fragmentation (mgraph m) (map fst (flagged_reshape_expand_nodes (mgraph m)))"

section \<open>WebGPU\<close>

definition mask_index_input_position :: nat where "mask_index_input_position = 3"
definition past_input_position :: nat where "past_input_position = 4"

definition wired :: "node \<Rightarrow> nat \<Rightarrow> bool" where
  "wired n k \<longleftrightarrow> length (ninput n) > k \<and> ninput n ! k \<noteq> ''''"

definition check_attention :: "node \<Rightarrow> target_msg option" where
  "check_attention n =
     (if ndomain n \<noteq> ''com.microsoft'' \<or> op_type n \<noteq> ''Attention'' then None
      else let unsupported =
             (if wired n mask_index_input_position
              then [(''mask_index'', ninput n ! mask_index_input_position)] else []) @
             (if wired n past_input_position
              then [(''past'', ninput n ! past_input_position)] else [])
        in if unsupported = [] then None else Some (AttentionInputs (target_label n) unsupported))"

definition flagged_attention_nodes :: "graph \<Rightarrow> (nat \<times> target_msg) list" where
  "flagged_attention_nodes g = flag_nodes check_attention g"

definition conv_spatial_rank :: "node \<Rightarrow> (string, tensor_proto) dict \<Rightarrow> nat option" where
  "conv_spatial_rank n inits =
     (case List.find (\<lambda>a. attr_name a = ''kernel_shape'') (nattr n) of
        Some a \<Rightarrow> Some (length (attr_ints a))
      | None \<Rightarrow>
          (if length (ninput n) > 1 then
             (case dict_get inits (ninput n ! 1) of
                Some w \<Rightarrow> Some (nat (max (int (length (tdims w)) - 2) 0))
              | None \<Rightarrow> None)
           else None))"

definition check_conv3d :: "(string, tensor_proto) dict \<Rightarrow> node \<Rightarrow> target_msg option" where
  "check_conv3d inits n =
     (if \<not> is_std_domain n \<or> op_type n \<notin> {''Conv'', ''ConvTranspose''} then None
      else if conv_spatial_rank n inits \<noteq> Some 3 then None
      else Some (Conv3d (op_type n) (target_label n)))"

definition flagged_conv3d_nodes :: "graph \<Rightarrow> (nat \<times> target_msg) list" where
  "flagged_conv3d_nodes g = flag_nodes (check_conv3d (initializer_map g)) g"

definition resize_coordinate_transformation_mode :: "node \<Rightarrow> string" where
  "resize_coordinate_transformation_mode n =
     (case List.find (\<lambda>a. attr_name a = ''coordinate_transformation_mode'') (nattr n) of
        Some a \<Rightarrow> attr_s a
      | None \<Rightarrow> ''half_pixel'')"

definition check_resize :: "(tensor_proto \<Rightarrow> bool) \<Rightarrow> (string, tensor_proto) dict \<Rightarrow> node \<Rightarrow> target_msg option" where
  "check_resize downsamples inits n =
     (if \<not> is_std_domain n \<or> op_type n \<noteq> ''Resize'' then None
      else if resize_coordinate_transformation_mode n \<noteq> ''align_corners'' then None
      else let scales = (if length (ninput n) > 2 then ninput n ! 2 else '''') in
        if scales = '''' then None
        else case dict_get inits scales of None \<Rightarrow> None
          | Some t \<Rightarrow> if downsamples t then Some (ResizeAlignCorners (target_label n) t) else None)"

definition flagged_resize_align_corners_downsample_nodes ::
    "(tensor_proto \<Rightarrow> bool) \<Rightarrow> graph \<Rightarrow> (nat \<times> target_msg) list" where
  "flagged_resize_align_corners_downsample_nodes downsamples g =
     flag_nodes (check_resize downsamples (initializer_map g)) g"

definition check_webgpu_attention_support :: "model \<Rightarrow> target_msg list" where
  "check_webgpu_attention_support m = map snd (flagged_attention_nodes (mgraph m))"

definition check_webgpu_conv3d_support :: "model \<Rightarrow> target_msg list" where
  "check_webgpu_conv3d_support m = map snd (flagged_conv3d_nodes (mgraph m))"

definition check_webgpu_resize_support :: "(tensor_proto \<Rightarrow> bool) \<Rightarrow> model \<Rightarrow> target_msg list" where
  "check_webgpu_resize_support downsamples m =
     map snd (flagged_resize_align_corners_downsample_nodes downsamples (mgraph m))"

definition check_webgpu_support :: "(tensor_proto \<Rightarrow> bool) \<Rightarrow> model \<Rightarrow> target_msg list" where
  "check_webgpu_support downsamples m =
     (let g = mgraph m in
        map snd (flagged_attention_nodes g) @ map snd (flagged_conv3d_nodes g) @
        map snd (flagged_resize_align_corners_downsample_nodes downsamples g))"

definition estimate_webgpu_islands :: "(tensor_proto \<Rightarrow> bool) \<Rightarrow> model \<Rightarrow> island_report res" where
  "estimate_webgpu_islands downsamples m =
     (let g = mgraph m in
        estimate_fragmentation g (map fst (flagged_attention_nodes g @ flagged_conv3d_nodes g @
          flagged_resize_align_corners_downsample_nodes downsamples g)))"

section \<open>Properties\<close>

lemma flag_nodes_mem:
  "(i, msg) \<in> set (flag_nodes check g) \<longleftrightarrow> i < length (gnode g) \<and> check (gnode g ! i) = Some msg"
  by (auto simp: flag_nodes_def map_filter_def image_iff in_set_enumerate_py split_def
      intro!: bexI [of _ "(i, gnode g ! i)"])

lemma flag_nodes_fst:
  "set (map fst (flag_nodes check g)) = {i. i < length (gnode g) \<and> check (gnode g ! i) \<noteq> None}"
proof (intro set_eqI iffI)
  fix i
  assume "i \<in> set (map fst (flag_nodes check g))"
  then obtain msg where "(i, msg) \<in> set (flag_nodes check g)" by auto
  then show "i \<in> {i. i < length (gnode g) \<and> check (gnode g ! i) \<noteq> None}" by (simp add: flag_nodes_mem)
next
  fix i
  assume "i \<in> {i. i < length (gnode g) \<and> check (gnode g ! i) \<noteq> None}"
  then obtain msg where "(i, msg) \<in> set (flag_nodes check g)" by (auto simp: flag_nodes_mem)
  then show "i \<in> set (map fst (flag_nodes check g))" by (force simp del: One_nat_def)
qed

text \<open>The fold of \<open>find_unsupported_webnn_ops\<close> counts the nodes of each key.\<close>

definition webnn_lowered :: "node \<Rightarrow> bool" where
  "webnn_lowered n \<longleftrightarrow> is_std_domain n \<and> op_type n \<in> set webnn_supported_ops"

lemma find_unsupported_fold:
  "get_default (fold (\<lambda>n counts. if webnn_lowered n then counts
        else dict_set (unsupported_key n) (get_default counts (unsupported_key n) 0 + 1) counts) ns d) k 0 =
     get_default d k 0 + length (filter (\<lambda>n. \<not> webnn_lowered n \<and> unsupported_key n = k) ns)"
  by (induction ns arbitrary: d) (auto simp: get_default_def dict_simps split: option.splits)

lemma find_unsupported_keys:
  "set (dict_keys (fold (\<lambda>n counts. if webnn_lowered n then counts
        else dict_set (unsupported_key n) (get_default counts (unsupported_key n) (0::nat) + 1) counts) ns d)) =
     set (dict_keys d) \<union> unsupported_key ` {n \<in> set ns. \<not> webnn_lowered n}"
  by (induction ns arbitrary: d) (auto simp: keys_dict_set [simplified set_map] update_keys)

text \<open>
  Unsupported operators. \<^verbatim>\<open>find_unsupported_webnn_ops\<close> has a key exactly for the operators the
  table does not lower, with the number of nodes that use it; so it is empty exactly when
  every node has a lowering.
\<close>

theorem find_unsupported_webnn_ops_counts:
  "get_default (find_unsupported_webnn_ops m) k 0 =
      length (filter (\<lambda>n. \<not> webnn_lowered n \<and> unsupported_key n = k) (gnode (mgraph m))) \<and>
   set (dict_keys (find_unsupported_webnn_ops m)) =
      unsupported_key ` {n \<in> set (gnode (mgraph m)). \<not> webnn_lowered n}"
  using find_unsupported_fold [of "gnode (mgraph m)" "[]" k] find_unsupported_keys [of "gnode (mgraph m)" "[]"]
  by (simp add: find_unsupported_webnn_ops_def webnn_lowered_def)

text \<open>
  The three WebGPU checks and the island estimate agree: no message is produced exactly when
  the estimate flags no node, and then the estimate sees no boundary edge and every connected
  component of the whole graph as one island.
\<close>

theorem webgpu_checks_agree_with_islands:
  "\<exists>r. estimate_webgpu_islands downsamples m = Inr r \<and>
     (check_webgpu_support downsamples m = [] \<longleftrightarrow> flagged_node_names r = []) \<and>
     (flagged_node_names r = [] \<longrightarrow> boundary_edge_count r = 0 \<and>
        island_count r = card (island_of (gnode (mgraph m)) [] ` {0..<length (gnode (mgraph m))}))"
proof -
  let ?g = "mgraph m"
  let ?f = "map fst (flagged_attention_nodes ?g @ flagged_conv3d_nodes ?g @
          flagged_resize_align_corners_downsample_nodes downsamples ?g)"
  have "set ?f \<subseteq> {0..<length (gnode ?g)}"
    unfolding map_append set_append flagged_attention_nodes_def flagged_conv3d_nodes_def
      flagged_resize_align_corners_downsample_nodes_def flag_nodes_fst by auto
  then obtain r where r: "estimate_fragmentation ?g ?f = Inr r"
      "island_count r = card (island_of (gnode ?g) ?f ` ({0..<length (gnode ?g)} - set ?f))"
      "boundary_edge_count r = 0 \<longleftrightarrow> (\<forall>p c. feeds (gnode ?g) p c \<longrightarrow> (p \<in> set ?f \<longleftrightarrow> c \<in> set ?f))"
      "length (flagged_node_names r) = card (set ?f)"
    by (elim fragmentation_report [THEN exE] conjE) metis
  have "flagged_node_names r = [] \<longleftrightarrow> ?f = []" using r(4) by (metis card_0_eq finite_set length_0_conv set_empty)
  moreover have "check_webgpu_support downsamples m = [] \<longleftrightarrow> ?f = []"
    by (simp add: check_webgpu_support_def Let_def)
  moreover have "estimate_webgpu_islands downsamples m = Inr r"
    using r(1) by (simp add: estimate_webgpu_islands_def Let_def)
  ultimately show ?thesis using r(2,3) by auto
qed


text \<open>The Resize of the example has no \<^verbatim>\<open>align_corners\<close>, so nothing is flagged.\<close>

definition unflagged_model :: model where
  "unflagged_model = \<lparr>ir_version = 8, opset_import = [], mgraph = three_in_a_row\<rparr>"

lemma unflagged_model_eval: "check_webgpu_support (\<lambda>_. True) unflagged_model = []"
  by code_simp

theorem webgpu_checks_agree_with_islands_witness:
  "\<exists>r. estimate_webgpu_islands (\<lambda>_. True) unflagged_model = Inr r \<and> boundary_edge_count r = 0"
  using webgpu_checks_agree_with_islands [of "\<lambda>_. True" unflagged_model] unflagged_model_eval by auto

end
