(* ===== verification/Union_Find.thy ===== *)
theory Union_Find
  imports Prelude
begin

text \<open>
  Disjoint sets as both \<^verbatim>\<open>onnxsim/graph_partition.py\<close> and \<^verbatim>\<open>onnxsim/versioning.py\<close> implement
  them: a list of parents, a \<^verbatim>\<open>find\<close> loop that halves the path it walks, a link written as
  \<^verbatim>\<open>parent[find(a)] = find(b)\<close>, and the grouping of indices under their roots. The locale
  \<open>merge_find\<close> states what the clients rely on; its interpretation proves it for the code.
\<close>

section \<open>The operations\<close>

text \<open>
  \<^verbatim>\<open>while parent[x] != x: parent[x] = parent[parent[x]]; x = parent[x]\<close>. The result is the
  new list of parents and the root; \<open>None\<close> means that the loop does not return (it runs
  forever or leaves the list).
\<close>

partial_function (option) uf_find :: "nat list \<Rightarrow> nat \<Rightarrow> (nat list \<times> nat) option" where
  "uf_find p x =
     (if x < length p then
        (if p ! x = x then Some (p, x)
         else if p ! x < length p then
           (let p' = p[x := p ! (p ! x)] in uf_find p' (p' ! x))
         else None)
      else None)"

declare uf_find.simps [code]

text \<open>\<^verbatim>\<open>parent[find(a)] = find(b)\<close>: Python evaluates the right-hand side first.\<close>

definition uf_union :: "nat list \<Rightarrow> nat \<Rightarrow> nat \<Rightarrow> nat list option" where
  "uf_union p a b =
     (case uf_find p b of None \<Rightarrow> None
      | Some (p1, rb) \<Rightarrow>
          (case uf_find p1 a of None \<Rightarrow> None
           | Some (p2, ra) \<Rightarrow> Some (p2[ra := rb])))"

fun uf_unions :: "nat list \<Rightarrow> (nat \<times> nat) list \<Rightarrow> nat list option" where
  "uf_unions p [] = Some p"
| "uf_unions p ((a, b) # es) = (case uf_union p a b of None \<Rightarrow> None | Some p' \<Rightarrow> uf_unions p' es)"

text \<open>\<^verbatim>\<open>for i in xs: groups.setdefault(find(i), []).append(i)\<close>\<close>

fun uf_groups :: "nat list \<Rightarrow> nat list \<Rightarrow> (nat, nat list) dict \<Rightarrow> (nat, nat list) dict option" where
  "uf_groups p [] d = Some d"
| "uf_groups p (i # is) d =
     (case uf_find p i of None \<Rightarrow> None
      | Some (p', r) \<Rightarrow> uf_groups p' is (dict_append r i d))"

section \<open>Paths to the root\<close>

text \<open>\<open>uf_at p x n r\<close>: following parents from \<open>x\<close> reaches the root \<open>r\<close> after \<open>n\<close> steps.\<close>

inductive uf_at :: "nat list \<Rightarrow> nat \<Rightarrow> nat \<Rightarrow> nat \<Rightarrow> bool" for p where
  root: "x < length p \<Longrightarrow> p ! x = x \<Longrightarrow> uf_at p x 0 x"
| step: "x < length p \<Longrightarrow> p ! x \<noteq> x \<Longrightarrow> uf_at p (p ! x) n r \<Longrightarrow> uf_at p x (Suc n) r"

inductive_cases uf_at_0E: "uf_at p x 0 r"
inductive_cases uf_at_SucE: "uf_at p x (Suc n) r"

definition uf_ok :: "nat list \<Rightarrow> bool" where
  "uf_ok p \<longleftrightarrow> (\<forall>x < length p. \<exists>n r. uf_at p x n r)"

definition uf_rep :: "nat list \<Rightarrow> nat \<Rightarrow> nat" where
  "uf_rep p x = (THE r. \<exists>n. uf_at p x n r)"

lemma uf_at_det: "uf_at p x n r \<Longrightarrow> uf_at p x m s \<Longrightarrow> n = m \<and> r = s"
proof (induction arbitrary: m s rule: uf_at.induct)
  case (root x)
  from root.prems root.hyps show ?case by (cases rule: uf_at.cases) auto
next
  case (step x n r)
  from step.prems step.hyps obtain m' where "m = Suc m'" "uf_at p (p ! x) m' s"
    by (cases rule: uf_at.cases) auto
  with step.IH show ?case by auto
qed

lemma uf_rep_eqI: "uf_at p x n r \<Longrightarrow> uf_rep p x = r"
  unfolding uf_rep_def by (rule the_equality) (auto dest: uf_at_det)

lemma uf_at_rep: "uf_ok p \<Longrightarrow> x < length p \<Longrightarrow> \<exists>n. uf_at p x n (uf_rep p x)"
  by (metis uf_ok_def uf_rep_eqI)

lemma uf_at_bounds: "uf_at p x n r \<Longrightarrow> x < length p \<and> r < length p \<and> p ! r = r"
  by (induction rule: uf_at.induct) auto

lemma uf_rep_root: "uf_ok p \<Longrightarrow> x < length p \<Longrightarrow> uf_rep p x < length p \<and> p ! uf_rep p x = uf_rep p x"
  by (metis uf_at_rep uf_at_bounds)

lemma uf_rep_rep [simp]: "uf_ok p \<Longrightarrow> x < length p \<Longrightarrow> uf_rep p (uf_rep p x) = uf_rep p x"
  by (metis uf_rep_root uf_at.root uf_rep_eqI)

lemma uf_okI:
  assumes "\<And>x. x < length p \<Longrightarrow> \<exists>n. uf_at p x n (f x)"
  shows "uf_ok p" and "\<And>x. x < length p \<Longrightarrow> uf_rep p x = f x"
  using assms by (auto simp: uf_ok_def intro: uf_rep_eqI) blast+

subsection \<open>Rewriting one parent\<close>

text \<open>An update at \<open>x\<close> does not touch the paths of nodes that are closer to the root than \<open>x\<close>.\<close>

lemma uf_at_update_below:
  "uf_at p y m r \<Longrightarrow> uf_at p x n r' \<Longrightarrow> m < n \<Longrightarrow> uf_at (p[x := v]) y m r"
proof (induction arbitrary: rule: uf_at.induct)
  case (root y)
  then have "y \<noteq> x" by (metis uf_at.root uf_at_det nat_less_le)
  then show ?case using root by (intro uf_at.root) auto
next
  case (step y m r)
  then have "y \<noteq> x" by (metis uf_at.step uf_at_det nat_less_le)
  then show ?case using step by (intro uf_at.step) auto
qed

text \<open>Halving a path keeps every root.\<close>

lemma uf_at_halve:
  assumes x: "uf_at p x n r" "p ! x \<noteq> x"
  shows "uf_at p y m s \<Longrightarrow> \<exists>j. uf_at (p[x := p ! (p ! x)]) y j s"
proof (induction rule: uf_at.induct)
  case (root y)
  then show ?case using x(2) by (metis uf_at.root length_list_update nth_list_update_neq)
next
  case (step y m s)
  show ?case
  proof (cases "y = x")
    case True
    have y: "uf_at p y (Suc m) s" using step.hyps by (rule uf_at.step)
    obtain k where k: "uf_at p (p ! (p ! x)) k s" "k < Suc m"
      using step.hyps(3) True by (cases rule: uf_at.cases) (auto intro: uf_at.intros)
    then have z: "uf_at (p[x := p ! (p ! x)]) (p ! (p ! x)) k s"
      using y True by (auto intro: uf_at_update_below)
    moreover have "p ! (p ! x) \<noteq> x" using k y True by (metis uf_at_det nat_less_le)
    ultimately show ?thesis using True step.hyps(1)
      by (intro exI [of _ "Suc k"] uf_at.step) auto
  next
    case False
    with step obtain j where "uf_at (p[x := p ! (p ! x)]) (p ! y) j s" by blast
    with False step.hyps show ?thesis
      by (intro exI [of _ "Suc j"] uf_at.step) auto
  qed
qed

text \<open>Linking the root \<open>a\<close> below the root \<open>b\<close> moves exactly the set of \<open>a\<close>.\<close>

lemma uf_at_link:
  assumes "a < length p" "p ! a = a" "b < length p" "p ! b = b" "a \<noteq> b"
  shows "uf_at p y m s \<Longrightarrow> \<exists>j. uf_at (p[a := b]) y j (if s = a then b else s)"
proof (induction rule: uf_at.induct)
  case (root y)
  have b: "uf_at (p[a := b]) b 0 b" using assms by (intro uf_at.root) auto
  show ?case
  proof (cases "y = a")
    case True
    with assms b show ?thesis by (intro exI [of _ "Suc 0"]) (auto intro!: uf_at.step)
  next
    case False
    with root show ?thesis by (intro exI [of _ 0]) (auto intro!: uf_at.root)
  qed
next
  case (step y m s)
  then have "y \<noteq> a" using assms by auto
  with step show ?case by (metis uf_at.step length_list_update nth_list_update_neq)
qed

section \<open>Correctness of the operations\<close>

text \<open>\<open>find\<close> returns, gives the root, and changes no root.\<close>

lemma uf_find_at:
  "uf_at p x n r \<Longrightarrow> uf_ok p \<Longrightarrow>
     \<exists>p'. uf_find p x = Some (p', r) \<and> uf_ok p' \<and> length p' = length p \<and>
          (\<forall>y < length p. uf_rep p' y = uf_rep p y)"
proof (induction n arbitrary: p x rule: less_induct)
  case (less n)
  show ?case
  proof (cases "p ! x = x")
    case True
    with less.prems have "x < length p" "r = x" by (auto elim: uf_at.cases)
    with True less.prems show ?thesis by (simp add: uf_find.simps)
  next
    case False
    let ?p = "p[x := p ! (p ! x)]"
    from less.prems(1) False obtain n' where n: "n = Suc n'" "x < length p" "uf_at p (p ! x) n' r"
      by (cases rule: uf_at.cases) auto
    then have px: "p ! x < length p" by (auto dest: uf_at_bounds)
    have keep: "\<exists>j. uf_at ?p y j (uf_rep p y)" if "y < length p" for y
      using uf_at_halve [OF less.prems(1) False] uf_at_rep [OF less.prems(2) that] by blast
    then have ok: "uf_ok ?p" and rep: "\<And>y. y < length p \<Longrightarrow> uf_rep ?p y = uf_rep p y"
      using uf_okI [of ?p "uf_rep p"] by auto
    obtain k where k: "uf_at p (p ! (p ! x)) k r" "k < n"
      using n(3) n(1) by (cases rule: uf_at.cases) (auto intro: uf_at.intros)
    have "uf_at ?p (p ! (p ! x)) k r" using k(1) less.prems(1) k(2) by (rule uf_at_update_below)
    then obtain p' where "uf_find ?p (p ! (p ! x)) = Some (p', r)" "uf_ok p'" "length p' = length ?p"
        "\<forall>y < length ?p. uf_rep p' y = uf_rep ?p y"
      using less.IH [OF k(2) _ ok] by blast
    with False n(2) px rep show ?thesis by (simp add: uf_find.simps [of p x])
  qed
qed

lemma uf_find_spec:
  assumes "uf_ok p" "x < length p"
  shows "\<exists>p'. uf_find p x = Some (p', uf_rep p x) \<and> uf_ok p' \<and> length p' = length p \<and>
    (\<forall>y < length p. uf_rep p' y = uf_rep p y)"
  using uf_at_rep [OF assms] uf_find_at assms by blast

lemma uf_union_spec:
  assumes "uf_ok p" "a < length p" "b < length p"
  shows "\<exists>p'. uf_union p a b = Some p' \<and> uf_ok p' \<and> length p' = length p \<and>
    (\<forall>y < length p. uf_rep p' y = (if uf_rep p y = uf_rep p a then uf_rep p b else uf_rep p y))"
proof -
  obtain p1 where p1: "uf_find p b = Some (p1, uf_rep p b)" "uf_ok p1" "length p1 = length p"
      "\<forall>y < length p. uf_rep p1 y = uf_rep p y"
    using uf_find_spec [OF assms(1,3)] by blast
  obtain p2 where p2: "uf_find p1 a = Some (p2, uf_rep p a)" "uf_ok p2" "length p2 = length p"
      "\<forall>y < length p. uf_rep p2 y = uf_rep p y"
    using uf_find_spec [of p1 a] p1 assms by auto
  let ?a = "uf_rep p a" and ?b = "uf_rep p b"
  have roots: "?a < length p2" "p2 ! ?a = ?a" "?b < length p2" "p2 ! ?b = ?b"
    using uf_rep_root [of p2 a] uf_rep_root [of p2 b] p2 assms by auto
  have "\<exists>j. uf_at (p2[?a := ?b]) y j (if uf_rep p y = ?a then ?b else uf_rep p y)"
    if "y < length p" for y
  proof (cases "?a = ?b")
    case True
    with roots have "p2[?a := ?b] = p2" by (metis list_update_id)
    with True that p2 show ?thesis using uf_at_rep [of p2 y] by auto
  next
    case False
    with that p2 show ?thesis
      using uf_at_link [OF roots False] uf_at_rep [of p2 y] by (metis (mono_tags, lifting))
  qed
  then have "uf_ok (p2[?a := ?b])"
    and "\<And>y. y < length p \<Longrightarrow> uf_rep (p2[?a := ?b]) y = (if uf_rep p y = ?a then ?b else uf_rep p y)"
    using uf_okI [of "p2[?a := ?b]" "\<lambda>y. if uf_rep p y = ?a then ?b else uf_rep p y"] p2(3) by auto
  with p1 p2 show ?thesis by (simp add: uf_union_def)
qed

lemma uf_init:
  "uf_ok [0..<n]" "x < n \<Longrightarrow> uf_rep [0..<n] x = x"
proof -
  have "\<exists>k. uf_at [0..<n] x k x" if "x < length [0..<n]" for x
    using that by (intro exI [of _ 0] uf_at.root) auto
  then show "uf_ok [0..<n]" and "x < n \<Longrightarrow> uf_rep [0..<n] x = x"
    using uf_okI [of "[0..<n]" "\<lambda>x. x"] by auto
qed

section \<open>The interface\<close>

text \<open>
  What a client of a disjoint-set structure relies on: \<open>find\<close> and \<open>union\<close> return, \<open>find\<close> gives
  the representative and changes none, \<open>union a b\<close> moves the set of \<open>a\<close> under the
  representative of \<open>b\<close>. The grouping loop and the loop over edges are the clients' code.
\<close>

locale merge_find =
  fixes ok :: "'s \<Rightarrow> bool" and size_of :: "'s \<Rightarrow> nat" and rep :: "'s \<Rightarrow> nat \<Rightarrow> nat"
    and find :: "'s \<Rightarrow> nat \<Rightarrow> ('s \<times> nat) option" and union :: "'s \<Rightarrow> nat \<Rightarrow> nat \<Rightarrow> 's option"
    and unions :: "'s \<Rightarrow> (nat \<times> nat) list \<Rightarrow> 's option"
    and groups :: "'s \<Rightarrow> nat list \<Rightarrow> (nat, nat list) dict \<Rightarrow> (nat, nat list) dict option"
  assumes find_law: "ok p \<Longrightarrow> x < size_of p \<Longrightarrow>
      \<exists>p'. find p x = Some (p', rep p x) \<and> ok p' \<and> size_of p' = size_of p \<and>
        (\<forall>y < size_of p. rep p' y = rep p y)"
    and union_law: "ok p \<Longrightarrow> a < size_of p \<Longrightarrow> b < size_of p \<Longrightarrow>
      \<exists>p'. union p a b = Some p' \<and> ok p' \<and> size_of p' = size_of p \<and>
        (\<forall>y < size_of p. rep p' y = (if rep p y = rep p a then rep p b else rep p y))"
    and unions_Nil: "unions p [] = Some p"
    and unions_Cons: "unions p ((a, b) # es) = (case union p a b of None \<Rightarrow> None | Some p' \<Rightarrow> unions p' es)"
    and groups_Nil: "groups p [] d = Some d"
    and groups_Cons: "groups p (i # js) d =
      (case find p i of None \<Rightarrow> None | Some (p', r) \<Rightarrow> groups p' js (dict_append r i d))"
begin

text \<open>After a list of links, two elements share a representative exactly when they are joined by
  links and old sets.\<close>

definition linked :: "'s \<Rightarrow> (nat \<times> nat) list \<Rightarrow> (nat \<times> nat) set" where
  "linked p es = ({(x, y). x < size_of p \<and> y < size_of p \<and> rep p x = rep p y} \<union> set es \<union> (set es)\<inverse>)\<^sup>*"

lemma union_same:
  assumes "ok p" "a < size_of p" "b < size_of p" "union p a b = Some p'" "x < size_of p" "y < size_of p"
  shows "rep p' x = rep p' y \<longleftrightarrow> rep p x = rep p y \<or>
    (rep p x = rep p a \<or> rep p x = rep p b) \<and> (rep p y = rep p a \<or> rep p y = rep p b)"
  using union_law [OF assms(1-3)] assms(4-6) by auto

definition same_set :: "'s \<Rightarrow> (nat \<times> nat) set" where
  "same_set p = {(x, y). x < size_of p \<and> y < size_of p \<and> rep p x = rep p y}"

lemma linked_same_set: "linked p es = (same_set p \<union> (set es \<union> (set es)\<inverse>))\<^sup>*"
  unfolding linked_def same_set_def Un_assoc ..

lemma union_above:
  assumes "ok p" "a < size_of p" "b < size_of p" "union p a b = Some p'" "size_of p' = size_of p"
  shows "same_set p \<union> {(a, b), (b, a)} \<subseteq> same_set p'"
  using union_same [OF assms(1-4)] assms(2,3,5) by (auto simp: same_set_def)

lemma same_set_joined:
  assumes u: "rep p u = rep p a \<or> rep p u = rep p b" "u < size_of p"
    and ab: "a < size_of p" "b < size_of p"
  shows "(u, a) \<in> (same_set p \<union> {(a, b), (b, a)})\<^sup>* \<and> (a, u) \<in> (same_set p \<union> {(a, b), (b, a)})\<^sup>*"
    (is "_ \<in> ?T \<and> _")
proof (cases "rep p u = rep p a")
  case True
  then have "(u, a) \<in> same_set p" "(a, u) \<in> same_set p" using u(2) ab by (simp_all add: same_set_def)
  then show ?thesis by blast
next
  case False
  then have "(u, b) \<in> same_set p" "(b, u) \<in> same_set p" using u ab by (simp_all add: same_set_def)
  then have "(u, b) \<in> ?T" "(b, u) \<in> ?T" "(a, b) \<in> ?T" "(b, a) \<in> ?T" by auto
  then show ?thesis by (blast intro: rtrancl_trans)
qed

lemma union_below:
  assumes "ok p" "a < size_of p" "b < size_of p" "union p a b = Some p'" "size_of p' = size_of p"
  shows "same_set p' \<subseteq> (same_set p \<union> {(a, b), (b, a)})\<^sup>*" (is "_ \<subseteq> ?T")
proof
  fix e
  assume "e \<in> same_set p'"
  then obtain x y where e: "e = (x, y)" "x < size_of p" "y < size_of p" "rep p' x = rep p' y"
    using assms(5) by (auto simp: same_set_def)
  then consider "rep p x = rep p y"
    | "rep p x = rep p a \<or> rep p x = rep p b" "rep p y = rep p a \<or> rep p y = rep p b"
    using union_same [OF assms(1-4)] by blast
  then show "e \<in> ?T"
  proof cases
    case 1
    then show ?thesis using e by (auto simp: same_set_def)
  next
    case 2
    then have "(x, a) \<in> ?T" "(a, y) \<in> ?T" using same_set_joined e assms(2,3) by blast+
    then show ?thesis unfolding e(1) by (rule rtrancl_trans)
  qed
qed

lemma linked_step:
  assumes "ok p" "a < size_of p" "b < size_of p" "union p a b = Some p'" "size_of p' = size_of p"
  shows "linked p' es = linked p ((a, b) # es)"
proof -
  let ?E = "set es \<union> (set es)\<inverse>" and ?S = "same_set p" and ?S' = "same_set p'"
  let ?ab = "{(a, b), (b, a)}"
  have split: "?S \<union> (set ((a, b) # es) \<union> (set ((a, b) # es))\<inverse>) = (?S \<union> ?ab) \<union> ?E"
    unfolding list.set by blast
  have "(?S \<union> ?ab) \<union> ?E \<subseteq> ?S' \<union> ?E" using union_above [OF assms] by (rule Un_mono) simp
  moreover have "?S' \<union> ?E \<subseteq> ((?S \<union> ?ab) \<union> ?E)\<^sup>*"
  proof (rule Un_least)
    show "?S' \<subseteq> ((?S \<union> ?ab) \<union> ?E)\<^sup>*"
      using union_below [OF assms] rtrancl_mono [of "?S \<union> ?ab" "(?S \<union> ?ab) \<union> ?E"] by blast
  qed auto
  ultimately show ?thesis
    unfolding linked_same_set split by (metis rtrancl_mono rtrancl_idemp rtrancl_subset_rtrancl subset_antisym)
qed

lemma unions_law:
  "ok p \<Longrightarrow> \<forall>(a, b)\<in>set es. a < size_of p \<and> b < size_of p \<Longrightarrow>
     \<exists>p'. unions p es = Some p' \<and> ok p' \<and> size_of p' = size_of p \<and>
       (\<forall>x < size_of p. \<forall>y < size_of p. rep p' x = rep p' y \<longleftrightarrow> (x, y) \<in> linked p es)"
proof (induction es arbitrary: p)
  case Nil
  have "trans (same_set p)" by (auto simp: same_set_def intro: transI)
  then have "(x, y) \<in> (same_set p)\<^sup>* \<longleftrightarrow> x = y \<or> (x, y) \<in> same_set p" for x y
    by (auto simp: rtrancl_eq_or_trancl trancl_id)
  then show ?case using Nil by (simp add: unions_Nil linked_same_set) (auto simp: same_set_def)
next
  case (Cons e es)
  obtain a b where e: "e = (a, b)" by (cases e)
  with Cons.prems have ab: "a < size_of p" "b < size_of p" by auto
  obtain p1 where p1: "union p a b = Some p1" "ok p1" "size_of p1 = size_of p"
    using union_law [OF Cons.prems(1) ab] by blast
  obtain p' where p': "unions p1 es = Some p'" "ok p'" "size_of p' = size_of p1"
    and same: "\<And>x y. x < size_of p \<Longrightarrow> y < size_of p \<Longrightarrow> rep p' x = rep p' y \<longleftrightarrow> (x, y) \<in> linked p1 es"
    using Cons.IH [OF p1(2)] Cons.prems(2) p1(3) by auto
  then show ?case using p1 linked_step [OF Cons.prems(1) ab p1(1,3)] by (simp add: e unions_Cons)
qed

text \<open>The groups: each representative keeps its members in the order of the list.\<close>

lemma groups_law:
  "ok p \<Longrightarrow> \<forall>i\<in>set js. i < size_of p \<Longrightarrow> distinct (dict_keys d) \<Longrightarrow>
     \<exists>d'. groups p js d = Some d' \<and> distinct (dict_keys d') \<and>
       set (dict_keys d') = set (dict_keys d) \<union> rep p ` set js \<and>
       (\<forall>r. get_default d' r [] = get_default d r [] @ filter (\<lambda>i. rep p i = r) js)"
proof (induction js arbitrary: p d)
  case Nil
  then show ?case by (simp add: groups_Nil)
next
  case (Cons i js)
  then obtain p' where p': "find p i = Some (p', rep p i)" "ok p'" "size_of p' = size_of p"
      "\<forall>y < size_of p. rep p' y = rep p y"
    using find_law [of p i] by auto
  let ?d = "dict_append (rep p i) i d"
  have bnd: "\<forall>i\<in>set js. i < size_of p'" using Cons.prems(2) p'(3) by simp
  obtain d' where d': "groups p' js ?d = Some d'" "distinct (dict_keys d')"
      "set (dict_keys d') = set (dict_keys ?d) \<union> rep p' ` set js"
      "\<forall>r. get_default d' r [] = get_default ?d r [] @ filter (\<lambda>i. rep p' i = r) js"
    using Cons.IH [OF p'(2) bnd distinct_dict_append [OF Cons.prems(3)]] by blast
  have rep: "rep p' ` set js = rep p ` set js" "\<And>r. filter (\<lambda>i. rep p' i = r) js = filter (\<lambda>i. rep p i = r) js"
    using p'(4) Cons.prems(2) by (auto intro!: filter_cong image_cong)
  have "set (dict_keys ?d) = insert (rep p i) (set (dict_keys d))"
    by (simp add: dict_append_def keys_dict_set del: set_map)
  then show ?case using p' d' rep by (auto simp: groups_Cons dict_simps)
qed

end

interpretation uf: merge_find uf_ok length uf_rep uf_find uf_union uf_unions uf_groups
  by unfold_locales (auto simp: uf_find_spec uf_union_spec)

end
