(* ===== verification/Graph_Partition.thy ===== *)
theory Graph_Partition
  imports Device_Targets Union_Find
begin

text \<open>
  \<^verbatim>\<open>onnxsim/graph_partition.py\<close>: placing every node of a graph on a device, cutting the graph
  into connected same-device regions, testing the regions for convexity and listing the
  tensors that cross between devices, with the size helpers of \<^verbatim>\<open>onnxsim/model_info.py\<close> it
  uses. The dictionaries \<^verbatim>\<open>producer\<close>, \<^verbatim>\<open>consumers\<close> and \<^verbatim>\<open>assignment\<close> are association lists.
  Third-party code is a parameter, collected in the record \<open>partition_env\<close>: ONNX shape
  inference, the width of an element type, the contents of a \<^verbatim>\<open>scales\<close> tensor, whether sympy
  is installed and what \<^verbatim>\<open>int(...)\<close> does with one of its products.
\<close>

section \<open>Sizes of tensors\<close>

datatype sdim = SInt int | SSym string | SUnknown

text \<open>A product of dimensions: its integer factor and its sympy symbols.\<close>

type_synonym macs = "int \<times> string list"

record partition_env =
  downsamples :: "tensor_proto \<Rightarrow> bool"
  infer_shapes :: "model \<Rightarrow> model"
  has_sympy :: bool
  elem_size :: "elem_type \<Rightarrow> int option"
  int_of_macs :: "macs \<Rightarrow> int res"

fun tensor_dim :: "bool \<Rightarrow> odim \<Rightarrow> sdim" where
  "tensor_dim sympy (DimValue v) = SInt v"
| "tensor_dim sympy (DimParam s) = (if s = '''' then SUnknown else if sympy then SSym s else SInt 1)"
| "tensor_dim sympy DimUnset = SUnknown"

definition tensor_shape :: "bool \<Rightarrow> value_info \<Rightarrow> sdim list option" where
  "tensor_shape sympy v = map_option (map (tensor_dim sympy)) (vshape v)"

definition collect_shapes :: "bool \<Rightarrow> graph \<Rightarrow> (string, sdim list) dict \<Rightarrow> (string, sdim list) dict" where
  "collect_shapes sympy g inherited =
     fold (\<lambda>t. dict_set (tname t) (map SInt (tdims t))) (ginit g)
       (fold (\<lambda>v d. case tensor_shape sympy v of None \<Rightarrow> d | Some sh \<Rightarrow> dict_set (vname v) sh d)
         (ginput g @ goutput g @ gvalue_info g) inherited)"

definition collect_dtypes :: "(elem_type \<Rightarrow> int option) \<Rightarrow> graph \<Rightarrow> (string, int) dict \<Rightarrow> (string, int) dict" where
  "collect_dtypes esize g inherited =
     fold (\<lambda>t d. case esize (data_type t) of None \<Rightarrow> d | Some e \<Rightarrow> dict_set (tname t) e d) (ginit g)
       (fold (\<lambda>v d. case esize (elem_type_of v) of None \<Rightarrow> d | Some e \<Rightarrow> dict_set (vname v) e d)
         (ginput g @ goutput g @ gvalue_info g) inherited)"

definition known_shape :: "sdim list option \<Rightarrow> bool" where
  "known_shape sh = (case sh of None \<Rightarrow> False | Some ds \<Rightarrow> ds \<noteq> [] \<and> SUnknown \<notin> set ds)"

fun macs_mult :: "macs \<Rightarrow> sdim \<Rightarrow> macs" where
  "macs_mult (c, syms) (SInt v) = (c * v, syms)"
| "macs_mult (c, syms) (SSym s) = (c, syms @ [s])"
| "macs_mult (c, syms) SUnknown = (c, syms)"

definition prod_dims :: "sdim list \<Rightarrow> macs" where
  "prod_dims ds = foldl macs_mult (1, []) ds"

definition tensor_bytes :: "string \<Rightarrow> (string, sdim list) dict \<Rightarrow> (string, int) dict \<Rightarrow> macs option" where
  "tensor_bytes name shapes dtypes =
     (case (dict_get shapes name, dict_get dtypes name) of
        (Some ds, Some e) \<Rightarrow> if known_shape (Some ds) then Some (macs_mult (prod_dims ds) (SInt e)) else None
      | _ \<Rightarrow> None)"

section \<open>Devices\<close>

abbreviation CPU :: string where "CPU \<equiv> ''cpu''"

definition heavy_ops :: "string list" where
  "heavy_ops = [''Conv'', ''ConvTranspose'', ''MatMul'', ''Gemm'', ''Attention'', ''MultiHeadAttention'']"

definition webgpu_ops :: "string list" where
  "webgpu_ops = webnn_supported_ops @
     [''MatMul'', ''Attention'', ''MultiHeadAttention'', ''Erf'', ''Sqrt'', ''Pow'', ''Neg'', ''Shape'']"

definition builtin_devices :: "(string, string list) dict" where
  "builtin_devices = [(''webnn'', webnn_supported_ops), (''webgpu'', webgpu_ops)]"

definition contrib_ops :: "(string, (string \<times> string) list) dict" where
  "contrib_ops = [(''webgpu'', [(''com.microsoft'', ''Attention''), (''com.microsoft'', ''MultiHeadAttention'')])]"

definition device_supports :: "string \<Rightarrow> node \<Rightarrow> bool res" where
  "device_supports device n =
     (if device = CPU then Inr True
      else case dict_get builtin_devices device of
        None \<Rightarrow> Inl (ValueError ''unknown device'')
      | Some ops \<Rightarrow>
          if is_std_domain n then Inr (op_type n \<in> set ops)
          else Inr ((ndomain n, op_type n) \<in> set (get_default contrib_ops device [])))"

definition device_hazards :: "(tensor_proto \<Rightarrow> bool) \<Rightarrow> graph \<Rightarrow> string \<Rightarrow> nat list" where
  "device_hazards downs g device =
     (if device = ''webnn'' then map fst (flagged_reshape_expand_nodes g)
      else if device = ''webgpu'' then
        map fst (flagged_attention_nodes g) @ map fst (flagged_conv3d_nodes g) @
        map fst (flagged_resize_align_corners_downsample_nodes downs g)
      else [])"

definition is_std_domain_or_contrib :: "node \<Rightarrow> bool" where
  "is_std_domain_or_contrib n \<longleftrightarrow>
     is_std_domain n \<or> (ndomain n = ''com.microsoft'' \<and> op_type n \<in> set heavy_ops)"

section \<open>Placement\<close>

text \<open>\<^verbatim>\<open>[primary] + [d for d in fallback if d != primary]\<close>, with \<^verbatim>\<open>"cpu"\<close> appended when missing.\<close>

definition device_order :: "string \<Rightarrow> string list \<Rightarrow> string list" where
  "device_order primary fallback =
     (let ds = primary # filter (\<lambda>d. d \<noteq> primary) fallback in if CPU \<in> set ds then ds else ds @ [CPU])"

definition producer_table :: "node list \<Rightarrow> (string, nat) dict" where
  "producer_table ns =
     fold (\<lambda>(i, n). fold (\<lambda>s d. if s = '''' then d else dict_set s i d) (noutput n)) (enumerate_py ns) []"

definition hazards_by_device :: "(tensor_proto \<Rightarrow> bool) \<Rightarrow> graph \<Rightarrow> string list \<Rightarrow> (string, nat list) dict" where
  "hazards_by_device downs g devices =
     fold (\<lambda>d. dict_set d (device_hazards downs g d)) (filter (\<lambda>d. d \<noteq> CPU) devices) []"

definition supported :: "(string, nat list) dict \<Rightarrow> node list \<Rightarrow> string \<Rightarrow> nat \<Rightarrow> bool res" where
  "supported hazards ns device i =
     (if i < length ns then
        rbind (device_supports device (ns ! i)) (\<lambda>b. Inr (b \<and> i \<notin> set (get_default hazards device [])))
      else Inl (IndexError ''nodes''))"

text \<open>Step 1: heavy ops go to the first device in priority order that supports them.\<close>

definition is_heavy :: "node \<Rightarrow> bool" where
  "is_heavy n \<longleftrightarrow> op_type n \<in> set heavy_ops \<and> is_std_domain_or_contrib n"

definition place_heavy ::
    "(string \<Rightarrow> nat \<Rightarrow> bool res) \<Rightarrow> string list \<Rightarrow> node list \<Rightarrow> (nat, string) dict res" where
  "place_heavy cap devices ns =
     rfold (\<lambda>a (i, n).
        if is_heavy n then
          rbind (rfind (\<lambda>d. cap d i) devices) (\<lambda>r.
            case r of None \<Rightarrow> Inr a | Some d \<Rightarrow> Inr (dict_set i d a))
        else Inr a) [] (enumerate_py ns)"

lemma free_nodes_decrease:
  "dict_get a x = None \<Longrightarrow> x < (n :: nat) \<Longrightarrow>
     card {j. j < n \<and> dict_get (dict_set x d a) j = None} < card {j. j < n \<and> dict_get a j = None}"
proof (rule psubset_card_mono)
  show "finite {j. j < n \<and> dict_get a j = None}" by (rule finite_subset [of _ "{..<n}"]) auto
qed (auto simp: map_of_dict_set)

text \<open>Step 2: the loop that walks down a chain of elementwise readers of a heavy op.\<close>

function fuse_chain ::
    "(string \<Rightarrow> nat \<Rightarrow> bool res) \<Rightarrow> node list \<Rightarrow> (string, nat list) dict \<Rightarrow> string list \<Rightarrow>
     nat \<Rightarrow> nat \<Rightarrow> (nat, string) dict \<Rightarrow> (nat, string) dict res" where
  "fuse_chain cap ns consumers gouts i cur a =
     (if \<not> cur < length ns then Inl (IndexError ''nodes'')
      else let outs = filter (\<lambda>s. s \<noteq> '''') (noutput (ns ! cur)) in
        if length outs \<noteq> 1 \<or> hd outs \<in> set gouts then Inr a
        else let readers = get_default consumers (hd outs) [] in
          if length readers \<noteq> 1 then Inr a
          else let nxt = hd readers in
            if dict_get a nxt \<noteq> None then Inr a
            else if \<not> nxt < length ns then Inl (IndexError ''nodes'')
            else if \<not> is_kernel_elementwise (ns ! nxt) then Inr a
            else case dict_get a i of None \<Rightarrow> Inl (KeyError ''assignment'')
              | Some d \<Rightarrow> rbind (cap d nxt) (\<lambda>b.
                  if \<not> b then Inr a
                  else fuse_chain cap ns consumers gouts i nxt (dict_set nxt d a)))"
  by pat_completeness auto

termination
  by (relation "measure (\<lambda>(cap, ns, consumers, gouts, i, cur, a).
        card {j. j < length ns \<and> dict_get a j = None})")
    (auto intro: free_nodes_decrease)

declare fuse_chain.simps [simp del]

definition fuse_activations ::
    "(string \<Rightarrow> nat \<Rightarrow> bool res) \<Rightarrow> node list \<Rightarrow> (string, nat list) dict \<Rightarrow> string list \<Rightarrow>
     (nat, string) dict \<Rightarrow> (nat, string) dict res" where
  "fuse_activations cap ns consumers gouts a =
     rfold (\<lambda>a i. fuse_chain cap ns consumers gouts i i a) a (sort (dict_keys a))"

text \<open>Step 3: everything else stays with its producers, then its consumers.\<close>

definition placed_neighbours ::
    "(string, nat) dict \<Rightarrow> (string, nat list) dict \<Rightarrow> (nat, string) dict \<Rightarrow> node \<Rightarrow> string list" where
  "placed_neighbours producer consumers a n =
     List.map_filter (\<lambda>s. case dict_get producer s of None \<Rightarrow> None | Some p \<Rightarrow> dict_get a p) (ninput n) @
     concat (map (\<lambda>s. List.map_filter (dict_get a) (get_default consumers s [])) (noutput n))"

definition place_node ::
    "(string \<Rightarrow> nat \<Rightarrow> bool res) \<Rightarrow> string list \<Rightarrow> node list \<Rightarrow> (string, nat) dict \<Rightarrow>
     (string, nat list) dict \<Rightarrow> (nat, string) dict \<Rightarrow> nat \<Rightarrow> (nat, string) dict res" where
  "place_node cap devices ns producer consumers a i =
     (if dict_get a i \<noteq> None then Inr a
      else rbind (rfilter (\<lambda>d. cap d i) devices) (\<lambda>cs.
        let candidates = (if cs = [] then [CPU] else cs) in
        Inr (dict_set i
          (next_default (\<lambda>d. d \<in> set candidates) (placed_neighbours producer consumers a (ns ! i))
             (hd candidates)) a)))"

definition place_rest ::
    "(string \<Rightarrow> nat \<Rightarrow> bool res) \<Rightarrow> string list \<Rightarrow> node list \<Rightarrow> (string, nat) dict \<Rightarrow>
     (string, nat list) dict \<Rightarrow> (nat, string) dict \<Rightarrow> (nat, string) dict res" where
  "place_rest cap devices ns producer consumers a =
     rfold (place_node cap devices ns producer consumers) a [0..<length ns]"

section \<open>Regions\<close>

record partition =
  device :: string
  node_indices :: "nat list"
  convex :: bool

definition successors :: "node list \<Rightarrow> (string, nat list) dict \<Rightarrow> nat list list" where
  "successors ns consumers =
     map (\<lambda>n. remdups (concat (map (\<lambda>s. get_default consumers s []) (noutput n)))) ns"

definition succ_of :: "nat list list \<Rightarrow> nat \<Rightarrow> nat list" where
  "succ_of succs x = (if x < length succs then succs ! x else [])"

lemma set_succ_of: "set (succ_of succs x) \<subseteq> set (concat succs)"
proof (cases "x < length succs")
  case True
  then have "succs ! x \<in> set succs" by (rule nth_mem)
  moreover have "succ_of succs x = succs ! x" using True by (simp add: succ_of_def)
  ultimately show ?thesis unfolding set_concat by (metis UN_upper)
qed (simp add: succ_of_def)

text \<open>The search of \<^verbatim>\<open>_is_convex\<close>: \<open>False\<close> as soon as a walk outside meets a member.\<close>

function convex_loop :: "nat list list \<Rightarrow> nat set \<Rightarrow> nat list \<Rightarrow> nat list \<Rightarrow> bool" where
  "convex_loop succs members outside [] = True"
| "convex_loop succs members outside (cur # stack) =
     (if cur \<in> set outside then convex_loop succs members outside stack
      else if \<exists>x \<in> set (succ_of succs cur). x \<in> members then False
      else convex_loop succs members (cur # outside) (rev (succ_of succs cur) @ stack))"
  by pat_completeness auto

termination
proof (relation "measures [\<lambda>(succs, members, outside, stack).
          card ((set (concat succs) \<union> set stack) - set outside), \<lambda>(succs, members, outside, stack). length stack]",
    goal_cases)
  case (2 succs members outside cur stack)
  have "(set (concat succs) \<union> set stack) - set outside = (set (concat succs) \<union> set (cur # stack)) - set outside"
    using 2 by auto
  then show ?case by simp
next
  case (3 succs members outside cur stack)
  have "card ((set (concat succs) \<union> set (rev (succ_of succs cur) @ stack)) - set (cur # outside)) <
      card ((set (concat succs) \<union> set (cur # stack)) - set outside)"
    by (rule psubset_card_mono) (use 3(1) set_succ_of [of succs cur] in auto)
  then show ?case by simp
qed simp

definition is_convex :: "nat list \<Rightarrow> node list \<Rightarrow> (string, nat list) dict \<Rightarrow> bool" where
  "is_convex members ns consumers =
     (let succs = successors ns consumers in
      convex_loop succs (set members) []
        (rev (concat (map (\<lambda>m. filter (\<lambda>s. s \<notin> set members) (succ_of succs m)) members))))"

text \<open>The links of \<^verbatim>\<open>_partitions\<close>: producer and consumer on the same device.\<close>

definition input_link ::
    "(nat, string) dict \<Rightarrow> (string, nat) dict \<Rightarrow> nat \<Rightarrow> string \<Rightarrow> (nat \<times> nat) list res" where
  "input_link a producer i s =
     (case dict_get producer s of None \<Rightarrow> Inr []
      | Some p \<Rightarrow>
          (case (dict_get a p, dict_get a i) of
             (Some dp, Some di) \<Rightarrow> Inr (if dp = di then [(p, i)] else [])
           | _ \<Rightarrow> Inl (KeyError ''assignment'')))"

definition same_device_links ::
    "node list \<Rightarrow> (nat, string) dict \<Rightarrow> (string, nat) dict \<Rightarrow> (nat \<times> nat) list res" where
  "same_device_links ns a producer =
     rbind (rmap (\<lambda>(i, n). rmap (input_link a producer i) (ninput n)) (enumerate_py ns))
       (\<lambda>rows. Inr (concat (concat rows)))"

definition make_partition ::
    "node list \<Rightarrow> (nat, string) dict \<Rightarrow> (string, nat list) dict \<Rightarrow> nat list \<Rightarrow> partition res" where
  "make_partition ns a consumers grp =
     (let members = sort grp in
      case members of [] \<Rightarrow> Inl (IndexError ''members'')
      | m # _ \<Rightarrow>
          (case dict_get a m of None \<Rightarrow> Inl (KeyError ''assignment'')
           | Some d \<Rightarrow> Inr \<lparr>device = d, node_indices = members, convex = is_convex members ns consumers\<rparr>))"

text \<open>\<open>None\<close> of the union-find operations is a loop that does not return.\<close>

definition partitions ::
    "node list \<Rightarrow> (nat, string) dict \<Rightarrow> (string, nat) dict \<Rightarrow> (string, nat list) dict \<Rightarrow> partition list res" where
  "partitions ns a producer consumers =
     rbind (same_device_links ns a producer) (\<lambda>links.
       case uf_unions [0..<length ns] links of None \<Rightarrow> Inl (OtherError ''find does not return'')
       | Some parent \<Rightarrow>
           (case uf_groups parent [0..<length ns] [] of None \<Rightarrow> Inl (OtherError ''find does not return'')
            | Some groups \<Rightarrow>
                rbind (rmap (make_partition ns a consumers) (map snd groups))
                  (\<lambda>ps. Inr (sort_key (\<lambda>p. hd (node_indices p)) ps))))"

section \<open>Boundaries\<close>

type_synonym crossing = "string \<times> string \<times> string"

definition add_bytes :: "partition_env \<Rightarrow> int option \<Rightarrow> macs option \<Rightarrow> int option res" where
  "add_bytes env tot bytes_of =
     (case (bytes_of, tot) of
        (Some m, Some t) \<Rightarrow> rbind (int_of_macs env m) (\<lambda>v. Inr (Some (t + v)))
      | _ \<Rightarrow> Inr None)"

definition reader_step ::
    "partition_env \<Rightarrow> (nat, string) dict \<Rightarrow> (string, sdim list) dict \<Rightarrow> (string, int) dict \<Rightarrow>
     string \<Rightarrow> string \<Rightarrow> string list \<times> crossing list \<times> int option \<Rightarrow> nat \<Rightarrow>
     (string list \<times> crossing list \<times> int option) res" where
  "reader_step env a shapes dtypes name src = (\<lambda>(seen, boundary, tot) c.
     case dict_get a c of None \<Rightarrow> Inl (KeyError ''assignment'')
     | Some dst \<Rightarrow>
         if dst = src \<or> dst \<in> set seen then Inr (seen, boundary, tot)
         else rbind (add_bytes env tot (tensor_bytes name shapes dtypes)) (\<lambda>tot'.
           Inr (dst # seen, boundary @ [(name, src, dst)], tot')))"

definition name_step ::
    "partition_env \<Rightarrow> (nat, string) dict \<Rightarrow> (string, nat) dict \<Rightarrow> (string, sdim list) dict \<Rightarrow>
     (string, int) dict \<Rightarrow> crossing list \<times> int option \<Rightarrow> string \<times> nat list \<Rightarrow>
     (crossing list \<times> int option) res" where
  "name_step env a producer shapes dtypes = (\<lambda>(boundary, tot) (name, readers).
     case dict_get producer name of None \<Rightarrow> Inr (boundary, tot)
     | Some p \<Rightarrow>
         if readers = [] then Inr (boundary, tot)
         else (case dict_get a p of None \<Rightarrow> Inl (KeyError ''assignment'')
           | Some src \<Rightarrow>
               rbind (rfold (reader_step env a shapes dtypes name src) ([], boundary, tot) readers)
                 (\<lambda>(_, boundary', tot'). Inr (boundary', tot'))))"

definition boundaries ::
    "partition_env \<Rightarrow> (nat, string) dict \<Rightarrow> (string, nat) dict \<Rightarrow> (string, nat list) dict \<Rightarrow>
     (string, sdim list) dict \<Rightarrow> (string, int) dict \<Rightarrow> (crossing list \<times> int option) res" where
  "boundaries env a producer consumers shapes dtypes =
     rfold (name_step env a producer shapes dtypes) ([], Some 0) consumers"

section \<open>The plan\<close>

record partition_plan =
  assignment :: "(nat, string) dict"
  regions :: "partition list"
  boundary_tensors :: "crossing list"
  transfer_bytes :: "int option"
  heavy_on_primary :: nat
  heavy_total :: nat
  hazards :: "nat list"

definition nonconvex_partitions :: "partition_plan \<Rightarrow> nat" where
  "nonconvex_partitions plan = length (filter (\<lambda>p. \<not> convex p) (regions plan))"

definition counts :: "partition_plan \<Rightarrow> (string, nat) dict" where
  "counts plan = fold (\<lambda>(_, d) out. dict_set d (get_default out d 0 + 1) out) (assignment plan) []"

text \<open>The three placement steps of \<^verbatim>\<open>partition_graph\<close> on the shape-inferred graph.\<close>

definition place_nodes ::
    "(string \<Rightarrow> nat \<Rightarrow> bool res) \<Rightarrow> string list \<Rightarrow> graph \<Rightarrow> (nat, string) dict res" where
  "place_nodes cap devices g =
     (let ns = gnode g; producer = producer_table ns; consumers = consumers_table ns;
          gouts = map vname (goutput g) in
      rbind (place_heavy cap devices ns) (\<lambda>a.
      rbind (fuse_activations cap ns consumers gouts a) (\<lambda>a.
        place_rest cap devices ns producer consumers a)))"

definition partition_graph :: "partition_env \<Rightarrow> model \<Rightarrow> string \<Rightarrow> string list \<Rightarrow> partition_plan res" where
  "partition_graph env m primary fallback =
     (let devices = device_order primary fallback;
          g = mgraph (infer_shapes env m); ns = gnode g; n = length ns;
          shapes = collect_shapes (has_sympy env) g []; dtypes = collect_dtypes (elem_size env) g [];
          producer = producer_table ns; consumers = consumers_table ns;
          hz = hazards_by_device (downsamples env) (mgraph m) devices;
          primary_hazards = get_default hz primary [] in
      rbind (place_nodes (supported hz ns) devices g) (\<lambda>a.
      rbind (partitions ns a producer consumers) (\<lambda>ps.
      rbind (boundaries env a producer consumers shapes dtypes) (\<lambda>(boundary, transfer).
        let heavy = filter (\<lambda>i. op_type (ns ! i) \<in> set heavy_ops) [0..<n] in
        Inr \<lparr>assignment = a, regions = ps, boundary_tensors = boundary, transfer_bytes = transfer,
             heavy_on_primary = length (filter (\<lambda>i. dict_get a i = Some primary) heavy),
             heavy_total = length heavy,
             hazards = sort (filter (\<lambda>i. i < n) (remdups primary_hazards))\<rparr>))))"


section \<open>The capability oracle\<close>

text \<open>
  What the placement loops rely on: the test \<open>cap d i\<close> returns for a known device and an index
  of the graph, and the CPU runs everything.
\<close>

locale capability =
  fixes cap :: "string \<Rightarrow> nat \<Rightarrow> bool res" and known :: "string \<Rightarrow> bool" and n :: nat
  assumes cap_total: "known d \<Longrightarrow> i < n \<Longrightarrow> is_ok (cap d i)"
    and cpu_known: "known CPU"
    and cpu_runs: "i < n \<Longrightarrow> cap CPU i = Inr True"
begin

lemma cap_eq: "known d \<Longrightarrow> i < n \<Longrightarrow> cap d i = Inr (cap d i = Inr True)"
  using cap_total [of d i] by (cases "cap d i") auto

lemma find_device:
  assumes "\<forall>d\<in>set devices. known d" "i < n"
  shows "rfind (\<lambda>d. cap d i) devices = Inr (List.find (\<lambda>d. cap d i = Inr True) devices)"
  by (rule rfind_Inr) (use assms cap_eq in blast)

lemma filter_devices:
  assumes "\<forall>d\<in>set devices. known d" "i < n"
  shows "rfilter (\<lambda>d. cap d i) devices = Inr (filter (\<lambda>d. cap d i = Inr True) devices)"
  by (rule rfilter_Inr) (use assms cap_eq in blast)

lemma some_device:
  assumes "CPU \<in> set devices" "i < n"
  obtains d where "List.find (\<lambda>d. cap d i = Inr True) devices = Some d" "d \<in> set devices" "cap d i = Inr True"
proof (cases "List.find (\<lambda>d. cap d i = Inr True) devices")
  case None
  then show thesis using assms cpu_runs by (auto simp: find_None_iff)
next
  case (Some d)
  then have "d \<in> set devices" "cap d i = Inr True" by (auto simp: find_Some_iff)
  with Some show thesis using that by blast
qed

text \<open>Every placed node is a node of the graph, on a listed device that runs it.\<close>

definition placed_ok :: "string list \<Rightarrow> (nat, string) dict \<Rightarrow> bool" where
  "placed_ok devices a \<longleftrightarrow>
     (\<forall>i d. dict_get a i = Some d \<longrightarrow> i < n \<and> d \<in> set devices \<and> cap d i = Inr True)"

lemma placed_ok_set:
  "placed_ok devices a \<Longrightarrow> i < n \<Longrightarrow> d \<in> set devices \<Longrightarrow> cap d i = Inr True \<Longrightarrow>
     placed_ok devices (dict_set i d a)"
  by (auto simp: placed_ok_def map_of_dict_set)

lemma place_heavy_loop:
  assumes "\<forall>d\<in>set devices. known d" "CPU \<in> set devices"
  shows "\<forall>(i, nd)\<in>set xs. i < n \<Longrightarrow>
    \<exists>a'. rfold (\<lambda>a (i, nd). if is_heavy nd then
          rbind (rfind (\<lambda>d. cap d i) devices) (\<lambda>r. case r of None \<Rightarrow> Inr a | Some d \<Rightarrow> Inr (dict_set i d a))
        else Inr a) a xs = Inr a' \<and>
      (\<forall>i. dict_get a' i = (if \<exists>nd. (i, nd) \<in> set xs \<and> is_heavy nd
              then List.find (\<lambda>d. cap d i = Inr True) devices else dict_get a i))"
proof (induction xs arbitrary: a)
  case Nil
  then show ?case by simp
next
  case (Cons x xs)
  obtain i nd where x: "x = (i, nd)" by (cases x)
  then have i: "i < n" using Cons.prems by auto
  obtain d where d: "List.find (\<lambda>d. cap d i = Inr True) devices = Some d"
    using some_device [OF assms(2) i] by metis
  let ?a = "if is_heavy nd then dict_set i d a else a"
  have "\<forall>(i, nd)\<in>set xs. i < n" using Cons.prems by auto
  from Cons.IH [OF this, of ?a] show ?case
    using d find_device [OF assms(1) i] by (auto simp: x map_of_dict_set split: if_splits) blast
qed

lemma place_heavy_spec:
  assumes "\<forall>d\<in>set devices. known d" "CPU \<in> set devices" "length ns = n"
  shows "\<exists>a. place_heavy cap devices ns = Inr a \<and> placed_ok devices a \<and>
    (\<forall>i < n. is_heavy (ns ! i) \<longrightarrow> dict_get a i = List.find (\<lambda>d. cap d i = Inr True) devices)"
proof -
  have "\<forall>(i, nd)\<in>set (enumerate_py ns). i < n" using assms(3) by (auto simp: in_set_enumerate_py)
  from place_heavy_loop [OF assms(1,2) this, of "[]"] obtain a where a: "place_heavy cap devices ns = Inr a"
    and get: "\<And>i. dict_get a i = (if i < n \<and> is_heavy (ns ! i)
              then List.find (\<lambda>d. cap d i = Inr True) devices else None)"
    using assms(3) by (auto simp: place_heavy_def in_set_enumerate_py)
  have "placed_ok devices a" using get by (auto simp: placed_ok_def find_Some_iff split: if_splits)
  with a get show ?thesis by auto
qed

lemma fuse_chain_spec:
  assumes known: "\<forall>d\<in>set devices. known d" and ns: "length ns = n"
  shows "placed_ok devices a \<Longrightarrow> dict_get a i \<noteq> None \<Longrightarrow> cur < n \<Longrightarrow>
    \<exists>a'. fuse_chain cap ns (consumers_table ns) gouts i cur a = Inr a' \<and>
      placed_ok devices a' \<and> map_of a \<subseteq>\<^sub>m map_of a'"
proof (induction "card {j. j < n \<and> dict_get a j = None}" arbitrary: cur a rule: less_induct)
  case less
  let ?outs = "filter (\<lambda>s. s \<noteq> '''') (noutput (ns ! cur))"
  let ?nxt = "hd (get_default (consumers_table ns) (hd ?outs) [])"
  obtain d where d: "dict_get a i = Some d" using less.prems(2) by blast
  show ?case
  proof (cases "length ?outs = 1 \<and> hd ?outs \<notin> set gouts \<and>
      length (get_default (consumers_table ns) (hd ?outs) []) = 1 \<and> dict_get a ?nxt = None \<and>
      is_kernel_elementwise (ns ! ?nxt) \<and> cap d ?nxt = Inr True")
    case True
    then have "?nxt \<in> set (get_default (consumers_table ns) (hd ?outs) [])"
      by (metis hd_in_set length_0_conv zero_neq_one)
    then have nxt: "?nxt < n" using ns by (simp add: consumers_table_get)
    let ?a = "dict_set ?nxt d a"
    have ok: "placed_ok devices ?a"
      using less.prems(1) nxt d True by (intro placed_ok_set) (auto simp: placed_ok_def)
    have fresh: "dict_get a ?nxt = None" using True by blast
    have ext: "map_of a \<subseteq>\<^sub>m map_of ?a" using fresh by (auto simp: map_le_def map_of_dict_set)
    have "\<exists>a'. fuse_chain cap ns (consumers_table ns) gouts i ?nxt ?a = Inr a' \<and>
        placed_ok devices a' \<and> map_of ?a \<subseteq>\<^sub>m map_of a'"
      by (rule less.hyps [OF free_nodes_decrease [OF fresh nxt] ok _ nxt]) (use d in \<open>simp add: map_of_dict_set\<close>)
    then show ?thesis using True nxt d less.prems(3) ns ext map_le_trans
      by (subst fuse_chain.simps) (auto simp: Let_def)
  next
    case False
    have rd: "?nxt < n" if "length (get_default (consumers_table ns) (hd ?outs) []) = 1"
    proof -
      have "?nxt \<in> set (get_default (consumers_table ns) (hd ?outs) [])"
        using that by (metis hd_in_set length_0_conv zero_neq_one)
      then show ?thesis using ns by (simp add: consumers_table_get)
    qed
    have kd: "known d" using less.prems(1) d known by (auto simp: placed_ok_def)
    have no: "cap d ?nxt = Inr False" if "cap d ?nxt \<noteq> Inr True" "?nxt < n"
      using cap_total [OF kd that(2)] that(1) by (cases "cap d ?nxt") auto
    have "fuse_chain cap ns (consumers_table ns) gouts i cur a = Inr a"
      using False rd no less.prems(3) ns d
      by (subst fuse_chain.simps) (auto simp: Let_def)
    then show ?thesis using less.prems(1) by simp
  qed
qed

lemma fuse_activations_spec:
  assumes "\<forall>d\<in>set devices. known d" "length ns = n" "placed_ok devices a"
  shows "\<exists>a'. fuse_activations cap ns (consumers_table ns) gouts a = Inr a' \<and>
    placed_ok devices a' \<and> map_of a \<subseteq>\<^sub>m map_of a'"
proof -
  have "\<forall>i\<in>set is. dict_get a i \<noteq> None \<Longrightarrow> placed_ok devices a \<Longrightarrow>
      \<exists>a'. rfold (\<lambda>a i. fuse_chain cap ns (consumers_table ns) gouts i i a) a is = Inr a' \<and>
        placed_ok devices a' \<and> map_of a \<subseteq>\<^sub>m map_of a'" for "is"
  proof (induction "is" arbitrary: a)
    case Nil
    then show ?case by simp
  next
    case (Cons i js)
    then have "i < n" by (auto simp: placed_ok_def)
    then obtain a1 where a1: "fuse_chain cap ns (consumers_table ns) gouts i i a = Inr a1"
        "placed_ok devices a1" "map_of a \<subseteq>\<^sub>m map_of a1"
      using fuse_chain_spec [OF assms(1,2) Cons.prems(2), of i i gouts] Cons.prems(1) by auto
    have "\<forall>i\<in>set js. dict_get a1 i \<noteq> None"
      using Cons.prems(1) map_le_keeps [OF a1(3)] by simp
    with Cons.IH [OF _ a1(2)] a1 show ?case by (auto intro: map_le_trans)
  qed
  moreover have "\<forall>i\<in>set (sort (dict_keys a)). dict_get a i \<noteq> None" by (auto simp: map_of_eq_None_iff)
  ultimately show ?thesis using assms(3) by (simp add: fuse_activations_def)
qed

lemma place_node_spec:
  assumes "\<forall>d\<in>set devices. known d" "CPU \<in> set devices" "placed_ok devices a" "i < n"
  shows "\<exists>a'. place_node cap devices ns producer consumers a i = Inr a' \<and>
    placed_ok devices a' \<and> map_of a \<subseteq>\<^sub>m map_of a' \<and> dict_get a' i \<noteq> None"
proof (cases "dict_get a i")
  case None
  let ?cs = "filter (\<lambda>d. cap d i = Inr True) devices"
  let ?d = "next_default (\<lambda>d. d \<in> set ?cs) (placed_neighbours producer consumers a (ns ! i)) (hd ?cs)"
  have ne: "?cs \<noteq> []" using assms(2,4) cpu_runs by (auto simp: filter_empty_conv)
  then have "?d \<in> set ?cs" using next_default_cases [of "\<lambda>d. d \<in> set ?cs"] by (metis hd_in_set)
  then have "placed_ok devices (dict_set i ?d a)" using assms by (intro placed_ok_set) auto
  moreover have "place_node cap devices ns producer consumers a i = Inr (dict_set i ?d a)"
    using None ne filter_devices [OF assms(1,4)] by (simp add: place_node_def Let_def)
  ultimately show ?thesis using None by (auto simp: map_le_def map_of_dict_set)
next
  case (Some d)
  then show ?thesis using assms(3) by (simp add: place_node_def)
qed

lemma place_rest_spec:
  assumes "\<forall>d\<in>set devices. known d" "CPU \<in> set devices" "placed_ok devices a" "k \<le> n"
  shows "\<exists>a'. rfold (place_node cap devices ns producer consumers) a [0..<k] = Inr a' \<and>
    placed_ok devices a' \<and> map_of a \<subseteq>\<^sub>m map_of a' \<and> (\<forall>i < k. dict_get a' i \<noteq> None)"
  using assms(4)
proof (induction k)
  case 0
  then show ?case using assms(3) by simp
next
  case (Suc k)
  then obtain a1 where a1: "rfold (place_node cap devices ns producer consumers) a [0..<k] = Inr a1"
      "placed_ok devices a1" "map_of a \<subseteq>\<^sub>m map_of a1" "\<forall>i < k. dict_get a1 i \<noteq> None" by auto
  obtain a2 where a2: "place_node cap devices ns producer consumers a1 k = Inr a2"
      "placed_ok devices a2" "map_of a1 \<subseteq>\<^sub>m map_of a2" "dict_get a2 k \<noteq> None"
    using place_node_spec [OF assms(1,2) a1(2), of k ns producer consumers] Suc.prems by auto
  have "dict_get a2 i \<noteq> None" if "i < Suc k" for i
    using that a1(4) a2(4) map_le_keeps [OF a2(3), of i] by (auto simp: less_Suc_eq)
  moreover have "map_of a \<subseteq>\<^sub>m map_of a2" using a1(3) a2(3) by (rule map_le_trans)
  ultimately show ?case using a1(1) a2(1,2) by (simp add: rfold_append)
qed

lemma place_nodes_spec:
  assumes "\<forall>d\<in>set devices. known d" "CPU \<in> set devices" "length (gnode g) = n"
  shows "\<exists>a. place_nodes cap devices g = Inr a \<and> placed_ok devices a \<and>
    (\<forall>i < n. dict_get a i \<noteq> None) \<and>
    (\<forall>i < n. is_heavy (gnode g ! i) \<longrightarrow> dict_get a i = List.find (\<lambda>d. cap d i = Inr True) devices)"
proof -
  let ?ns = "gnode g"
  obtain a1 where a1: "place_heavy cap devices ?ns = Inr a1" "placed_ok devices a1"
      "\<forall>i < n. is_heavy (?ns ! i) \<longrightarrow> dict_get a1 i = List.find (\<lambda>d. cap d i = Inr True) devices"
    using place_heavy_spec [OF assms] by blast
  obtain a2 where a2: "fuse_activations cap ?ns (consumers_table ?ns) (map vname (goutput g)) a1 = Inr a2"
      "placed_ok devices a2" "map_of a1 \<subseteq>\<^sub>m map_of a2"
    using fuse_activations_spec [OF assms(1,3) a1(2)] by blast
  obtain a3 where a3: "place_rest cap devices ?ns (producer_table ?ns) (consumers_table ?ns) a2 = Inr a3"
      "placed_ok devices a3" "map_of a2 \<subseteq>\<^sub>m map_of a3" "\<forall>i < n. dict_get a3 i \<noteq> None"
    using place_rest_spec [OF assms(1,2) a2(2) order_refl, of ?ns "producer_table ?ns" "consumers_table ?ns"]
    unfolding place_rest_def assms(3) by blast
  have "dict_get a3 i = List.find (\<lambda>d. cap d i = Inr True) devices" if i: "i < n" "is_heavy (?ns ! i)" for i
  proof -
    obtain d where d: "List.find (\<lambda>d. cap d i = Inr True) devices = Some d"
      using some_device [OF assms(2) i(1)] by metis
    then have "dict_get a1 i = Some d" using a1(3) i by simp
    then show ?thesis using d map_le_trans [OF a2(3) a3(3)] by (metis domI map_le_def)
  qed
  then show ?thesis using a1(1) a2(1) a3 by (simp add: place_nodes_def Let_def)
qed

end

definition known_device :: "string \<Rightarrow> bool" where
  "known_device d \<longleftrightarrow> d \<in> {CPU, ''webnn'', ''webgpu''}"

lemma hazards_no_cpu: "dict_get (hazards_by_device downs g devices) CPU = None"
proof -
  have "dict_get d CPU = None \<Longrightarrow> CPU \<notin> set ds \<Longrightarrow>
      dict_get (fold (\<lambda>x. dict_set x (device_hazards downs g x)) ds d) CPU = None" for ds d
    by (induction ds arbitrary: d) (auto simp: map_of_dict_set)
  then show ?thesis by (simp add: hazards_by_device_def)
qed

interpretation placer: capability "supported (hazards_by_device downs g devices) ns" known_device "length ns"
  for downs g devices ns
proof
  show "is_ok (supported (hazards_by_device downs g devices) ns d i)"
    if "known_device d" "i < length ns" for d i
    using that by (auto simp: supported_def known_device_def device_supports_def builtin_devices_def)
  show "supported (hazards_by_device downs g devices) ns CPU i = Inr True" if "i < length ns" for i
    using that hazards_no_cpu [of downs g devices]
    by (simp add: supported_def device_supports_def get_default_def)
qed (simp add: known_device_def)

end
