(* ===== verification/Partition_Regions.thy ===== *)
theory Partition_Regions
  imports Graph_Partition
begin

text \<open>
  The theorems on \<^verbatim>\<open>onnxsim/graph_partition.py\<close>: where nodes are placed, what the regions are,
  when a region is convex and which tensors cross between devices.
\<close>

section \<open>Convexity\<close>

definition flow :: "node list \<Rightarrow> (nat \<times> nat) set" where
  "flow ns = {(x, y). feeds ns x y}"

definition step_rel :: "nat list list \<Rightarrow> (nat \<times> nat) set" where
  "step_rel succs = {(x, y). y \<in> set (succ_of succs x)}"

lemma step_rel_successors: "step_rel (successors ns (consumers_table ns)) = flow ns"
  by (auto simp: step_rel_def flow_def succ_of_def successors_def feeds_def consumers_table_get split: if_splits)

text \<open>No walk from \<open>s\<close> enters the members.\<close>

definition stays_out :: "nat list list \<Rightarrow> nat set \<Rightarrow> nat \<Rightarrow> bool" where
  "stays_out succs members s \<longleftrightarrow> (\<forall>x y. (s, x) \<in> (step_rel succs)\<^sup>* \<longrightarrow> (x, y) \<in> step_rel succs \<longrightarrow> y \<notin> members)"

lemma stays_out_step:
  "stays_out succs members s \<longleftrightarrow>
     (\<forall>y \<in> set (succ_of succs s). y \<notin> members \<and> stays_out succs members y)"
proof -
  have "(s, x) \<in> (step_rel succs)\<^sup>* \<longleftrightarrow> x = s \<or> (\<exists>y \<in> set (succ_of succs s). (y, x) \<in> (step_rel succs)\<^sup>*)" for x
    by (metis (mono_tags, lifting) case_prodI converse_rtranclE converse_rtrancl_into_rtrancl mem_Collect_eq
        rtrancl.rtrancl_refl step_rel_def case_prodD)
  then show ?thesis unfolding stays_out_def by (auto simp: step_rel_def)
qed

lemma stays_out_closed:
  assumes "\<forall>x \<in> out. \<forall>y \<in> set (succ_of succs x). y \<notin> members \<and> (y \<in> out \<or> y \<in> st)"
    and "\<forall>s \<in> st. stays_out succs members s" and "o' \<in> out"
  shows "stays_out succs members o'"
proof -
  have "x \<in> out \<or> (\<exists>s \<in> st. (s, x) \<in> (step_rel succs)\<^sup>*)" if "(o', x) \<in> (step_rel succs)\<^sup>*" for x
    using that
  proof (induction rule: rtrancl_induct)
    case base
    then show ?case using assms(3) by simp
  next
    case (step y z)
    then show ?case using assms(1) by (auto simp: step_rel_def intro: rtrancl_into_rtrancl)
  qed
  note reach = this
  show ?thesis
    unfolding stays_out_def
  proof (intro allI impI)
    fix x y
    assume xy: "(o', x) \<in> (step_rel succs)\<^sup>*" "(x, y) \<in> step_rel succs"
    from reach [OF xy(1)] show "y \<notin> members"
      using assms(1,2) xy(2) unfolding stays_out_def by (auto simp: step_rel_def)
  qed
qed

lemma convex_loop_spec:
  "\<forall>x \<in> set out. \<forall>y \<in> set (succ_of succs x). y \<notin> members \<and> (y \<in> set out \<or> y \<in> set st) \<Longrightarrow>
     convex_loop succs members out st \<longleftrightarrow> (\<forall>s \<in> set st. stays_out succs members s)"
proof (induction succs members out st rule: convex_loop.induct)
  case (1 succs members out)
  then show ?case by simp
next
  case (2 succs members out cur st)
  show ?case
  proof (cases "cur \<in> set out")
    case True
    then have inv: "\<forall>x \<in> set out. \<forall>y \<in> set (succ_of succs x). y \<notin> members \<and> (y \<in> set out \<or> y \<in> set st)"
      using "2.prems" by auto
    then show ?thesis using "2.IH"(1) [OF True inv] True stays_out_closed [OF inv] by auto
  next
    case False
    show ?thesis
    proof (cases "\<exists>x \<in> set (succ_of succs cur). x \<in> members")
      case True
      then show ?thesis using False stays_out_step [of succs members cur] by auto
    next
      case no: False
      have "convex_loop succs members (cur # out) (rev (succ_of succs cur) @ st) \<longleftrightarrow>
          (\<forall>s \<in> set (rev (succ_of succs cur) @ st). stays_out succs members s)"
        by (rule "2.IH"(2) [OF False no]) (use "2.prems" no in auto)
      then show ?thesis using False no stays_out_step [of succs members cur] by auto
    qed
  qed
qed

text \<open>A set of nodes is convex when no path between two of its nodes leaves it.\<close>

definition convex_set :: "(nat \<times> nat) set \<Rightarrow> nat set \<Rightarrow> bool" where
  "convex_set R M \<longleftrightarrow> (\<forall>x \<in> M. \<forall>z \<in> M. \<forall>y. (x, y) \<in> R\<^sup>+ \<longrightarrow> (y, z) \<in> R\<^sup>+ \<longrightarrow> y \<in> M)"

lemma leaves_set:
  "(x, y) \<in> R\<^sup>+ \<Longrightarrow> x \<in> M \<Longrightarrow> y \<notin> M \<Longrightarrow> \<exists>u \<in> M. \<exists>v. v \<notin> M \<and> (u, v) \<in> R \<and> (v, y) \<in> R\<^sup>*"
proof (induction rule: trancl_induct)
  case (base y)
  then show ?case by blast
next
  case (step y z)
  show ?case
  proof (cases "y \<in> M")
    case True
    then show ?thesis using step.hyps(2) step.prems(2) by blast
  next
    case False
    then show ?thesis using step by (meson rtrancl_into_rtrancl)
  qed
qed

lemma is_convex_spec: "is_convex members ns (consumers_table ns) \<longleftrightarrow> convex_set (flow ns) (set members)"
proof -
  let ?S = "successors ns (consumers_table ns)" and ?M = "set members"
  have "is_convex members ns (consumers_table ns) \<longleftrightarrow>
      (\<forall>u v. u \<in> ?M \<longrightarrow> (u, v) \<in> flow ns \<longrightarrow> v \<notin> ?M \<longrightarrow> stays_out ?S ?M v)"
    by (auto simp: is_convex_def Let_def convex_loop_spec step_rel_successors [symmetric] step_rel_def)
  also have "\<dots> \<longleftrightarrow> convex_set (flow ns) ?M"
  proof
    assume L: "\<forall>u v. u \<in> ?M \<longrightarrow> (u, v) \<in> flow ns \<longrightarrow> v \<notin> ?M \<longrightarrow> stays_out ?S ?M v"
    show "convex_set (flow ns) ?M"
      unfolding convex_set_def
    proof (intro ballI allI impI, rule ccontr)
      fix x z y
      assume *: "x \<in> ?M" "z \<in> ?M" "(x, y) \<in> (flow ns)\<^sup>+" "(y, z) \<in> (flow ns)\<^sup>+" "y \<notin> ?M"
      obtain u v where "u \<in> ?M" "v \<notin> ?M" "(u, v) \<in> flow ns" "(v, y) \<in> (flow ns)\<^sup>*"
        using leaves_set [OF *(3,1,5)] by blast
      moreover from \<open>(y, z) \<in> (flow ns)\<^sup>+\<close> obtain w where "(y, w) \<in> (flow ns)\<^sup>*" "(w, z) \<in> flow ns"
        by (metis tranclD2)
      ultimately show False using L *(2) rtrancl_trans unfolding stays_out_def step_rel_successors by metis
    qed
  next
    assume R: "convex_set (flow ns) ?M"
    show "\<forall>u v. u \<in> ?M \<longrightarrow> (u, v) \<in> flow ns \<longrightarrow> v \<notin> ?M \<longrightarrow> stays_out ?S ?M v"
      unfolding stays_out_def step_rel_successors
    proof (intro allI impI notI)
      fix u v x y
      assume *: "u \<in> ?M" "(u, v) \<in> flow ns" "v \<notin> ?M" "(v, x) \<in> (flow ns)\<^sup>*" "(x, y) \<in> flow ns" "y \<in> ?M"
      then have "(u, v) \<in> (flow ns)\<^sup>+" "(v, y) \<in> (flow ns)\<^sup>+" by auto
      then show False using R * unfolding convex_set_def by blast
    qed
  qed
  finally show ?thesis .
qed


section \<open>Regions\<close>

text \<open>\<open>(p, i)\<close>: node \<open>i\<close> reads a value that node \<open>p\<close> produces, and both are on one device.\<close>

definition device_link :: "node list \<Rightarrow> (nat, string) dict \<Rightarrow> (nat \<times> nat) set" where
  "device_link ns a = {(p, i). i < length ns \<and>
     (\<exists>s \<in> set (ninput (ns ! i)). dict_get (producer_table ns) s = Some p) \<and> dict_get a p = dict_get a i}"

definition same_region :: "node list \<Rightarrow> (nat, string) dict \<Rightarrow> (nat \<times> nat) set" where
  "same_region ns a = (device_link ns a \<union> (device_link ns a)\<inverse>)\<^sup>*"

lemma fold_producer_get:
  "dict_get (fold (\<lambda>s d. if s = '''' then d else dict_set s i d) names d) k =
     (if k \<noteq> '''' \<and> k \<in> set names then Some i else dict_get d k)"
  by (induction names arbitrary: d) (auto simp: map_of_dict_set)

lemma producer_table_fold:
  "dict_get (fold (\<lambda>(i, n). fold (\<lambda>s d. if s = '''' then d else dict_set s i d) (noutput n)) xs d) k = Some p \<Longrightarrow>
     dict_get d k = Some p \<or> (\<exists>n. (p, n) \<in> set xs \<and> k \<noteq> '''' \<and> k \<in> set (noutput n))"
proof (induction xs arbitrary: d)
  case Nil
  then show ?case by simp
next
  case (Cons x xs)
  obtain i n where x: "x = (i, n)" by (cases x)
  from Cons.IH [OF Cons.prems [simplified x fold.simps comp_apply split]] show ?case
    by (auto simp: x fold_producer_get split: if_splits)
qed

lemma producer_table_get:
  assumes "dict_get (producer_table ns) s = Some p"
  shows "p < length ns \<and> s \<noteq> '''' \<and> s \<in> set (noutput (ns ! p))"
  using producer_table_fold [of "enumerate_py ns" "[]" s p] assms
  by (auto simp: producer_table_def in_set_enumerate_py)

lemma same_device_links_spec:
  assumes a: "\<forall>i < length ns. dict_get a i \<noteq> None"
  shows "\<exists>links. same_device_links ns a (producer_table ns) = Inr links \<and> set links = device_link ns a"
proof -
  let ?link = "\<lambda>i s. case dict_get (producer_table ns) s of None \<Rightarrow> []
      | Some p \<Rightarrow> if dict_get a p = dict_get a i then [(p, i)] else []"
  have one: "input_link a (producer_table ns) i s = Inr (?link i s)"
    if i: "i < length ns" for i s
  proof (cases "dict_get (producer_table ns) s")
    case None
    then show ?thesis by (simp add: input_link_def)
  next
    case (Some p)
    then have "p < length ns" using producer_table_get by blast
    then obtain dp di where "dict_get a p = Some dp" "dict_get a i = Some di" using a i by blast
    with Some show ?thesis by (simp add: input_link_def)
  qed
  have row: "rmap (input_link a (producer_table ns) i) (ninput n) = Inr (map (?link i) (ninput n))"
    if "i < length ns" for i n
    by (rule rmap_Inr) (rule one [OF that])
  have "same_device_links ns a (producer_table ns) =
      Inr (concat (concat (map (\<lambda>(i, n). map (?link i) (ninput n)) (enumerate_py ns))))"
    unfolding same_device_links_def
    by (subst rmap_Inr [where g = "\<lambda>(i, n). map (?link i) (ninput n)"])
      (auto simp: in_set_enumerate_py row)
  moreover have "set (concat (concat (map (\<lambda>(i, n). map (?link i) (ninput n)) (enumerate_py ns)))) =
      device_link ns a"
  proof -
    have mem: "e \<in> set (?link i s) \<longleftrightarrow> (\<exists>p. e = (p, i) \<and> dict_get (producer_table ns) s = Some p \<and> dict_get a p = dict_get a i)"
      for e i s by (cases "dict_get (producer_table ns) s") auto
    show ?thesis unfolding device_link_def set_concat_rows mem in_set_enumerate_py by blast
  qed
  ultimately show ?thesis by blast
qed

lemma same_region_device:
  "(x, y) \<in> same_region ns a \<Longrightarrow> dict_get a x = dict_get a y"
  unfolding same_region_def by (induction rule: rtrancl_induct) (auto simp: device_link_def)

lemma linked_initially:
  assumes "\<forall>(x, y) \<in> set es. x < n \<and> y < n"
  shows "uf.linked [0..<n] es = (set es \<union> (set es)\<inverse>)\<^sup>*"
proof -
  have "{(x, y). x < length [0..<n] \<and> y < length [0..<n] \<and> uf_rep [0..<n] x = uf_rep [0..<n] y} \<subseteq> Id"
    using uf_init(2) by auto
  then have "uf.linked [0..<n] es \<subseteq> (Id \<union> (set es \<union> (set es)\<inverse>))\<^sup>*"
    unfolding uf.linked_def by (intro rtrancl_mono) blast
  moreover have "(Id \<union> (set es \<union> (set es)\<inverse>))\<^sup>* = (set es \<union> (set es)\<inverse>)\<^sup>*"
    by (metis Un_commute rtrancl_reflcl)
  moreover have "(set es \<union> (set es)\<inverse>)\<^sup>* \<subseteq> uf.linked [0..<n] es"
    unfolding uf.linked_def by (rule rtrancl_mono) blast
  ultimately show ?thesis by blast
qed

text \<open>The groups of \<^verbatim>\<open>_partitions\<close> are the classes of \<open>same_region\<close>, in order.\<close>

lemma region_groups:
  assumes "\<forall>i < length ns. dict_get a i \<noteq> None"
  obtains links parent groups where
    "same_device_links ns a (producer_table ns) = Inr links"
    "uf_unions [0..<length ns] links = Some parent"
    "uf_groups parent [0..<length ns] [] = Some groups"
    "distinct (dict_keys groups)"
    "\<And>x y. x < length ns \<Longrightarrow> y < length ns \<Longrightarrow> uf_rep parent x = uf_rep parent y \<longleftrightarrow> (x, y) \<in> same_region ns a"
    "set (dict_keys groups) = uf_rep parent ` {0..<length ns}"
    "\<And>r xs. (r, xs) \<in> set groups \<Longrightarrow> xs = filter (\<lambda>i. uf_rep parent i = r) [0..<length ns]"
proof -
  let ?n = "length ns"
  obtain links where links: "same_device_links ns a (producer_table ns) = Inr links" "set links = device_link ns a"
    using same_device_links_spec [OF assms] by blast
  have bnd: "\<forall>(x, y) \<in> set links. x < ?n \<and> y < ?n"
    using links(2) producer_table_get by (fastforce simp: device_link_def)
  then obtain parent where parent: "uf_unions [0..<?n] links = Some parent" "uf_ok parent" "length parent = ?n"
      "\<forall>x < ?n. \<forall>y < ?n. uf_rep parent x = uf_rep parent y \<longleftrightarrow> (x, y) \<in> uf.linked [0..<?n] links"
    using uf.unions_law [OF uf_init(1) [of ?n], of links] by auto
  obtain groups where groups: "uf_groups parent [0..<?n] [] = Some groups" "distinct (dict_keys groups)"
      "set (dict_keys groups) = uf_rep parent ` {0..<?n}"
      "\<forall>r. get_default groups r [] = filter (\<lambda>i. uf_rep parent i = r) [0..<?n]"
    using uf.groups_law [OF parent(2), of "[0..<?n]" "[]"] parent(3) by auto
  have "xs = filter (\<lambda>i. uf_rep parent i = r) [0..<?n]" if "(r, xs) \<in> set groups" for r xs
  proof -
    have "dict_get groups r = Some xs" using that groups(2) by simp
    then show ?thesis using groups(4) by (metis get_default_def option.simps(5))
  qed
  then show thesis
    using that [OF links(1) parent(1) groups(1,2) _ groups(3)] parent(4) linked_initially [OF bnd] links(2)
    by (auto simp: same_region_def)
qed


text \<open>
  What \<^verbatim>\<open>_partitions\<close> promises: the regions cover the nodes, each region is one class of
  connected same-device nodes in graph order with the device of its nodes, regions come in the order
  of their first node, and the flag says whether the region is convex.
\<close>

definition region_ok :: "node list \<Rightarrow> (nat, string) dict \<Rightarrow> partition \<Rightarrow> bool" where
  "region_ok ns a p \<longleftrightarrow> node_indices p \<noteq> [] \<and> sorted (node_indices p) \<and> distinct (node_indices p) \<and>
     (\<forall>x \<in> set (node_indices p). x < length ns \<and> dict_get a x = Some (device p) \<and>
        set (node_indices p) = {y. y < length ns \<and> (x, y) \<in> same_region ns a}) \<and>
     (convex p \<longleftrightarrow> convex_set (flow ns) (set (node_indices p)))"

lemma make_partition_spec:
  assumes "\<forall>i < length ns. dict_get a i \<noteq> None"
    and rep: "\<And>x y. x < length ns \<Longrightarrow> y < length ns \<Longrightarrow> f x = f y \<longleftrightarrow> (x, y) \<in> same_region ns a"
    and r: "r \<in> f ` {0..<length ns}" and xs: "xs = filter (\<lambda>i. f i = r) [0..<length ns]"
  shows "\<exists>p. make_partition ns a (consumers_table ns) xs = Inr p \<and> node_indices p = xs \<and> region_ok ns a p"
proof -
  have ne: "xs \<noteq> []" using r by (auto simp: xs filter_empty_conv)
  have srt: "sorted xs" "distinct xs" by (auto simp: xs sorted_wrt_filter)
  obtain m ms where m: "xs = m # ms" using ne by (cases xs) auto
  have mem: "x \<in> set xs \<longleftrightarrow> x < length ns \<and> f x = r" for x by (auto simp: xs)
  then have "m < length ns" using m by auto
  then obtain d where d: "dict_get a m = Some d" using assms(1) by blast
  have same: "(x, y) \<in> same_region ns a" if "x \<in> set xs" "y \<in> set xs" for x y
    using that rep [of x y] by (simp add: mem)
  have dev: "dict_get a x = Some d" if "x \<in> set xs" for x
    using same_region_device [OF same [OF _ that], of m] m d by simp
  have cls: "set xs = {y. y < length ns \<and> (x, y) \<in> same_region ns a}" if "x \<in> set xs" for x
    using that by (auto simp: mem rep [symmetric])
  let ?p = "\<lparr>device = d, node_indices = xs, convex = is_convex xs ns (consumers_table ns)\<rparr>"
  have "make_partition ns a (consumers_table ns) xs = Inr ?p"
    using d m srt(1) sorted_sort_id [of xs] by (simp add: make_partition_def Let_def)
  moreover have "region_ok ns a ?p"
    unfolding region_ok_def using ne srt dev cls mem by (auto simp: is_convex_spec)
  ultimately show ?thesis by auto
qed

lemma partitions_spec:
  assumes a: "\<forall>i < length ns. dict_get a i \<noteq> None"
  shows "\<exists>ps. partitions ns a (producer_table ns) (consumers_table ns) = Inr ps \<and>
    (\<forall>p \<in> set ps. region_ok ns a p) \<and>
    (\<forall>i < length ns. \<exists>p \<in> set ps. i \<in> set (node_indices p)) \<and>
    distinct (map node_indices ps) \<and> sorted (map (\<lambda>p. hd (node_indices p)) ps)"
proof -
  obtain links parent groups where g:
    "same_device_links ns a (producer_table ns) = Inr links"
    "uf_unions [0..<length ns] links = Some parent"
    "uf_groups parent [0..<length ns] [] = Some groups"
    "distinct (dict_keys groups)"
    and rep: "\<And>x y. x < length ns \<Longrightarrow> y < length ns \<Longrightarrow> uf_rep parent x = uf_rep parent y \<longleftrightarrow> (x, y) \<in> same_region ns a"
    and keys: "set (dict_keys groups) = uf_rep parent ` {0..<length ns}"
    and members: "\<And>r xs. (r, xs) \<in> set groups \<Longrightarrow> xs = filter (\<lambda>i. uf_rep parent i = r) [0..<length ns]"
    by (rule region_groups [OF a]) (rule that)
  have one: "\<exists>p. make_partition ns a (consumers_table ns) xs = Inr p \<and> node_indices p = xs \<and> region_ok ns a p"
    if "(r, xs) \<in> set groups" for r xs
    using make_partition_spec [OF a rep _ members [OF that]] keys that by (metis fst_conv imageI list.set_map)
  have "is_ok (rmap (make_partition ns a (consumers_table ns)) (map snd groups))"
  proof -
    have "is_ok (make_partition ns a (consumers_table ns) xs)" if "(r, xs) \<in> set groups" for r xs
      using one [OF that] by auto
    then show ?thesis by (auto simp: rmap_ok_iff)
  qed
  then obtain ps where ps: "rmap (make_partition ns a (consumers_table ns)) (map snd groups) = Inr ps"
    by (auto simp: is_ok_iff)
  have len: "length ps = length groups" using rmap_length [OF ps] by simp
  have nth: "node_indices (ps ! k) = snd (groups ! k) \<and> region_ok ns a (ps ! k)" if "k < length groups" for k
    using rmap_nth [OF ps, of k] one [of "fst (groups ! k)" "snd (groups ! k)"] that by auto
  have idx: "map node_indices ps = map snd groups" using len nth by (auto intro: nth_equalityI)
  have "distinct (map snd groups)"
  proof -
    have "inj_on (\<lambda>r. filter (\<lambda>i. uf_rep parent i = r) [0..<length ns]) (set (dict_keys groups))"
    proof (rule inj_onI)
      fix r r'
      assume r: "r \<in> set (dict_keys groups)"
        and eq: "filter (\<lambda>i. uf_rep parent i = r) [0..<length ns] = filter (\<lambda>i. uf_rep parent i = r') [0..<length ns]"
      from r obtain i where "i < length ns" "uf_rep parent i = r" unfolding keys by auto
      then have "i \<in> set (filter (\<lambda>i. uf_rep parent i = r) [0..<length ns])" by simp
      then have "i \<in> set (filter (\<lambda>i. uf_rep parent i = r') [0..<length ns])" unfolding eq .
      then show "r = r'" using \<open>uf_rep parent i = r\<close> by simp
    qed
    moreover have "map snd groups = map (\<lambda>r. filter (\<lambda>i. uf_rep parent i = r) [0..<length ns]) (dict_keys groups)"
      using members by (auto simp: comp_def)
    ultimately show ?thesis using g(4) by (metis distinct_map)
  qed
  then have dist: "distinct (map node_indices (sort_key (\<lambda>p. hd (node_indices p)) ps))"
    using idx by (metis distinct_map distinct_sort set_sort)
  have cover: "\<exists>p \<in> set ps. i \<in> set (node_indices p)" if "i < length ns" for i
  proof -
    have "uf_rep parent i \<in> set (dict_keys groups)" using keys that by auto
    then obtain xs where xs: "(uf_rep parent i, xs) \<in> set groups" by auto
    then have "i \<in> set xs" using that by (subst members [OF xs]) simp
    moreover have "xs \<in> set (map node_indices ps)" using idx xs by (metis imageI list.set_map snd_conv)
    ultimately show ?thesis by auto
  qed
  have "\<forall>p \<in> set ps. region_ok ns a p" using nth len by (metis in_set_conv_nth)
  then show ?thesis using g(1-3) ps dist cover by (simp add: partitions_def)
qed

section \<open>Boundaries\<close>

text \<open>Every size that is added up is a number.\<close>

definition numeric_sizes :: "partition_env \<Rightarrow> (string, sdim list) dict \<Rightarrow> (string, int) dict \<Rightarrow> bool" where
  "numeric_sizes env shapes dtypes \<longleftrightarrow>
     (\<forall>name m. tensor_bytes name shapes dtypes = Some m \<longrightarrow> is_ok (int_of_macs env m))"

text \<open>The sum of the sizes of the crossings, unknown when one is.\<close>

definition crossing_bytes ::
    "partition_env \<Rightarrow> (string, sdim list) dict \<Rightarrow> (string, int) dict \<Rightarrow> crossing list \<Rightarrow> int option" where
  "crossing_bytes env shapes dtypes cs =
     (if \<forall>c \<in> set cs. tensor_bytes (fst c) shapes dtypes \<noteq> None
      then Some (\<Sum>c\<leftarrow>cs. case tensor_bytes (fst c) shapes dtypes of None \<Rightarrow> 0
             | Some m \<Rightarrow> (case int_of_macs env m of Inl _ \<Rightarrow> 0 | Inr v \<Rightarrow> v))
      else None)"

lemma crossing_bytes_snoc:
  assumes "numeric_sizes env shapes dtypes"
  shows "add_bytes env (crossing_bytes env shapes dtypes cs) (tensor_bytes (fst c) shapes dtypes) =
    Inr (crossing_bytes env shapes dtypes (cs @ [c]))"
proof (cases "tensor_bytes (fst c) shapes dtypes")
  case None
  then show ?thesis by (auto simp: add_bytes_def crossing_bytes_def)
next
  case (Some m)
  then obtain v where "int_of_macs env m = Inr v" using assms unfolding numeric_sizes_def is_ok_iff by blast
  with Some show ?thesis by (auto simp: add_bytes_def crossing_bytes_def)
qed

definition reads :: "(nat, string) dict \<Rightarrow> string \<Rightarrow> nat list \<Rightarrow> string set" where
  "reads a src readers = {d. d \<noteq> src \<and> (\<exists>c \<in> set readers. dict_get a c = Some d)}"

lemma reads_simps:
  "reads a src [] = {}"
  "dict_get a c = Some d \<Longrightarrow> reads a src (c # cs) = (if d = src then {} else {d}) \<union> reads a src cs"
  by (auto simp: reads_def)

text \<open>The readers of one tensor add one crossing per device other than the producer's.\<close>

lemma reader_loop:
  assumes num: "numeric_sizes env shapes dtypes" and "\<forall>c \<in> set readers. dict_get a c \<noteq> None"
    and "\<forall>d \<in> set seen. d \<noteq> src" and "set seen = {d. (name, src, d) \<in> set bs}" and "distinct bs"
  shows "\<exists>seen' bs'. rfold (reader_step env a shapes dtypes name src) (seen, bs, crossing_bytes env shapes dtypes bs) readers =
      Inr (seen', bs', crossing_bytes env shapes dtypes bs') \<and> distinct bs' \<and>
    set bs' = set bs \<union> (\<lambda>d. (name, src, d)) ` reads a src readers"
  using assms(2-)
proof (induction readers arbitrary: seen bs)
  case Nil
  then show ?case by (simp add: reads_simps)
next
  case (Cons c readers)
  then obtain dst where dst: "dict_get a c = Some dst" by auto
  show ?case
  proof (cases "dst = src \<or> dst \<in> set seen")
    case True
    with dst have "reader_step env a shapes dtypes name src (seen, bs, crossing_bytes env shapes dtypes bs) c =
        Inr (seen, bs, crossing_bytes env shapes dtypes bs)" by (simp add: reader_step_def)
    moreover have "dst = src \<or> (name, src, dst) \<in> set bs" using True Cons.prems(3) by auto
    ultimately show ?thesis using Cons.IH [of seen bs] Cons.prems dst by (auto simp: reads_simps)
  next
    case False
    let ?bs = "bs @ [(name, src, dst)]"
    have step: "reader_step env a shapes dtypes name src (seen, bs, crossing_bytes env shapes dtypes bs) c =
        Inr (dst # seen, ?bs, crossing_bytes env shapes dtypes ?bs)"
      using dst False crossing_bytes_snoc [OF num, of bs "(name, src, dst)"] by (simp add: reader_step_def)
    have "(name, src, dst) \<notin> set bs" using False Cons.prems(3) by auto
    then have "\<exists>seen' bs'. rfold (reader_step env a shapes dtypes name src) (dst # seen, ?bs, crossing_bytes env shapes dtypes ?bs) readers =
        Inr (seen', bs', crossing_bytes env shapes dtypes bs') \<and> distinct bs' \<and>
      set bs' = set ?bs \<union> (\<lambda>d. (name, src, d)) ` reads a src readers"
      using False Cons.prems by (intro Cons.IH) auto
    then show ?thesis using step dst False by (auto simp: reads_simps)
  qed
qed

text \<open>A crossing: a tensor, the device of its producer and another device that reads it.\<close>

definition crossings ::
    "(nat, string) dict \<Rightarrow> (string, nat) dict \<Rightarrow> (string, nat list) dict \<Rightarrow> crossing set" where
  "crossings a producer consumers = {(name, src, dst) | name src dst p readers c.
     (name, readers) \<in> set consumers \<and> dict_get producer name = Some p \<and> dict_get a p = Some src \<and>
     c \<in> set readers \<and> dict_get a c = Some dst \<and> dst \<noteq> src}"

lemma name_step_spec:
  assumes num: "numeric_sizes env shapes dtypes"
    and "\<forall>c \<in> set readers. dict_get a c \<noteq> None"
    and "\<And>p. dict_get producer name = Some p \<Longrightarrow> dict_get a p \<noteq> None"
    and "\<forall>src d. (name, src, d) \<notin> set bs" and "distinct bs"
  shows "\<exists>bs'. name_step env a producer shapes dtypes (bs, crossing_bytes env shapes dtypes bs) (name, readers) =
      Inr (bs', crossing_bytes env shapes dtypes bs') \<and> distinct bs' \<and>
    set bs' = set bs \<union> crossings a producer [(name, readers)]"
proof (cases "dict_get producer name")
  case None
  then show ?thesis using assms(5) by (auto simp: name_step_def crossings_def)
next
  case (Some p)
  then obtain src where src: "dict_get a p = Some src" using assms(3) by blast
  obtain seen' bs' where loop: "rfold (reader_step env a shapes dtypes name src) ([], bs, crossing_bytes env shapes dtypes bs) readers =
      Inr (seen', bs', crossing_bytes env shapes dtypes bs')" "distinct bs'"
    "set bs' = set bs \<union> (\<lambda>d. (name, src, d)) ` reads a src readers"
    using reader_loop [OF num assms(2), of "[]" src name bs] assms(4,5) by auto
  then show ?thesis using Some src assms(5)
    by (cases "readers = []") (auto simp: name_step_def crossings_def reads_def)
qed

lemma boundaries_loop:
  assumes num: "numeric_sizes env shapes dtypes"
    and "\<forall>(name, readers) \<in> set cs. \<forall>c \<in> set readers. dict_get a c \<noteq> None"
    and prod: "\<And>name p. dict_get producer name = Some p \<Longrightarrow> dict_get a p \<noteq> None"
    and "distinct (dict_keys cs)" and "\<forall>b \<in> set bs. fst b \<notin> set (dict_keys cs)" and "distinct bs"
  shows "\<exists>bs'. rfold (name_step env a producer shapes dtypes) (bs, crossing_bytes env shapes dtypes bs) cs =
      Inr (bs', crossing_bytes env shapes dtypes bs') \<and> distinct bs' \<and> set bs' = set bs \<union> crossings a producer cs"
  using assms(2,4-)
proof (induction cs arbitrary: bs)
  case Nil
  then show ?case by (simp add: crossings_def)
next
  case (Cons x cs)
  obtain name readers where x: "x = (name, readers)" by (cases x)
  obtain bs1 where bs1: "name_step env a producer shapes dtypes (bs, crossing_bytes env shapes dtypes bs) (name, readers) =
      Inr (bs1, crossing_bytes env shapes dtypes bs1)" "distinct bs1"
      "set bs1 = set bs \<union> crossings a producer [(name, readers)]"
    using name_step_spec [OF num, of readers a producer name bs] prod Cons.prems x by fastforce
  have "\<forall>b \<in> set bs1. fst b \<notin> set (dict_keys cs)"
  proof
    fix b
    assume "b \<in> set bs1"
    then have "b \<in> set bs \<or> fst b = name" using bs1(3) by (auto simp: crossings_def)
    then show "fst b \<notin> set (dict_keys cs)" using Cons.prems(2,3) x by auto
  qed
  then obtain bs2 where bs2: "rfold (name_step env a producer shapes dtypes) (bs1, crossing_bytes env shapes dtypes bs1) cs =
      Inr (bs2, crossing_bytes env shapes dtypes bs2)" "distinct bs2" "set bs2 = set bs1 \<union> crossings a producer cs"
    using Cons.IH [of bs1] Cons.prems bs1(2) by auto
  have "crossings a producer (x # cs) = crossings a producer [x] \<union> crossings a producer cs"
    unfolding crossings_def by (auto; blast)
  then show ?case using bs1 bs2 by (auto simp: x)
qed


section \<open>The plan\<close>

lemma consumers_table_distinct: "distinct (dict_keys (consumers_table ns))"
proof -
  have "distinct (dict_keys (index_names i names d))" if "distinct (dict_keys d)" for i names d
    using that unfolding index_names_def
    by (induction names arbitrary: d) (auto intro: distinct_dict_append)
  then have "distinct (dict_keys (fold (\<lambda>(i, n). index_names i (ninput n)) xs d))"
    if "distinct (dict_keys d)" for xs d
    using that by (induction xs arbitrary: d) auto
  then show ?thesis unfolding consumers_table_def by simp
qed

lemma consumers_table_readers:
  assumes "(name, readers) \<in> set (consumers_table ns)" "c \<in> set readers"
  shows "c < length ns"
proof -
  have "dict_get (consumers_table ns) name = Some readers"
    using assms(1) consumers_table_distinct by (intro map_of_is_SomeI)
  then have "c \<in> set (get_default (consumers_table ns) name [])" using assms(2) by (simp add: get_default_def)
  then show ?thesis by (simp add: consumers_table_get)
qed

lemma boundaries_spec:
  assumes "numeric_sizes env shapes dtypes" and a: "\<forall>i < length ns. dict_get a i \<noteq> None"
  shows "\<exists>bs. boundaries env a (producer_table ns) (consumers_table ns) shapes dtypes =
      Inr (bs, crossing_bytes env shapes dtypes bs) \<and> distinct bs \<and>
    set bs = crossings a (producer_table ns) (consumers_table ns)"
proof -
  have start: "crossing_bytes env shapes dtypes [] = Some 0" by (simp add: crossing_bytes_def)
  have readers: "\<forall>(name, readers) \<in> set (consumers_table ns). \<forall>c \<in> set readers. dict_get a c \<noteq> None"
    using consumers_table_readers a by blast
  have producers: "\<And>name p. dict_get (producer_table ns) name = Some p \<Longrightarrow> dict_get a p \<noteq> None"
    using producer_table_get a by blast
  show ?thesis
    using boundaries_loop [where producer = "producer_table ns" and bs = "[]",
        OF assms(1) readers producers consumers_table_distinct] start
    by (simp add: boundaries_def)
qed

abbreviation plan_graph :: "partition_env \<Rightarrow> model \<Rightarrow> graph" where
  "plan_graph env m \<equiv> mgraph (infer_shapes env m)"

abbreviation plan_shapes :: "partition_env \<Rightarrow> model \<Rightarrow> (string, sdim list) dict" where
  "plan_shapes env m \<equiv> collect_shapes (has_sympy env) (plan_graph env m) []"

abbreviation plan_dtypes :: "partition_env \<Rightarrow> model \<Rightarrow> (string, int) dict" where
  "plan_dtypes env m \<equiv> collect_dtypes (elem_size env) (plan_graph env m) []"

abbreviation plan_cap :: "partition_env \<Rightarrow> model \<Rightarrow> string \<Rightarrow> string list \<Rightarrow> string \<Rightarrow> nat \<Rightarrow> bool res" where
  "plan_cap env m primary fallback \<equiv>
     supported (hazards_by_device (downsamples env) (mgraph m) (device_order primary fallback))
       (gnode (plan_graph env m))"

lemma device_order_props:
  "CPU \<in> set (device_order primary fallback)"
  "set (device_order primary fallback) = {primary, CPU} \<union> set fallback"
  by (auto simp: device_order_def Let_def)

lemma partition_graph_plan:
  fixes env :: partition_env and m :: model
  defines "ns \<equiv> gnode (plan_graph env m)"
  assumes "known_device primary" and "\<forall>d \<in> set fallback. known_device d"
    and num: "numeric_sizes env (plan_shapes env m) (plan_dtypes env m)"
  obtains plan where "partition_graph env m primary fallback = Inr plan"
    "\<And>i. i < length ns \<Longrightarrow> dict_get (assignment plan) i \<noteq> None"
    "\<And>i d. dict_get (assignment plan) i = Some d \<Longrightarrow> i < length ns \<and>
       d \<in> set (device_order primary fallback) \<and> plan_cap env m primary fallback d i = Inr True"
    "\<And>i. i < length ns \<Longrightarrow> is_heavy (ns ! i) \<Longrightarrow> dict_get (assignment plan) i =
       List.find (\<lambda>d. plan_cap env m primary fallback d i = Inr True) (device_order primary fallback)"
    "partitions ns (assignment plan) (producer_table ns) (consumers_table ns) = Inr (regions plan)"
    "boundaries env (assignment plan) (producer_table ns) (consumers_table ns) (plan_shapes env m)
       (plan_dtypes env m) = Inr (boundary_tensors plan, transfer_bytes plan)"
proof -
  let ?ds = "device_order primary fallback"
  have known: "\<forall>d \<in> set ?ds. known_device d"
    using assms(2,3) by (auto simp: device_order_props known_device_def)
  obtain a where a: "place_nodes (plan_cap env m primary fallback) ?ds (plan_graph env m) = Inr a"
      "placer.placed_ok (downsamples env) (mgraph m) ?ds ns ?ds a"
      "\<forall>i < length ns. dict_get a i \<noteq> None"
      "\<forall>i < length ns. is_heavy (ns ! i) \<longrightarrow> dict_get a i =
        List.find (\<lambda>d. plan_cap env m primary fallback d i = Inr True) ?ds"
    using placer.place_nodes_spec [OF known device_order_props(1) refl,
        of "downsamples env" "mgraph m" ?ds "plan_graph env m"]
    unfolding ns_def by blast
  obtain ps where ps: "partitions ns a (producer_table ns) (consumers_table ns) = Inr ps"
    using partitions_spec [OF a(3)] by blast
  obtain bs t where bs: "boundaries env a (producer_table ns) (consumers_table ns) (plan_shapes env m)
       (plan_dtypes env m) = Inr (bs, t)"
    using boundaries_spec [OF num a(3)] by blast
  have ok: "\<And>i d. dict_get a i = Some d \<Longrightarrow> i < length ns \<and> d \<in> set ?ds \<and> plan_cap env m primary fallback d i = Inr True"
    using a(2) unfolding placer.placed_ok_def ns_def by blast
  obtain plan where plan: "partition_graph env m primary fallback = Inr plan" "assignment plan = a"
      "regions plan = ps" "boundary_tensors plan = bs" "transfer_bytes plan = t"
    using a(1) ps bs unfolding ns_def by (simp add: partition_graph_def Let_def)
  show thesis
    by (rule that [of plan]) (use plan a(3,4) ok ps bs in auto)
qed

text \<open>
  The devices a node may be placed on, read off the operator tables and the checkers: the CPU, or a device that lists the operator
  and whose checker does not flag the node.
\<close>

definition may_run :: "partition_env \<Rightarrow> model \<Rightarrow> string \<Rightarrow> nat \<Rightarrow> bool" where
  "may_run env m d i \<longleftrightarrow> d = CPU \<or>
     (let n = gnode (plan_graph env m) ! i in
      (if is_std_domain n then op_type n \<in> set (get_default builtin_devices d [])
       else (ndomain n, op_type n) \<in> set (get_default contrib_ops d [])) \<and>
      i \<notin> set (device_hazards (downsamples env) (mgraph m) d))"

lemma hazards_by_device_get:
  "d \<noteq> CPU \<Longrightarrow> d \<in> set devices \<Longrightarrow> get_default (hazards_by_device downs g devices) d [] = device_hazards downs g d"
proof -
  have "dict_get (fold (\<lambda>d. dict_set d (f d)) ds []) d = (if d \<in> set ds then Some (f d) else None)" for f :: "string \<Rightarrow> nat list" and ds
    by (induction ds rule: rev_induct) (auto simp: dict_simps)
  then show "d \<noteq> CPU \<Longrightarrow> d \<in> set devices \<Longrightarrow> get_default (hazards_by_device downs g devices) d [] = device_hazards downs g d"
    by (simp add: hazards_by_device_def get_default_def)
qed

lemma plan_cap_may_run:
  assumes "known_device d" "d \<in> set (device_order primary fallback)" "i < length (gnode (plan_graph env m))"
  shows "plan_cap env m primary fallback d i = Inr True \<longleftrightarrow> may_run env m d i"
proof (cases "d = CPU")
  case True
  then show ?thesis using assms(3) hazards_no_cpu [of "downsamples env" "mgraph m" "device_order primary fallback"]
    by (simp add: may_run_def supported_def device_supports_def get_default_def)
next
  case False
  then obtain ops where "dict_get builtin_devices d = Some ops" using assms(1) by (auto simp: known_device_def builtin_devices_def)
  then show ?thesis using False assms(3) hazards_by_device_get [OF False assms(2), of "downsamples env" "mgraph m"]
    by (simp add: may_run_def supported_def device_supports_def Let_def get_default_def [of builtin_devices])
qed

text \<open>
  C5. Placement. For the built-in devices and numeric tensor sizes, \<^verbatim>\<open>partition_graph\<close> returns a
  plan that gives every node exactly one device of the priority list, the CPU or a device whose operator table lists
  the node and whose checker does not flag it, and places every heavy op on the first such device.
\<close>

theorem partition_graph_places_every_node:
  assumes "known_device primary" and "\<forall>d \<in> set fallback. known_device d"
    and "numeric_sizes env (plan_shapes env m) (plan_dtypes env m)"
  shows "\<exists>plan. partition_graph env m primary fallback = Inr plan \<and>
    set (dict_keys (assignment plan)) = {0..<length (gnode (plan_graph env m))} \<and>
    (\<forall>i d. dict_get (assignment plan) i = Some d \<longrightarrow>
       d \<in> set (device_order primary fallback) \<and> may_run env m d i) \<and>
    (\<forall>i < length (gnode (plan_graph env m)). is_heavy (gnode (plan_graph env m) ! i) \<longrightarrow>
       dict_get (assignment plan) i = List.find (\<lambda>d. may_run env m d i) (device_order primary fallback))"
proof (rule partition_graph_plan [OF assms])
  fix plan
  assume plan: "partition_graph env m primary fallback = Inr plan"
    and all: "\<And>i. i < length (gnode (plan_graph env m)) \<Longrightarrow> dict_get (assignment plan) i \<noteq> None"
    and ok: "\<And>i d. dict_get (assignment plan) i = Some d \<Longrightarrow> i < length (gnode (plan_graph env m)) \<and>
       d \<in> set (device_order primary fallback) \<and> plan_cap env m primary fallback d i = Inr True"
    and heavy: "\<And>i. i < length (gnode (plan_graph env m)) \<Longrightarrow> is_heavy (gnode (plan_graph env m) ! i) \<Longrightarrow>
       dict_get (assignment plan) i =
       List.find (\<lambda>d. plan_cap env m primary fallback d i = Inr True) (device_order primary fallback)"
  have "i \<in> set (dict_keys (assignment plan)) \<longleftrightarrow> i \<in> {0..<length (gnode (plan_graph env m))}" for i
    using all [of i] ok [of i] map_of_eq_None_iff [of "assignment plan" i]
    by (cases "dict_get (assignment plan) i") auto
  then have keys: "set (dict_keys (assignment plan)) = {0..<length (gnode (plan_graph env m))}" by blast
  have known: "known_device d" if "d \<in> set (device_order primary fallback)" for d
    using that assms(1,2) by (auto simp: device_order_props known_device_def)
  have placed: "d \<in> set (device_order primary fallback) \<and> may_run env m d i" if "dict_get (assignment plan) i = Some d" for i d
    using ok [OF that] plan_cap_may_run [OF known, of d primary fallback i env m] by simp
  have first: "dict_get (assignment plan) i = List.find (\<lambda>d. may_run env m d i) (device_order primary fallback)"
    if "i < length (gnode (plan_graph env m))" "is_heavy (gnode (plan_graph env m) ! i)" for i
    unfolding heavy [OF that] by (rule find_cong [OF refl]) (use plan_cap_may_run known that(1) in blast)
  show ?thesis using plan keys placed first by blast
qed

text \<open>
  C6. Regions. The partitions of the plan are non-empty, cover the graph, and each is exactly one class of
  nodes connected by same-device producer/consumer edges, in graph order, labelled with the
  device of its nodes; \<^verbatim>\<open>convex\<close> holds exactly when no path leaves the region and re-enters it;
  they are listed by their first node.
\<close>

theorem partition_graph_regions:
  assumes "known_device primary" and "\<forall>d \<in> set fallback. known_device d"
    and "numeric_sizes env (plan_shapes env m) (plan_dtypes env m)"
  shows "\<exists>plan. partition_graph env m primary fallback = Inr plan \<and>
    (\<forall>p \<in> set (regions plan). region_ok (gnode (plan_graph env m)) (assignment plan) p) \<and>
    (\<forall>i < length (gnode (plan_graph env m)). \<exists>p \<in> set (regions plan). i \<in> set (node_indices p)) \<and>
    distinct (map node_indices (regions plan)) \<and> sorted (map (\<lambda>p. hd (node_indices p)) (regions plan))"
proof (rule partition_graph_plan [OF assms])
  fix plan
  let ?ns = "gnode (plan_graph env m)"
  assume plan: "partition_graph env m primary fallback = Inr plan"
    and all: "\<And>i. i < length ?ns \<Longrightarrow> dict_get (assignment plan) i \<noteq> None"
    and ps: "partitions ?ns (assignment plan) (producer_table ?ns) (consumers_table ?ns) = Inr (regions plan)"
  from all have "\<forall>i < length ?ns. dict_get (assignment plan) i \<noteq> None" by blast
  from partitions_spec [OF this] plan ps show ?thesis by auto
qed

text \<open>
  C7. Boundaries. The boundary list has every tensor that a node on another device reads, once per
  reading device and with the two devices, and nothing else; \<^verbatim>\<open>transfer_bytes\<close> is the sum of the
  sizes of these tensors, or None when the size of one of them is unknown.
\<close>

theorem partition_graph_boundaries:
  assumes "known_device primary" and "\<forall>d \<in> set fallback. known_device d"
    and "numeric_sizes env (plan_shapes env m) (plan_dtypes env m)"
  shows "\<exists>plan. partition_graph env m primary fallback = Inr plan \<and>
    distinct (boundary_tensors plan) \<and>
    set (boundary_tensors plan) = crossings (assignment plan) (producer_table (gnode (plan_graph env m)))
       (consumers_table (gnode (plan_graph env m))) \<and>
    transfer_bytes plan = crossing_bytes env (plan_shapes env m) (plan_dtypes env m) (boundary_tensors plan)"
proof (rule partition_graph_plan [OF assms])
  fix plan
  let ?ns = "gnode (plan_graph env m)"
  assume plan: "partition_graph env m primary fallback = Inr plan"
    and all: "\<And>i. i < length ?ns \<Longrightarrow> dict_get (assignment plan) i \<noteq> None"
    and bs: "boundaries env (assignment plan) (producer_table ?ns) (consumers_table ?ns) (plan_shapes env m)
       (plan_dtypes env m) = Inr (boundary_tensors plan, transfer_bytes plan)"
  from all have "\<forall>i < length ?ns. dict_get (assignment plan) i \<noteq> None" by blast
  from boundaries_spec [OF assms(3) this] plan bs show ?thesis by auto
qed

text \<open>A convolution and an activation, followed by an operator that WebGPU does not run.\<close>

definition demo_env :: partition_env where
  "demo_env = \<lparr>downsamples = (\<lambda>_. False), infer_shapes = (\<lambda>m. m), has_sympy = False,
     elem_size = (\<lambda>_. Some 4), int_of_macs = (\<lambda>(c, _). Inr c)\<rparr>"

definition demo_shape :: "odim list \<Rightarrow> string \<Rightarrow> value_info" where
  "demo_shape ds s = \<lparr>vname = s, elem_type_of = FLOAT, vshape = Some ds\<rparr>"

definition demo_model :: "odim list \<Rightarrow> model" where
  "demo_model ds = \<lparr>ir_version = 8, opset_import = [], mgraph =
     Graph [simple_node ''Conv'' [''x'', ''w''] [''a''], simple_node ''Relu'' [''a''] [''b''],
            simple_node ''NonZero'' [''b''] [''c'']]
       [] [] [demo_shape ds ''a'', demo_shape ds ''b''] []\<rparr>"

lemma demo_numeric: "numeric_sizes demo_env shapes dtypes"
  by (auto simp: numeric_sizes_def demo_env_def)

theorem partition_graph_places_every_node_witness:
  "\<exists>plan. partition_graph demo_env (demo_model [DimValue 2]) ''webgpu'' [] = Inr plan \<and>
     set (dict_keys (assignment plan)) = {0..<3}"
  using partition_graph_places_every_node [of "''webgpu''" "[]" demo_env "demo_model [DimValue 2]", OF _ _ demo_numeric]
  by (auto simp: known_device_def demo_env_def demo_model_def)

definition plan_summary :: "partition_plan res \<Rightarrow> (crossing list \<times> int option \<times> nat list list) option" where
  "plan_summary r = (case r of Inl _ \<Rightarrow> None
     | Inr p \<Rightarrow> Some (boundary_tensors p, transfer_bytes p, map node_indices (regions p)))"

lemma demo_plan:
  "plan_summary (partition_graph demo_env (demo_model [DimValue 2]) ''webgpu'' []) =
     Some ([(''b'', ''webgpu'', ''cpu'')], Some 8, [[0, 1], [2]])"
  by code_simp

theorem partition_graph_regions_witness:
  "\<exists>plan. partition_graph demo_env (demo_model [DimValue 2]) ''webgpu'' [] = Inr plan \<and>
     map node_indices (regions plan) = [[0, 1], [2]] \<and>
     (\<forall>p \<in> set (regions plan). region_ok (gnode (plan_graph demo_env (demo_model [DimValue 2]))) (assignment plan) p)"
proof -
  have "\<exists>plan. partition_graph demo_env (demo_model [DimValue 2]) ''webgpu'' [] = Inr plan \<and>
     (\<forall>p \<in> set (regions plan). region_ok (gnode (plan_graph demo_env (demo_model [DimValue 2]))) (assignment plan) p)"
    using partition_graph_regions [of "''webgpu''" "[]" demo_env "demo_model [DimValue 2]", OF _ _ demo_numeric]
    by (auto simp: known_device_def)
  then show ?thesis using demo_plan by (auto simp: plan_summary_def)
qed

theorem partition_graph_boundaries_witness:
  "\<exists>plan. partition_graph demo_env (demo_model [DimValue 2]) ''webgpu'' [] = Inr plan \<and>
     boundary_tensors plan = [(''b'', ''webgpu'', ''cpu'')] \<and>
     crossing_bytes demo_env (plan_shapes demo_env (demo_model [DimValue 2]))
       (plan_dtypes demo_env (demo_model [DimValue 2])) [(''b'', ''webgpu'', ''cpu'')] = Some 8"
proof -
  have "\<exists>plan. partition_graph demo_env (demo_model [DimValue 2]) ''webgpu'' [] = Inr plan \<and>
     transfer_bytes plan = crossing_bytes demo_env (plan_shapes demo_env (demo_model [DimValue 2]))
       (plan_dtypes demo_env (demo_model [DimValue 2])) (boundary_tensors plan)"
    using partition_graph_boundaries [of "''webgpu''" "[]" demo_env "demo_model [DimValue 2]", OF _ _ demo_numeric]
    by (auto simp: known_device_def)
  then show ?thesis using demo_plan by (auto simp: plan_summary_def)
qed

section \<open>Error paths\<close>

lemma unknown_device_cap:
  "\<not> known_device d \<Longrightarrow> i < length ns \<Longrightarrow> supported hz ns d i = Inl (ValueError ''unknown device'')"
  by (auto simp: supported_def device_supports_def builtin_devices_def known_device_def)

lemma place_heavy_loop_unknown:
  assumes "\<not> known_device d"
  shows "\<forall>(i, n) \<in> set xs. i < length ns \<Longrightarrow>
    rfold (\<lambda>a (i, n). if is_heavy n then
          rbind (rfind (\<lambda>d. supported hz ns d i) (d # ds)) (\<lambda>r.
            case r of None \<Rightarrow> Inr a | Some d \<Rightarrow> Inr (dict_set i d a))
        else Inr a) a xs \<in> {Inr a, Inl (ValueError ''unknown device'')}"
proof (induction xs arbitrary: a)
  case Nil
  then show ?case by simp
next
  case (Cons x xs)
  obtain i n where x: "x = (i, n)" by (cases x)
  have "\<forall>(i, n) \<in> set xs. i < length ns" using Cons.prems by auto
  from Cons.IH [OF this, of a] show ?case
    using Cons.prems by (cases "is_heavy n") (auto simp: x unknown_device_cap [OF assms])
qed

lemma place_heavy_unknown:
  assumes "\<not> known_device d"
  shows "place_heavy (supported hz ns) (d # ds) ns = Inr [] \<or>
    place_heavy (supported hz ns) (d # ds) ns = Inl (ValueError ''unknown device'')"
proof -
  have "\<forall>(i, n) \<in> set (enumerate_py ns). i < length ns" by (auto simp: in_set_enumerate_py)
  from place_heavy_loop_unknown [OF assms this] show ?thesis by (simp add: place_heavy_def)
qed

text \<open>
  Unknown primary device. For a device that is neither built in nor \<^verbatim>\<open>"cpu"\<close>, \<^verbatim>\<open>partition_graph\<close> raises
  the \<^verbatim>\<open>ValueError\<close> of \<^verbatim>\<open>_device_supports\<close> on every graph that has a node, and accepts the name
  only on the empty graph.
\<close>

theorem partition_graph_unknown_primary:
  assumes "\<not> known_device primary" and "gnode (plan_graph env m) \<noteq> []"
  shows "partition_graph env m primary fallback = Inl (ValueError ''unknown device'')"
proof -
  let ?ns = "gnode (plan_graph env m)" and ?cap = "plan_cap env m primary fallback"
  define ds where "ds = tl (device_order primary fallback)"
  have ds: "device_order primary fallback = primary # ds" by (simp add: ds_def device_order_def Let_def)
  note heavy = place_heavy_unknown [OF assms(1), of
      "hazards_by_device (downsamples env) (mgraph m) (device_order primary fallback)" ?ns ds]
  have "place_nodes ?cap (device_order primary fallback) (plan_graph env m) = Inl (ValueError ''unknown device'')"
  proof (cases "place_heavy ?cap (primary # ds) ?ns")
    case (Inl e)
    then have "e = ValueError ''unknown device''"
      using heavy by auto
    then show ?thesis using Inl by (simp add: place_nodes_def Let_def ds)
  next
    case (Inr a)
    then have a: "a = []"
      using heavy by auto
    have "place_node ?cap (primary # ds) ?ns (producer_table ?ns) (consumers_table ?ns) [] 0 = Inl (ValueError ''unknown device'')"
      using unknown_device_cap [OF assms(1), of 0 ?ns] assms(2) by (simp add: place_node_def)
    moreover have "[0..<length ?ns] = 0 # [1..<length ?ns]" using assms(2) by (simp add: upt_conv_Cons)
    ultimately show ?thesis using Inr a
      by (simp add: place_nodes_def Let_def ds fuse_activations_def place_rest_def)
  qed
  then show ?thesis by (simp add: partition_graph_def Let_def)
qed

theorem partition_graph_unknown_primary_witness:
  "\<not> known_device ''npu'' \<and>
   partition_graph demo_env (demo_model []) ''npu'' [] = Inl (ValueError ''unknown device'')"
  using partition_graph_unknown_primary [of "''npu''" demo_env "demo_model []" "[]"]
  by (auto simp: known_device_def demo_env_def demo_model_def)



definition sympy_env :: partition_env where
  "sympy_env = demo_env\<lparr>has_sympy := True,
     int_of_macs := (\<lambda>(c, syms). if syms = [] \<or> c = 0 then Inr c else Inl (TypeError ''Cannot convert symbols to int''))\<rparr>"


end
