(* ===== verification/Shape_Ranges.thy ===== *)
theory Shape_Ranges
  imports Prelude Complex_Main
begin

text \<open>
  \<^verbatim>\<open>onnxsim/shape_ranges.py\<close>: tensor shapes whose dimensions are only known to lie in an
  interval, and the shape rules of the operators on them. Python's integers are \<open>int\<close>; the
  floats a shape vector is given by are exact rationals, the infinities and NaN. The
  constructor \<^verbatim>\<open>Dim\<close> raises on an empty range, so every rule returns a result; a rule that
  can answer \<^verbatim>\<open>None\<close> returns an option inside it.
\<close>

section \<open>Floats and Python indexing\<close>

datatype fl = Fin rat | PInf | NInf | NaN

fun isfinite :: "fl \<Rightarrow> bool" where
  "isfinite (Fin r) = True"
| "isfinite _ = False"

fun fl_eq :: "fl \<Rightarrow> fl \<Rightarrow> bool" where
  "fl_eq (Fin a) (Fin b) = (a = b)"
| "fl_eq PInf PInf = True"
| "fl_eq NInf NInf = True"
| "fl_eq _ _ = False"

fun fl_le :: "fl \<Rightarrow> fl \<Rightarrow> bool" where
  "fl_le NaN _ = False"
| "fl_le _ NaN = False"
| "fl_le NInf _ = True"
| "fl_le _ PInf = True"
| "fl_le (Fin a) (Fin b) = (a \<le> b)"
| "fl_le _ _ = False"

definition fl_lt :: "fl \<Rightarrow> fl \<Rightarrow> bool" where
  "fl_lt a b \<longleftrightarrow> fl_le a b \<and> \<not> fl_eq a b"

text \<open>\<^verbatim>\<open>int(math.floor(a))\<close> and \<^verbatim>\<open>int(math.ceil(a))\<close> raise on infinities and NaN.\<close>

fun fl_floor :: "fl \<Rightarrow> int res" where
  "fl_floor (Fin r) = Inr \<lfloor>r\<rfloor>"
| "fl_floor NaN = Inl (ValueError ''cannot convert float NaN to integer'')"
| "fl_floor _ = Inl (OtherError ''cannot convert float infinity to integer'')"

fun fl_ceil :: "fl \<Rightarrow> int res" where
  "fl_ceil (Fin r) = Inr \<lceil>r\<rceil>"
| "fl_ceil NaN = Inl (ValueError ''cannot convert float NaN to integer'')"
| "fl_ceil _ = Inl (OtherError ''cannot convert float infinity to integer'')"

text \<open>\<^verbatim>\<open>xs[i]\<close>, \<^verbatim>\<open>xs[:k]\<close> and \<^verbatim>\<open>xs[k:]\<close> with Python's negative indices.\<close>

definition py_nth :: "'a list \<Rightarrow> int \<Rightarrow> 'a res" where
  "py_nth xs i =
     (let j = (if i < 0 then i + int (length xs) else i) in
      if 0 \<le> j \<and> j < int (length xs) then Inr (xs ! nat j) else Inl (IndexError ''tuple''))"

definition py_cut :: "nat \<Rightarrow> int \<Rightarrow> nat" where
  "py_cut n k = nat (if k < 0 then max 0 (k + int n) else min k (int n))"

definition py_upto :: "'a list \<Rightarrow> int \<Rightarrow> 'a list" where
  "py_upto xs k = take (py_cut (length xs) k) xs"

definition py_from :: "'a list \<Rightarrow> int \<Rightarrow> 'a list" where
  "py_from xs k = drop (py_cut (length xs) k) xs"

section \<open>Dimensions\<close>

record dim =
  lo :: int
  hi :: "int option"
  dsym :: "string option"

type_synonym shape = "dim list"

text \<open>\<^verbatim>\<open>Dim(lo, hi, dsym)\<close> with its \<^verbatim>\<open>__post_init__\<close>.\<close>

definition Dim :: "int \<Rightarrow> int option \<Rightarrow> string option \<Rightarrow> dim res" where
  "Dim l h s =
     (let l' = (if l < 0 then 0 else l) in
      case h of None \<Rightarrow> Inr \<lparr>lo = l', hi = None, dsym = s\<rparr>
      | Some u \<Rightarrow> if u < l' then Inl (ValueError ''empty dimension range'')
                 else Inr \<lparr>lo = l', hi = Some u, dsym = s\<rparr>)"

definition is_exact :: "dim \<Rightarrow> bool" where
  "is_exact d \<longleftrightarrow> hi d = Some (lo d)"

definition dim_value :: "dim \<Rightarrow> int res" where
  "dim_value d = (if is_exact d then Inr (lo d) else Inl (ValueError ''not a single value''))"

definition contains :: "dim \<Rightarrow> int \<Rightarrow> bool" where
  "contains d n \<longleftrightarrow> lo d \<le> n \<and> (case hi d of None \<Rightarrow> True | Some u \<Rightarrow> n \<le> u)"

definition add_hi :: "int option \<Rightarrow> int option \<Rightarrow> int option" where
  "add_hi a b = (case (a, b) of (Some x, Some y) \<Rightarrow> Some (x + y) | _ \<Rightarrow> None)"

definition mul_hi :: "int option \<Rightarrow> int option \<Rightarrow> int option" where
  "mul_hi a b =
     (if a = Some 0 \<or> b = Some 0 then Some 0
      else case (a, b) of (Some x, Some y) \<Rightarrow> Some (x * y) | _ \<Rightarrow> None)"

definition min_hi :: "int option \<Rightarrow> int option \<Rightarrow> int option" where
  "min_hi a b = (case a of None \<Rightarrow> b | Some x \<Rightarrow> (case b of None \<Rightarrow> a | Some y \<Rightarrow> Some (min x y)))"

definition dim_add :: "dim \<Rightarrow> dim \<Rightarrow> dim res" where
  "dim_add a b = Dim (lo a + lo b) (add_hi (hi a) (hi b)) None"

definition dim_mul :: "dim \<Rightarrow> dim \<Rightarrow> dim res" where
  "dim_mul a b = Dim (lo a * lo b) (mul_hi (hi a) (hi b)) None"

definition exact :: "int \<Rightarrow> dim res" where
  "exact n = Dim n (Some n) None"

definition from_ints :: "int list \<Rightarrow> shape res" where
  "from_ints ns = rmap exact ns"

definition is_static :: "shape \<Rightarrow> bool" where
  "is_static sh \<longleftrightarrow> list_all is_exact sh"

definition static_dims :: "shape \<Rightarrow> int list res" where
  "static_dims sh = rmap dim_value sh"

definition contains_shape :: "shape \<Rightarrow> int list \<Rightarrow> bool" where
  "contains_shape sh ns \<longleftrightarrow> length sh = length ns \<and> (\<forall>(d, a) \<in> set (zip sh ns). contains d a)"

definition intersect :: "dim \<Rightarrow> dim \<Rightarrow> dim option res" where
  "intersect a b =
     (let l = max (lo a) (lo b); h = min_hi (hi a) (hi b) in
      if (case h of None \<Rightarrow> False | Some u \<Rightarrow> u < l) then Inr None
      else rmap_opt (Dim l h (if dsym a \<noteq> None then dsym a else dsym b)))"

definition dim_hull :: "dim \<Rightarrow> dim \<Rightarrow> dim res" where
  "dim_hull a b =
     Dim (min (lo a) (lo b)) (case (hi a, hi b) of (Some x, Some y) \<Rightarrow> Some (max x y) | _ \<Rightarrow> None)
       (if dsym a = dsym b then dsym a else None)"

definition numel :: "shape \<Rightarrow> dim res" where
  "numel sh = rbind (exact 1) (\<lambda>one. rfold dim_mul one sh)"

definition vec_dim :: "fl \<times> fl \<Rightarrow> dim res" where
  "vec_dim = (\<lambda>(a, b).
     rbind (if isfinite a then rbind (fl_floor a) (\<lambda>v. Inr (max 0 v)) else Inr 0) (\<lambda>l.
     rbind (if isfinite b then rbind (fl_ceil b) (\<lambda>v. Inr (Some (max l v))) else Inr None) (\<lambda>h.
       Dim l h None)))"

definition dims_from_vector :: "fl list \<Rightarrow> fl list \<Rightarrow> shape res" where
  "dims_from_vector ls hs = rmap vec_dim (zip ls hs)"

definition constant_of_shape :: "fl list \<Rightarrow> fl list \<Rightarrow> shape res" where
  "constant_of_shape ls hs = dims_from_vector ls hs"

section \<open>Broadcasting and layout\<close>

definition bind_opt :: "'a option res \<Rightarrow> ('a \<Rightarrow> 'b option res) \<Rightarrow> 'b option res" where
  "bind_opt r f = rbind r (\<lambda>x. case x of None \<Rightarrow> Inr None | Some y \<Rightarrow> f y)"

text \<open>One aligned pair: the hull of the cases that are possible.\<close>

definition broadcast_cases :: "dim \<Rightarrow> dim \<Rightarrow> dim list res" where
  "broadcast_cases da db =
     rbind (intersect da db) (\<lambda>both.
       Inr ((if contains da 1 then [db] else []) @ (if contains db 1 then [da] else []) @
            (case both of None \<Rightarrow> [] | Some d \<Rightarrow> [d])))"

definition broadcast_dim :: "dim \<Rightarrow> dim \<Rightarrow> dim option res" where
  "broadcast_dim da db =
     rbind (broadcast_cases da db) (\<lambda>cases.
       case cases of [] \<Rightarrow> Inr None | d # ds \<Rightarrow> rmap_opt (rfold dim_hull d ds))"

fun broadcast_dims :: "(dim \<times> dim) list \<Rightarrow> shape option res" where
  "broadcast_dims [] = Inr (Some [])"
| "broadcast_dims ((da, db) # ps) =
     bind_opt (broadcast_dim da db) (\<lambda>d. bind_opt (broadcast_dims ps) (\<lambda>ds. Inr (Some (d # ds))))"

definition pad_ones :: "nat \<Rightarrow> shape \<Rightarrow> shape res" where
  "pad_ones n sh = rbind (exact 1) (\<lambda>one. Inr (replicate (n - length sh) one @ sh))"

definition broadcast2 :: "shape \<Rightarrow> shape \<Rightarrow> shape option res" where
  "broadcast2 a b =
     (let n = max (length a) (length b) in
      rbind (pad_ones n a) (\<lambda>pa. rbind (pad_ones n b) (\<lambda>pb. broadcast_dims (zip pa pb))))"

definition broadcast :: "shape list \<Rightarrow> shape option res" where
  "broadcast shapes =
     (case shapes of [] \<Rightarrow> Inl (IndexError ''shapes'')
      | s # ss \<Rightarrow> rfold (\<lambda>out s. case out of None \<Rightarrow> Inr None | Some x \<Rightarrow> broadcast2 x s) (Some s) ss)"

definition norm_axis :: "int \<Rightarrow> nat \<Rightarrow> nat res" where
  "norm_axis axis rank =
     (let a = (if axis < 0 then axis + int rank else axis) in
      if 0 \<le> a \<and> a < int rank then Inr (nat a) else Inl (ValueError ''axis out of range''))"

definition concat_dim :: "shape list \<Rightarrow> nat \<Rightarrow> nat \<Rightarrow> dim option res" where
  "concat_dim shapes ax i =
     (if i = ax then
        rmap_opt (rbind (exact 0) (\<lambda>z. rfold (\<lambda>tot s. dim_add tot (s ! i)) z shapes))
      else
        rfold (\<lambda>d s. case d of None \<Rightarrow> Inr None | Some x \<Rightarrow> intersect x (s ! i))
          (Some (hd shapes ! i)) (tl shapes))"

fun all_dims :: "(nat \<Rightarrow> dim option res) \<Rightarrow> nat list \<Rightarrow> shape option res" where
  "all_dims f [] = Inr (Some [])"
| "all_dims f (i # is) = bind_opt (f i) (\<lambda>d. bind_opt (all_dims f is) (\<lambda>ds. Inr (Some (d # ds))))"

definition concat_shapes :: "shape list \<Rightarrow> int \<Rightarrow> shape option res" where
  "concat_shapes shapes axis =
     (case shapes of [] \<Rightarrow> Inl (IndexError ''shapes'')
      | s # _ \<Rightarrow>
          if \<exists>t \<in> set shapes. length t \<noteq> length s then Inr None
          else rbind (norm_axis axis (length s)) (\<lambda>ax.
            all_dims (concat_dim shapes ax) [0..<length s]))"

definition gather :: "shape \<Rightarrow> shape \<Rightarrow> int \<Rightarrow> shape res" where
  "gather data indices axis =
     rbind (norm_axis axis (length data)) (\<lambda>ax. Inr (take ax data @ indices @ drop (Suc ax) data))"

definition gather_nd :: "shape \<Rightarrow> shape \<Rightarrow> int \<Rightarrow> shape option res" where
  "gather_nd data indices batch_dims =
     (if batch_dims \<noteq> 0 \<or> indices = [] \<or> \<not> is_exact (last indices) then Inr None
      else rbind (dim_value (last indices)) (\<lambda>k.
        if k > int (length data) then Inr None
        else Inr (Some (butlast indices @ drop (nat k) data))))"

definition drop_axes :: "nat list \<Rightarrow> 'a list \<Rightarrow> 'a list" where
  "drop_axes axes xs = map snd (filter (\<lambda>(i, _). i \<notin> set axes) (enumerate_py xs))"

definition squeeze :: "shape \<Rightarrow> int list option \<Rightarrow> shape option res" where
  "squeeze sh axes =
     (case axes of
        None \<Rightarrow>
          if \<exists>d \<in> set sh. contains d 1 \<and> \<not> is_exact d then Inr None
          else Inr (Some (filter (\<lambda>d. \<not> (is_exact d \<and> lo d = 1)) sh))
      | Some as \<Rightarrow> rbind (rmap (\<lambda>a. norm_axis a (length sh)) as) (\<lambda>dr. Inr (Some (drop_axes dr sh))))"

fun weave :: "nat list \<Rightarrow> 'a \<Rightarrow> nat list \<Rightarrow> 'a list \<Rightarrow> 'a list res" where
  "weave ax one [] xs = Inr []"
| "weave ax one (i # is) xs =
     (if i \<in> set ax then rbind (weave ax one is xs) (\<lambda>ys. Inr (one # ys))
      else case xs of [] \<Rightarrow> Inl (OtherError ''StopIteration'')
        | x # xs' \<Rightarrow> rbind (weave ax one is xs') (\<lambda>ys. Inr (x # ys)))"

definition unsqueeze :: "shape \<Rightarrow> int list \<Rightarrow> shape res" where
  "unsqueeze sh axes =
     (let rank = length sh + length axes in
      rbind (rmap (\<lambda>a. norm_axis a rank) axes) (\<lambda>ax.
      rbind (exact 1) (\<lambda>one. weave ax one [0..<rank] sh)))"

definition transpose_shape :: "shape \<Rightarrow> int list option \<Rightarrow> shape res" where
  "transpose_shape sh perm =
     rmap (py_nth sh)
       (case perm of None \<Rightarrow> map int (rev [0..<length sh])
        | Some p \<Rightarrow> if p = [] then map int (rev [0..<length sh]) else p)"

definition flatten :: "shape \<Rightarrow> int \<Rightarrow> shape res" where
  "flatten sh axis =
     (let ax = (if axis < 0 then axis + int (length sh) else axis) in
      rbind (numel (py_upto sh ax)) (\<lambda>a. rbind (numel (py_from sh ax)) (\<lambda>b. Inr [a, b])))"

definition expand :: "shape \<Rightarrow> shape \<Rightarrow> shape option res" where
  "expand sh target = broadcast2 sh target"

definition tile :: "shape \<Rightarrow> shape \<Rightarrow> shape option res" where
  "tile sh repeats =
     (if length repeats \<noteq> length sh then Inr None
      else rmap_opt (rmap (\<lambda>(d, r). dim_mul d r) (zip sh repeats)))"

text \<open>
  The target loop of \<^verbatim>\<open>reshape\<close>; \<^verbatim>\<open>None\<close> in the list of dimensions marks the inferred one,
  which is the only one.
\<close>

definition zero_fl :: fl where "zero_fl = Fin 0"
definition neg_one_fl :: fl where "neg_one_fl = Fin (- 1)"

fun reshape_loop ::
    "shape \<Rightarrow> bool \<Rightarrow> nat \<Rightarrow> bool \<Rightarrow> (fl \<times> fl) list \<Rightarrow> dim option list option res" where
  "reshape_loop sh allowzero i inferred [] = Inr (Some [])"
| "reshape_loop sh allowzero i inferred ((a, b) # ps) =
     (if fl_eq a b \<and> fl_eq a neg_one_fl then
        (if inferred then Inr None
         else bind_opt (reshape_loop sh allowzero (Suc i) True ps) (\<lambda>ds. Inr (Some (None # ds))))
      else if fl_eq a b \<and> fl_eq a zero_fl \<and> \<not> allowzero then
        (if i \<ge> length sh then Inr None
         else bind_opt (reshape_loop sh allowzero (Suc i) inferred ps) (\<lambda>ds. Inr (Some (Some (sh ! i) # ds))))
      else if fl_lt a zero_fl \<or> (fl_le a zero_fl \<and> fl_le zero_fl b \<and> \<not> allowzero \<and> \<not> fl_eq a b) then Inr None
      else
        rbind (fl_floor a) (\<lambda>l.
        rbind (if isfinite b then rbind (fl_ceil b) (\<lambda>h. Inr (Some h)) else Inr None) (\<lambda>h.
        rbind (Dim (max 0 l) h None) (\<lambda>d.
          bind_opt (reshape_loop sh allowzero (Suc i) inferred ps) (\<lambda>ds. Inr (Some (Some d # ds)))))))"

text \<open>\<^verbatim>\<open>-(-n // m)\<close> is the quotient rounded up.\<close>

definition ceil_div :: "int \<Rightarrow> int \<Rightarrow> int" where
  "ceil_div n m = - ((- n) div m)"

definition inferred_dim :: "dim \<Rightarrow> dim option list \<Rightarrow> dim res" where
  "inferred_dim n ds =
     rbind (exact 1) (\<lambda>one. rbind (rfold dim_mul one (List.map_filter id ds)) (\<lambda>rest.
       if lo rest = 0 then Dim 0 (hi n) None
       else Dim (case hi rest of None \<Rightarrow> 0 | Some r \<Rightarrow> ceil_div (lo n) r)
                (map_option (\<lambda>h. h div lo rest) (hi n)) None))"

definition reshape :: "shape \<Rightarrow> fl list \<Rightarrow> fl list \<Rightarrow> bool \<Rightarrow> shape option res" where
  "reshape sh ls hs allowzero =
     bind_opt (reshape_loop sh allowzero 0 False (zip ls hs)) (\<lambda>ds.
       rbind (numel sh) (\<lambda>n.
         if None \<in> set ds then
           rbind (inferred_dim n ds) (\<lambda>d. Inr (Some (map (\<lambda>x. case x of None \<Rightarrow> d | Some y \<Rightarrow> y) ds)))
         else Inr (Some (List.map_filter id ds))))"

definition slice_len :: "int \<Rightarrow> int \<Rightarrow> int \<Rightarrow> int \<Rightarrow> int" where
  "slice_len n start stop step =
     (if step > 0 then
        (let s = min (max (if start < 0 then start + n else start) 0) n;
             e = min (max (if stop < 0 then stop + n else stop) 0) n in
         max 0 (ceil_div (e - s) step))
      else
        (let s = min (max (if start < 0 then start + n else start) (- 1)) (n - 1);
             e = min (max (if stop < 0 then stop + n else stop) (- 1)) (n - 1) in
         max 0 (ceil_div (s - e) (- step))))"

definition slice_dim :: "int \<Rightarrow> dim \<Rightarrow> int \<Rightarrow> int \<Rightarrow> int \<Rightarrow> dim res" where
  "slice_dim limit d st en sp =
     (case hi d of
        None \<Rightarrow> Dim 0 None None
      | Some h \<Rightarrow>
          if h - lo d > limit then Dim 0 (if sp = 1 then Some h else None) None
          else let lens = map (\<lambda>n. slice_len n st en sp) [lo d..h] in
            Dim (Min (set lens)) (Some (Max (set lens))) None)"

fun slice_loop :: "int \<Rightarrow> shape \<Rightarrow> shape \<Rightarrow> (int \<times> int \<times> nat \<times> int) list \<Rightarrow> shape option res" where
  "slice_loop limit sh out [] = Inr (Some out)"
| "slice_loop limit sh out ((st, en, ax, sp) # rest) =
     (if ax \<ge> length sh then Inl (IndexError ''shape'')
      else if sp = 0 then Inr None
      else rbind (slice_dim limit (sh ! ax) st en sp) (\<lambda>d. slice_loop limit sh (out[ax := d]) rest))"

definition slice_shape ::
    "shape \<Rightarrow> int list \<Rightarrow> int list \<Rightarrow> int list option \<Rightarrow> int list option \<Rightarrow> int \<Rightarrow> shape option res" where
  "slice_shape sh starts ends axes steps limit =
     rbind (case axes of None \<Rightarrow> Inr [0..<length starts] | Some as \<Rightarrow> rmap (\<lambda>a. norm_axis a (length sh)) as)
       (\<lambda>axl. let stl = (case steps of None \<Rightarrow> replicate (length starts) 1 | Some ss \<Rightarrow> ss) in
         slice_loop limit sh sh (zip starts (zip ends (zip axl stl))))"

definition reduced_axes :: "shape \<Rightarrow> int list option \<Rightarrow> nat list res" where
  "reduced_axes sh axes =
     (case axes of None \<Rightarrow> Inr [0..<length sh] | Some as \<Rightarrow> rmap (\<lambda>a. norm_axis a (length sh)) as)"

definition reduce_shape :: "shape \<Rightarrow> int list option \<Rightarrow> bool \<Rightarrow> shape res" where
  "reduce_shape sh axes keepdims =
     rbind (reduced_axes sh axes) (\<lambda>red.
       if keepdims then
         rbind (exact 1) (\<lambda>one. Inr (map (\<lambda>(i, d). if i \<in> set red then one else d) (enumerate_py sh)))
       else Inr (drop_axes red sh))"

definition reduced_count :: "shape \<Rightarrow> int list option \<Rightarrow> dim res" where
  "reduced_count sh axes =
     rbind (reduced_axes sh axes) (\<lambda>red.
       numel (map snd (filter (\<lambda>(i, _). i \<in> set red) (enumerate_py sh))))"

definition matmul_shape :: "shape \<Rightarrow> shape \<Rightarrow> shape option res" where
  "matmul_shape a b =
     (if a = [] \<or> b = [] then Inr None
      else rbind (exact 1) (\<lambda>one.
        let a2 = (if length a = 1 then one # a else a);
            b2 = (if length b = 1 then b @ [one] else b) in
        bind_opt (broadcast2 (butlast (butlast a2)) (butlast (butlast b2))) (\<lambda>batch.
          let m = last (butlast a2); n = last b2 in
          Inr (Some (batch @ (if length a = 1 then [] else [m]) @ (if length b = 1 then [] else [n]))))))"

section \<open>Data-dependent operators\<close>

definition nonzero_dim :: "dim \<Rightarrow> int option \<Rightarrow> int option \<Rightarrow> (fl \<times> fl) option \<Rightarrow> dim res" where
  "nonzero_dim n definitely possibly value_hull =
     (case (possibly, definitely) of
        (Some p, Some d) \<Rightarrow> Dim d (Some p) None
      | _ \<Rightarrow>
          (case value_hull of
             Some (l, h) \<Rightarrow>
               if fl_lt zero_fl l \<or> fl_lt h zero_fl then Dim (lo n) (hi n) None
               else if fl_eq l zero_fl \<and> fl_eq h zero_fl then exact 0
               else Dim 0 (hi n) None
           | None \<Rightarrow> Dim 0 (hi n) None))"

definition nonzero :: "shape \<Rightarrow> int option \<Rightarrow> int option \<Rightarrow> (fl \<times> fl) option \<Rightarrow> shape res" where
  "nonzero sh definitely possibly value_hull =
     rbind (numel sh) (\<lambda>n. rbind (exact (int (length sh))) (\<lambda>rank.
       rbind (nonzero_dim n definitely possibly value_hull) (\<lambda>k. Inr [rank, k])))"

definition topk :: "shape \<Rightarrow> int \<Rightarrow> dim \<Rightarrow> shape res" where
  "topk sh axis k =
     rbind (norm_axis axis (length sh)) (\<lambda>ax.
       let h = min_hi (hi k) (hi (sh ! ax));
           l = (case h of None \<Rightarrow> lo k | Some u \<Rightarrow> min (lo k) u) in
       rbind (Dim l h None) (\<lambda>d. Inr (sh[ax := d])))"

definition compress_kept :: "dim \<Rightarrow> dim \<Rightarrow> int option \<Rightarrow> int option \<Rightarrow> dim res" where
  "compress_kept d cond_len definitely possibly =
     (let h = min_hi (hi d) (hi cond_len) in
      case (definitely, possibly) of
        (Some df, Some ps) \<Rightarrow>
          (let h' = min_hi h (Some ps); l = (case h' of None \<Rightarrow> df | Some u \<Rightarrow> min df u) in Dim l h' None)
      | _ \<Rightarrow> Dim 0 h None)"

definition compress :: "shape \<Rightarrow> int option \<Rightarrow> dim \<Rightarrow> int option \<Rightarrow> int option \<Rightarrow> shape res" where
  "compress sh axis cond_len definitely possibly =
     (case axis of
        None \<Rightarrow> rbind (numel sh) (\<lambda>d. rbind (compress_kept d cond_len definitely possibly) (\<lambda>k. Inr [k]))
      | Some a \<Rightarrow>
          rbind (norm_axis a (length sh)) (\<lambda>ax.
          rbind (compress_kept (sh ! ax) cond_len definitely possibly) (\<lambda>k. Inr (sh[ax := k]))))"

definition unique :: "shape \<Rightarrow> int option \<Rightarrow> (shape \<times> shape \<times> shape \<times> shape) res" where
  "unique sh axis =
     (case axis of
        None \<Rightarrow>
          rbind (numel sh) (\<lambda>n. rbind (Dim (min 1 (lo n)) (hi n) None) (\<lambda>nu.
          rbind (Dim (lo n) (hi n) None) (\<lambda>inv. Inr ([nu], [nu], [inv], [nu]))))
      | Some a \<Rightarrow>
          rbind (norm_axis a (length sh)) (\<lambda>ax. let d = sh ! ax in
          rbind (Dim (min 1 (lo d)) (hi d) None) (\<lambda>nu.
          rbind (Dim (lo d) (hi d) None) (\<lambda>inv. Inr (sh[ax := nu], [nu], [inv], [nu])))))"

definition nms :: "shape \<Rightarrow> shape \<Rightarrow> dim \<Rightarrow> shape option res" where
  "nms boxes scores max_per_class =
     (if length boxes \<noteq> 3 \<or> length scores \<noteq> 3 then Inr None
      else let b = boxes ! 0; c = scores ! 1; n = boxes ! 1 in
        rbind (Dim 0 (min_hi (hi max_per_class) (hi n)) None) (\<lambda>per.
        rbind (dim_mul b c) (\<lambda>bc. rbind (dim_mul bc per) (\<lambda>tot.
        rbind (Dim 0 (hi tot) None) (\<lambda>k. rbind (exact 3) (\<lambda>three. Inr (Some [k, three])))))))"

text \<open>
  \<^verbatim>\<open>range_count\<close>. The subtraction and the division of doubles round; \<open>rnd\<close> is the rounding.
\<close>

fun range_count :: "(rat \<Rightarrow> rat) \<Rightarrow> fl \<times> fl \<Rightarrow> fl \<times> fl \<Rightarrow> fl \<times> fl \<Rightarrow> dim res" where
  "range_count rnd (Fin s0, Fin s1) (Fin l0, Fin l1) (Fin d0, Fin d1) =
     (let q = (\<lambda>l s d. \<lceil>rnd (rnd (l - s) / d)\<rceil>) in
      if d0 > 0 then Dim (max 0 (q l0 s1 d1)) (Some (max 0 (q l1 s0 d0))) None
      else if d1 < 0 then Dim (max 0 (q l1 s0 d0)) (Some (max 0 (q l0 s1 d1))) None
      else Dim 0 None None)"
| "range_count rnd _ _ _ = Dim 0 None None"

end
