(* ===== verification/Shape_Soundness.thy ===== *)
theory Shape_Soundness
  imports Shape_Ranges
begin

text \<open>
  Soundness of the shape rules of \<^verbatim>\<open>onnxsim/shape_ranges.py\<close>: whenever the dimensions of the
  operands lie in their ranges, the rule returns and the dimension of the result lies in the
  range it gives. The concrete rules on integers are defined beside each theorem.
\<close>

section \<open>Ranges and the integers in them\<close>

definition wf_dim :: "dim \<Rightarrow> bool" where
  "wf_dim d \<longleftrightarrow> 0 \<le> lo d \<and> (\<forall>u. hi d = Some u \<longrightarrow> lo d \<le> u)"

definition inside :: "dim \<Rightarrow> int \<Rightarrow> bool" where
  "inside d n \<longleftrightarrow> 0 \<le> lo d \<and> lo d \<le> n \<and> (\<forall>u. hi d = Some u \<longrightarrow> n \<le> u)"

definition inshape :: "shape \<Rightarrow> int list \<Rightarrow> bool" where
  "inshape sh ns \<longleftrightarrow> list_all2 inside sh ns"

definition rsome :: "'a option res \<Rightarrow> ('a \<Rightarrow> bool) \<Rightarrow> bool" where
  "rsome r P \<longleftrightarrow> rgives r (\<lambda>x. \<exists>y. x = Some y \<and> P y)"

definition rmaybe :: "'a option res \<Rightarrow> ('a \<Rightarrow> bool) \<Rightarrow> bool" where
  "rmaybe r P \<longleftrightarrow> rgives r (\<lambda>x. x = None \<or> (\<exists>y. x = Some y \<and> P y))"

lemma inside_iff: "inside d n \<longleftrightarrow> wf_dim d \<and> contains d n"
  by (auto simp: inside_def wf_dim_def contains_def split: option.splits)

lemma inshape_iff: "inshape sh ns \<longleftrightarrow> (\<forall>d \<in> set sh. wf_dim d) \<and> contains_shape sh ns"
  by (induction sh ns rule: list_induct2') (auto simp: inshape_def contains_shape_def inside_iff)

lemma inside_nonneg: "inside d n \<Longrightarrow> 0 \<le> n"
  by (auto simp: inside_def)

lemma inshape_nonneg: "inshape sh ns \<Longrightarrow> \<forall>n \<in> set ns. 0 \<le> n"
  by (metis inside_nonneg in_set_conv_nth list_all2_conv_all_nth inshape_def)

lemma inside_Dim:
  "0 \<le> n \<Longrightarrow> l \<le> n \<Longrightarrow> (\<And>u. h = Some u \<Longrightarrow> n \<le> u) \<Longrightarrow> rgives (Dim l h s) (\<lambda>d. inside d n)"
  by (cases h) (auto simp: Dim_def Let_def inside_def)

lemma inside_exact: "0 \<le> n \<Longrightarrow> rgives (exact n) (\<lambda>d. inside d n)"
  unfolding exact_def by (rule inside_Dim) auto

lemma exact_one: "exact 1 = Inr \<lparr>lo = 1, hi = Some 1, dsym = None\<rparr>"
  by (simp add: exact_def Dim_def)

lemma inside_one: "inside \<lparr>lo = 1, hi = Some 1, dsym = s\<rparr> n \<longleftrightarrow> n = 1"
  by (auto simp: inside_def)

lemma rsome_bind: "rsome r P \<Longrightarrow> (\<And>x. P x \<Longrightarrow> rsome (f x) Q) \<Longrightarrow> rsome (bind_opt r f) Q"
  by (auto simp: rsome_def bind_opt_def rgives_def)

lemma rmaybe_bind: "rmaybe r P \<Longrightarrow> (\<And>x. P x \<Longrightarrow> rmaybe (f x) Q) \<Longrightarrow> rmaybe (bind_opt r f) Q"
  by (auto simp: rmaybe_def bind_opt_def rgives_def)

lemma rsome_rmap_opt: "rgives r P \<Longrightarrow> rsome (rmap_opt r) P"
  by (auto simp: rsome_def rgives_def rmap_opt_def)

section \<open>Operations folded over dimensions\<close>

text \<open>An operation on ranges that is sound for an operation on integers stays so when folded.\<close>

locale sound_op =
  fixes R :: "'a \<Rightarrow> 'b \<Rightarrow> bool" and f :: "'a \<Rightarrow> 'a \<Rightarrow> 'a res" and g :: "'b \<Rightarrow> 'b \<Rightarrow> 'b"
  assumes sound: "R a x \<Longrightarrow> R b y \<Longrightarrow> rgives (f a b) (\<lambda>c. R c (g x y))"
begin

lemma fold_sound:
  "list_all2 R ds ns \<Longrightarrow> R d n \<Longrightarrow> rgives (rfold f d ds) (\<lambda>c. R c (foldl g n ns))"
proof (induction ds ns arbitrary: d n rule: list_all2_induct)
  case Nil
  then show ?case by simp
next
  case (Cons x xs y ys)
  have "rgives (rbind (f d x) (\<lambda>s'. rfold f s' xs)) (\<lambda>c. R c (foldl g (g n y) ys))"
    by (rule rgives_bind [OF sound [OF Cons.prems Cons.hyps(1)]]) (rule Cons.IH)
  then show ?case by simp
qed

end

lemma dim_add_sound: "inside a x \<Longrightarrow> inside b y \<Longrightarrow> rgives (dim_add a b) (\<lambda>c. inside c (x + y))"
  unfolding dim_add_def by (rule inside_Dim) (auto simp: inside_def add_hi_def split: option.splits)

lemma dim_mul_sound: "inside a x \<Longrightarrow> inside b y \<Longrightarrow> rgives (dim_mul a b) (\<lambda>c. inside c (x * y))"
  unfolding dim_mul_def
proof (rule inside_Dim)
  assume ab: "inside a x" "inside b y"
  then show "0 \<le> x * y" and "lo a * lo b \<le> x * y" by (auto simp: inside_def mult_mono)
  show "x * y \<le> u" if "mul_hi (hi a) (hi b) = Some u" for u
    using that ab inside_nonneg [OF ab(1)] inside_nonneg [OF ab(2)]
    by (auto simp: mul_hi_def inside_def mult_mono mult_nonpos_nonneg mult_nonneg_nonpos
        split: option.splits if_splits)
qed

interpretation add_op: sound_op inside dim_add "(+)"
  by unfold_locales (rule dim_add_sound)

interpretation mul_op: sound_op inside dim_mul "(*)"
  by unfold_locales (rule dim_mul_sound)

lemma foldl_mult: "foldl (*) (n :: int) ns = n * prod_list ns"
  by (induction ns arbitrary: n) (auto simp: mult.assoc)

lemma foldl_plus: "foldl (+) (n :: int) ns = n + sum_list ns"
  by (induction ns arbitrary: n) (auto simp: add.assoc)

lemma numel_sound: "inshape sh ns \<Longrightarrow> rgives (numel sh) (\<lambda>d. inside d (prod_list ns))"
  using mul_op.fold_sound [of sh ns "\<lparr>lo = 1, hi = Some 1, dsym = None\<rparr>" 1]
  by (simp add: numel_def exact_one inside_one inshape_def foldl_mult)

lemma intersect_sound: "inside a n \<Longrightarrow> inside b n \<Longrightarrow> rsome (intersect a b) (\<lambda>d. inside d n)"
  unfolding intersect_def Let_def
  by (auto simp: inside_def min_hi_def split: option.splits
      intro!: rsome_rmap_opt inside_Dim [unfolded inside_def])

lemma hull_left: "inside a n \<Longrightarrow> wf_dim b \<Longrightarrow> rgives (dim_hull a b) (\<lambda>d. inside d n)"
  unfolding dim_hull_def
  by (rule inside_Dim) (auto simp: inside_def split: option.splits)

lemma hull_right: "inside b n \<Longrightarrow> wf_dim a \<Longrightarrow> rgives (dim_hull a b) (\<lambda>d. inside d n)"
  unfolding dim_hull_def
  by (rule inside_Dim) (auto simp: inside_def split: option.splits)


section \<open>Broadcasting\<close>

text \<open>NumPy's rule on integers: equal dimensions, or one of them is 1.\<close>

definition np_broadcast_dim :: "int \<Rightarrow> int \<Rightarrow> int option" where
  "np_broadcast_dim a b = (if a = 1 then Some b else if b = 1 then Some a else if a = b then Some a else None)"

definition np_pad :: "nat \<Rightarrow> int list \<Rightarrow> int list" where
  "np_pad n ns = replicate (n - length ns) 1 @ ns"

definition np_broadcast :: "int list \<Rightarrow> int list \<Rightarrow> int list option" where
  "np_broadcast xs ys =
     (let n = max (length xs) (length ys) in those (map2 np_broadcast_dim (np_pad n xs) (np_pad n ys)))"

text \<open>A hull of ranges holds every number one of them holds.\<close>

lemma hull_fold_sound:
  "\<forall>d \<in> set (c # cs). wf_dim d \<Longrightarrow> \<exists>d \<in> set (c # cs). inside d n \<Longrightarrow>
     rgives (rfold dim_hull c cs) (\<lambda>d. inside d n)"
proof (induction cs arbitrary: c)
  case Nil
  then show ?case by simp
next
  case (Cons x cs)
  have wf: "wf_dim c" "wf_dim x" using Cons.prems(1) by auto
  have wf_hull: "rgives (dim_hull c x) wf_dim"
  proof -
    have "inside c (lo c)" using wf(1) by (auto simp: inside_def wf_dim_def)
    from hull_left [OF this wf(2)] show ?thesis by (rule rgives_mono) (simp add: inside_iff)
  qed
  show ?case
  proof (cases "inside c n \<or> inside x n")
    case True
    then have "rgives (dim_hull c x) (\<lambda>d. inside d n)" using hull_left hull_right wf by blast
    then have "rgives (rbind (dim_hull c x) (\<lambda>s. rfold dim_hull s cs)) (\<lambda>d. inside d n)"
    proof (rule rgives_bind)
      fix d assume "inside d n"
      then show "rgives (rfold dim_hull d cs) (\<lambda>d. inside d n)"
        using Cons.IH [of d] Cons.prems(1) by (auto simp: inside_iff)
    qed
    then show ?thesis by simp
  next
    case False
    then obtain y where y: "y \<in> set cs" "inside y n" using Cons.prems(2) by auto
    have "rgives (rbind (dim_hull c x) (\<lambda>s. rfold dim_hull s cs)) (\<lambda>d. inside d n)"
      by (rule rgives_bind [OF wf_hull], rule Cons.IH) (use Cons.prems(1) y in auto)
    then show ?thesis by simp
  qed
qed

lemma broadcast_dim_sound:
  assumes a: "inside a x" and b: "inside b y" and z: "np_broadcast_dim x y = Some z"
  shows "rsome (broadcast_dim a b) (\<lambda>d. inside d z)"
proof -
  obtain both where both: "intersect a b = Inr both" "\<forall>d. both = Some d \<longrightarrow> wf_dim d"
      "x = y \<longrightarrow> (\<exists>d. both = Some d \<and> inside d x)"
  proof (cases "x = y")
    case True
    then show thesis using intersect_sound [OF a, of b] b that
      by (auto simp: rsome_def rgives_def inside_iff)
  next
    case False
    have "\<exists>both. intersect a b = Inr both \<and> (\<forall>d. both = Some d \<longrightarrow> wf_dim d)"
      using a b by (auto simp: intersect_def Let_def rmap_opt_def Dim_def inside_def wf_dim_def split: option.splits)
    then show thesis using False that by blast
  qed
  let ?cs = "(if contains a 1 then [b] else []) @ (if contains b 1 then [a] else []) @
            (case both of None \<Rightarrow> [] | Some d \<Rightarrow> [d])"
  have wf: "\<forall>d \<in> set ?cs. wf_dim d" using a b both(2) by (auto simp: inside_iff split: option.splits)
  have ex: "\<exists>d \<in> set ?cs. inside d z"
    using a b z both(3) by (auto simp: np_broadcast_dim_def inside_iff split: if_splits)
  then obtain c cs where cs: "?cs = c # cs" by (cases ?cs) auto
  have "rgives (rfold dim_hull c cs) (\<lambda>d. inside d z)"
    by (rule hull_fold_sound) (use wf ex cs in auto)
  then show ?thesis
    using both(1) cs rsome_rmap_opt by (simp add: broadcast_dim_def broadcast_cases_def)
qed

lemma broadcast_dims_sound:
  "list_all2 inside as xs \<Longrightarrow> list_all2 inside bs ys \<Longrightarrow> length as = length bs \<Longrightarrow>
     those (map2 np_broadcast_dim xs ys) = Some zs \<Longrightarrow>
     rsome (broadcast_dims (zip as bs)) (\<lambda>ds. list_all2 inside ds zs)"
proof (induction as xs arbitrary: bs ys zs rule: list_all2_induct)
  case Nil
  then show ?case by (auto simp: rsome_def)
next
  case (Cons a as x xs)
  obtain b bs' where bs: "bs = b # bs'" using Cons.prems(2) by (cases bs) auto
  then obtain y ys' where ys: "ys = y # ys'" "inside b y" "list_all2 inside bs' ys'"
    using Cons.prems(1) by (auto simp: list_all2_Cons1)
  obtain z zs' where z: "np_broadcast_dim x y = Some z" "those (map2 np_broadcast_dim xs ys') = Some zs'" "zs = z # zs'"
    using Cons.prems(3) by (auto simp: ys split: option.splits)
  have "rsome (bind_opt (broadcast_dim a b) (\<lambda>d. bind_opt (broadcast_dims (zip as bs')) (\<lambda>ds. Inr (Some (d # ds)))))
      (\<lambda>ds. list_all2 inside ds zs)"
  proof (rule rsome_bind [OF broadcast_dim_sound [OF Cons.hyps(1) ys(2) z(1)]])
    fix d
    assume d: "inside d z"
    have "rsome (broadcast_dims (zip as bs')) (\<lambda>ds. list_all2 inside ds zs')"
      using Cons.IH [OF ys(3) _ z(2)] Cons.prems(2) bs by simp
    then show "rsome (bind_opt (broadcast_dims (zip as bs')) (\<lambda>ds. Inr (Some (d # ds)))) (\<lambda>ds. list_all2 inside ds zs)"
      by (rule rsome_bind) (simp add: rsome_def d z(3))
  qed
  then show ?case by (simp add: bs)
qed

lemma inside_replicate: "inside d n \<Longrightarrow> list_all2 inside (replicate k d) (replicate k n)"
  by (induction k) auto

lemma pad_ones_sound:
  "inshape sh ns \<Longrightarrow> rgives (pad_ones n sh) (\<lambda>p. list_all2 inside p (np_pad n ns) \<and> length p = n - length sh + length sh)"
  by (auto simp: pad_ones_def exact_one np_pad_def inshape_def inside_one list_all2_lengthD
      intro!: list_all2_appendI inside_replicate)

lemma broadcast2_sound:
  assumes "inshape a xs" and "inshape b ys" and "np_broadcast xs ys = Some zs"
  shows "rsome (broadcast2 a b) (\<lambda>c. inshape c zs)"
proof -
  let ?n = "max (length a) (length b)"
  have len: "length a = length xs" "length b = length ys" using assms by (auto simp: inshape_def list_all2_lengthD)
  obtain pa pb where p: "pad_ones ?n a = Inr pa" "list_all2 inside pa (np_pad ?n xs)" "length pa = ?n"
      "pad_ones ?n b = Inr pb" "list_all2 inside pb (np_pad ?n ys)" "length pb = ?n"
    using pad_ones_sound [OF assms(1), of ?n] pad_ones_sound [OF assms(2), of ?n] by (auto simp: rgives_def)
  have "rsome (broadcast_dims (zip pa pb)) (\<lambda>ds. list_all2 inside ds zs)"
    by (rule broadcast_dims_sound [OF p(2,5)]) (use p assms(3) len in \<open>auto simp: np_broadcast_def Let_def\<close>)
  then show ?thesis using p(1,4) by (simp add: broadcast2_def Let_def inshape_def)
qed


text \<open>
  Broadcasting. When the operands' shapes lie in their ranges and NumPy can broadcast them, \<^verbatim>\<open>broadcast2\<close>
  (and \<^verbatim>\<open>expand\<close>, which is the same rule) returns a ranged shape, and the broadcast shape lies in it.
\<close>

theorem broadcast2_contains_numpy:
  assumes "inshape a xs" and "inshape b ys" and "np_broadcast xs ys = Some zs"
  shows "\<exists>c. broadcast2 a b = Inr (Some c) \<and> expand a b = Inr (Some c) \<and> inshape c zs"
  using broadcast2_sound [OF assms] by (auto simp: rsome_def rgives_def expand_def)

theorem broadcast2_contains_numpy_witness:
  "\<exists>c. broadcast2 [\<lparr>lo = 1, hi = Some 4, dsym = None\<rparr>, \<lparr>lo = 0, hi = None, dsym = None\<rparr>]
         [\<lparr>lo = 1, hi = Some 7, dsym = None\<rparr>] = Inr (Some c) \<and> inshape c [3, 5]"
  using broadcast2_contains_numpy [of "[\<lparr>lo = 1, hi = Some 4, dsym = None\<rparr>, \<lparr>lo = 0, hi = None, dsym = None\<rparr>]"
      "[3, 1]" "[\<lparr>lo = 1, hi = Some 7, dsym = None\<rparr>]" "[5]" "[3, 5]"]
  by (auto simp: inshape_def inside_def np_broadcast_def np_pad_def np_broadcast_dim_def)

section \<open>Layout rules\<close>

lemma norm_axis_Inr: "norm_axis axis rank = Inr ax \<longleftrightarrow>
    ax < rank \<and> int ax = (if axis < 0 then axis + int rank else axis)"
  by (auto simp: norm_axis_def Let_def)

lemma inshape_length: "inshape sh ns \<Longrightarrow> length sh = length ns"
  by (simp add: inshape_def list_all2_lengthD)

lemma inshape_nth: "inshape sh ns \<Longrightarrow> i < length ns \<Longrightarrow> inside (sh ! i) (ns ! i)"
  by (metis inshape_def list_all2_conv_all_nth)

lemma inshape_update: "inshape sh ns \<Longrightarrow> inside d n \<Longrightarrow> inshape (sh[i := d]) (ns[i := n])"
  by (simp add: inshape_def list_all2_update_cong)

text \<open>Concatenation of integer shapes: equal away from the axis, summed on it.\<close>

definition concat_ok :: "int list list \<Rightarrow> nat \<Rightarrow> bool" where
  "concat_ok xss ax \<longleftrightarrow> xss \<noteq> [] \<and> ax < length (hd xss) \<and>
     (\<forall>xs \<in> set xss. length xs = length (hd xss) \<and> (\<forall>i < length xs. i \<noteq> ax \<longrightarrow> xs ! i = hd xss ! i))"

definition concat_result :: "int list list \<Rightarrow> nat \<Rightarrow> int list" where
  "concat_result xss ax = (hd xss)[ax := sum_list (map (\<lambda>xs. xs ! ax) xss)]"

lemma rfold_dim_add:
  "list_all2 (\<lambda>sh xs. inside (sh ! i) (xs ! i)) shs xss \<Longrightarrow> inside d n \<Longrightarrow>
     rgives (rfold (\<lambda>tot s. dim_add tot (s ! i)) d shs) (\<lambda>c. inside c (n + sum_list (map (\<lambda>xs. xs ! i) xss)))"
proof (induction shs xss arbitrary: d n rule: list_all2_induct)
  case Nil
  then show ?case by simp
next
  case (Cons s ss x xs)
  have "rgives (rbind (dim_add d (s ! i)) (\<lambda>t. rfold (\<lambda>tot s. dim_add tot (s ! i)) t ss))
      (\<lambda>c. inside c (n + sum_list (map (\<lambda>xs. xs ! i) (x # xs))))"
    by (rule rgives_bind [OF dim_add_sound [OF Cons.prems Cons.hyps(1)]])
      (use Cons.IH in \<open>simp add: add.assoc [symmetric]\<close>)
  then show ?case by simp
qed

lemma rfold_intersect:
  "\<forall>s \<in> set ss. inside (s ! i) n \<Longrightarrow> inside d n \<Longrightarrow>
     rsome (rfold (\<lambda>d s. case d of None \<Rightarrow> Inr None | Some x \<Rightarrow> intersect x (s ! i)) (Some d) ss) (\<lambda>c. inside c n)"
proof (induction ss arbitrary: d)
  case Nil
  then show ?case by (simp add: rsome_def)
next
  case (Cons s ss)
  obtain d' where "intersect d (s ! i) = Inr (Some d')" "inside d' n"
    using intersect_sound [OF Cons.prems(2), of "s ! i"] Cons.prems(1) by (auto simp: rsome_def rgives_def)
  then show ?case using Cons.IH [of d'] Cons.prems(1) by simp
qed

lemma all_dims_sound:
  "\<forall>i \<in> set is. rsome (f i) (\<lambda>d. inside d (g i)) \<Longrightarrow>
     rsome (all_dims f is) (\<lambda>ds. inshape ds (map g is))"
proof (induction "is")
  case Nil
  then show ?case by (simp add: rsome_def inshape_def)
next
  case (Cons i js)
  have "rsome (bind_opt (f i) (\<lambda>d. bind_opt (all_dims f js) (\<lambda>ds. Inr (Some (d # ds))))) (\<lambda>ds. inshape ds (map g (i # js)))"
  proof (rule rsome_bind [where P = "\<lambda>d. inside d (g i)"])
    fix d
    assume d: "inside d (g i)"
    have "rsome (all_dims f js) (\<lambda>ds. inshape ds (map g js))" using Cons by simp
    then show "rsome (bind_opt (all_dims f js) (\<lambda>ds. Inr (Some (d # ds)))) (\<lambda>ds. inshape ds (map g (i # js)))"
      by (rule rsome_bind) (use d in \<open>simp add: rsome_def inshape_def\<close>)
  qed (use Cons.prems in simp)
  then show ?case by simp
qed

lemma concat_dim_sound:
  assumes shs: "list_all2 inshape shs xss" and ok: "concat_ok xss ax" and i: "i < length (hd xss)"
  shows "rsome (concat_dim shs ax i) (\<lambda>d. inside d (concat_result xss ax ! i))"
proof -
  have ne: "shs \<noteq> []" "xss \<noteq> []" using shs ok by (auto simp: concat_ok_def)
  have el: "inside (s ! i) (x ! i)" if "inshape s x" "x \<in> set xss" for s x
  proof -
    have "length x = length (hd xss)" using that(2) ok unfolding concat_ok_def by blast
    then show ?thesis using inshape_nth [OF that(1), of i] i by simp
  qed
  have all: "list_all2 (\<lambda>sh xs. inside (sh ! i) (xs ! i)) shs xss"
    unfolding list_all2_conv_all_nth
    using shs el by (metis list_all2_conv_all_nth nth_mem)
  show ?thesis
  proof (cases "i = ax")
    case True
    have "rgives (rbind (exact 0) (\<lambda>z. rfold (\<lambda>tot s. dim_add tot (s ! i)) z shs))
        (\<lambda>c. inside c (0 + sum_list (map (\<lambda>xs. xs ! i) xss)))"
      by (rule rgives_bind [OF inside_exact], simp, rule rfold_dim_add [OF all])
    then show ?thesis using True i rsome_rmap_opt by (auto simp: concat_dim_def concat_result_def)
  next
    case False
    have eq: "x ! i = hd xss ! i" if "x \<in> set xss" for x
      using that ok i False unfolding concat_ok_def by metis
    have "inside (s ! i) (hd xss ! i)" if "s \<in> set shs" for s
    proof -
      from that obtain k where k: "k < length shs" "s = shs ! k" by (auto simp: in_set_conv_nth)
      then have "xss ! k \<in> set xss" "inside (s ! i) (xss ! k ! i)"
        using all by (auto simp: list_all2_conv_all_nth)
      then show ?thesis using eq by simp
    qed
    then show ?thesis using rfold_intersect [of "tl shs" i "hd xss ! i" "hd shs ! i"] False ne i
      by (auto simp: concat_dim_def concat_result_def dest: list.set_sel)
  qed
qed

lemma concat_sound:
  assumes "list_all2 inshape shs xss" and "concat_ok xss ax" and "norm_axis axis (length (hd xss)) = Inr ax"
  shows "rsome (concat_shapes shs axis) (\<lambda>c. inshape c (concat_result xss ax))"
proof -
  obtain s ss where s: "shs = s # ss" using assms(1,2) by (cases shs) (auto simp: concat_ok_def)
  have len: "length t = length (hd xss)" if t: "t \<in> set shs" for t
  proof -
    obtain k where "k < length shs" "t = shs ! k" using t by (auto simp: in_set_conv_nth)
    then show ?thesis using assms(1,2) inshape_length
      by (metis concat_ok_def list_all2_conv_all_nth nth_mem)
  qed
  have "rsome (all_dims (concat_dim shs ax) [0..<length (hd xss)])
      (\<lambda>ds. inshape ds (map ((!) (concat_result xss ax)) [0..<length (hd xss)]))"
    by (rule all_dims_sound) (use concat_dim_sound [OF assms(1,2)] in auto)
  moreover have "map ((!) (concat_result xss ax)) [0..<length (hd xss)] = concat_result xss ax"
    by (metis concat_result_def length_list_update map_nth)
  moreover have "length s = length (hd xss)" "\<not> (\<exists>t \<in> set shs. length t \<noteq> length s)" using len s by auto
  ultimately show ?thesis using assms(3) by (auto simp: concat_shapes_def s)
qed


text \<open>
  Concatenation. When the operands' shapes lie in their ranges and agree away from the axis, \<^verbatim>\<open>concat\<close>
  returns a ranged shape that holds the concatenated shape.
\<close>

theorem concat_contains_result:
  assumes "list_all2 inshape shs xss" and "concat_ok xss ax" and "norm_axis axis (length (hd xss)) = Inr ax"
  shows "\<exists>c. concat_shapes shs axis = Inr (Some c) \<and> inshape c (concat_result xss ax)"
  using concat_sound [OF assms] by (auto simp: rsome_def rgives_def)

theorem concat_contains_result_witness:
  "\<exists>c. concat_shapes [[\<lparr>lo = 0, hi = Some 4, dsym = None\<rparr>], [\<lparr>lo = 2, hi = None, dsym = None\<rparr>]] (- 1) =
     Inr (Some c) \<and> inshape c [8]"
  using concat_contains_result [of "[[\<lparr>lo = 0, hi = Some 4, dsym = None\<rparr>], [\<lparr>lo = 2, hi = None, dsym = None\<rparr>]]"
      "[[3], [5]]" 0 "- 1"]
  by (auto simp: inshape_def inside_def concat_ok_def concat_result_def norm_axis_def)

lemma inshape_take_drop:
  "inshape sh ns \<Longrightarrow> inshape (take k sh) (take k ns)" "inshape sh ns \<Longrightarrow> inshape (drop k sh) (drop k ns)"
  by (simp_all add: inshape_def)

lemma inshape_append: "inshape a xs \<Longrightarrow> inshape b ys \<Longrightarrow> inshape (a @ b) (xs @ ys)"
  by (simp add: inshape_def list_all2_appendI)

lemma inshape_butlast: "inshape a xs \<Longrightarrow> inshape (butlast a) (butlast xs)"
  by (simp add: butlast_conv_take inshape_take_drop inshape_length)

lemma inshape_last: "inshape a xs \<Longrightarrow> xs \<noteq> [] \<Longrightarrow> inside (last a) (last xs)"
  by (metis inshape_length inshape_nth last_conv_nth length_0_conv length_greater_0_conv diff_less zero_less_one)

lemma gather_sound:
  assumes "inshape data xs" "inshape indices ys" "norm_axis axis (length xs) = Inr ax"
  shows "rgives (gather data indices axis) (\<lambda>c. inshape c (take ax xs @ ys @ drop (Suc ax) xs))"
  using assms inshape_length [OF assms(1)] by (simp add: gather_def inshape_append inshape_take_drop)

lemma gather_nd_sound:
  assumes "inshape data xs" "inshape indices ys" "ys \<noteq> []"
  shows "rmaybe (gather_nd data indices batch_dims) (\<lambda>c. inshape c (butlast ys @ drop (nat (last ys)) xs))"
proof -
  have "lo (last indices) = last ys" if "is_exact (last indices)"
    using inshape_last [OF assms(2,3)] that by (auto simp: inside_def is_exact_def)
  then show ?thesis using assms
    by (auto simp: gather_nd_def rmaybe_def dim_value_def inshape_append inshape_butlast inshape_take_drop)
qed

lemma drop_axes_Nil [simp]: "drop_axes ax [] = []"
  by (simp add: drop_axes_def)

lemma inshape_filter_enum:
  assumes "inshape sh ns"
  shows "inshape (map snd (filter (\<lambda>(i, _). P i) (enum_from k sh))) (map snd (filter (\<lambda>(i, _). P i) (enum_from k ns)))"
  using assms unfolding inshape_def
  by (induction sh ns arbitrary: k rule: list_all2_induct) auto

lemma squeeze_all_sound:
  assumes "inshape sh ns"
  shows "rmaybe (squeeze sh None) (\<lambda>c. inshape c (filter (\<lambda>n. n \<noteq> 1) ns))"
proof (cases "\<exists>d \<in> set sh. contains d 1 \<and> \<not> is_exact d")
  case False
  with assms have "inshape (filter (\<lambda>d. \<not> (is_exact d \<and> lo d = 1)) sh) (filter (\<lambda>n. n \<noteq> 1) ns)"
    unfolding inshape_def
    by (induction sh ns rule: list_all2_induct) (auto simp: inside_iff contains_def is_exact_def split: option.splits)
  then show ?thesis using False by (auto simp: squeeze_def rmaybe_def)
qed (auto simp: squeeze_def rmaybe_def)

lemma squeeze_axes_sound:
  assumes "inshape sh ns" "rmap (\<lambda>a. norm_axis a (length ns)) axes = Inr ax"
  shows "rsome (squeeze sh (Some axes)) (\<lambda>c. inshape c (drop_axes ax ns))"
  using assms inshape_length [OF assms(1)] inshape_filter_enum [OF assms(1), of "\<lambda>i. i \<notin> set ax" 0]
  by (simp add: squeeze_def rsome_def drop_axes_def)

lemma weave_sound:
  "inshape xs ns \<Longrightarrow> inside one 1 \<Longrightarrow> weave ax 1 is ns = Inr ms \<Longrightarrow>
     rgives (weave ax one is xs) (\<lambda>c. inshape c ms)"
proof (induction ax one "is" xs arbitrary: ns ms rule: weave.induct)
  case (1 ax one xs)
  then show ?case by (simp add: inshape_def)
next
  case (2 ax one i "is" xs)
  show ?case
  proof (cases "i \<in> set ax")
    case True
    with "2.prems"(3) obtain ms' where ms: "weave ax 1 is ns = Inr ms'" "ms = 1 # ms'" by (auto simp: res_simps)
    have "rgives (weave ax one is xs) (\<lambda>c. inshape c ms')" using "2.IH"(1) [OF True "2.prems"(1,2) ms(1)] .
    then show ?thesis using True ms "2.prems"(2) by (auto simp: rgives_def inshape_def)
  next
    case False
    with "2.prems"(3) obtain n ns' ms' where ns: "ns = n # ns'" "weave ax 1 is ns' = Inr ms'" "ms = n # ms'"
      by (auto simp: res_simps split: list.splits)
    then obtain x xs' where xs: "xs = x # xs'" "inside x n" "inshape xs' ns'"
      using "2.prems"(1) by (auto simp: inshape_def list_all2_Cons2)
    have "rgives (weave ax one is xs') (\<lambda>c. inshape c ms')"
      using "2.IH"(2) [OF False xs(1) xs(3) "2.prems"(2) ns(2)] .
    then show ?thesis using False ns xs by (auto simp: rgives_def inshape_def)
  qed
qed

lemma unsqueeze_sound:
  assumes "inshape sh ns" and "rmap (\<lambda>a. norm_axis a (length ns + length axes)) axes = Inr ax"
    and "weave ax 1 [0..<length ns + length axes] ns = Inr ms"
  shows "rgives (unsqueeze sh axes) (\<lambda>c. inshape c ms)"
  using weave_sound [OF assms(1) _ assms(3)] assms(2) inshape_length [OF assms(1)]
  by (simp add: unsqueeze_def Let_def exact_one inside_one)

lemma py_nth_sound: "inshape sh ns \<Longrightarrow> py_nth ns i = Inr n \<Longrightarrow> rgives (py_nth sh i) (\<lambda>d. inside d n)"
  using inshape_length [of sh ns] inshape_nth [of sh ns "nat (if i < 0 then i + int (length ns) else i)"]
  by (auto simp: py_nth_def Let_def split: if_splits)

lemma rmap_nth_sound:
  "inshape sh ns \<Longrightarrow> rmap (py_nth ns) is = Inr ms \<Longrightarrow> rgives (rmap (py_nth sh) is) (\<lambda>c. inshape c ms)"
proof (induction "is" arbitrary: ms)
  case Nil
  then show ?case by (simp add: inshape_def)
next
  case (Cons i js)
  then obtain n ms' where ms: "py_nth ns i = Inr n" "rmap (py_nth ns) js = Inr ms'" "ms = n # ms'"
    by (auto simp: res_simps)
  then show ?case using Cons.IH [OF Cons.prems(1) ms(2)] py_nth_sound [OF Cons.prems(1) ms(1)]
    by (auto simp: rgives_def inshape_def)
qed

lemma transpose_sound:
  assumes "inshape sh ns"
    and "rmap (py_nth ns) (case perm of None \<Rightarrow> map int (rev [0..<length ns])
        | Some p \<Rightarrow> if p = [] then map int (rev [0..<length ns]) else p) = Inr ms"
  shows "rgives (transpose_shape sh perm) (\<lambda>c. inshape c ms)"
  using rmap_nth_sound [OF assms] inshape_length [OF assms(1)] by (cases perm) (auto simp: transpose_shape_def split: if_splits)

lemma flatten_sound:
  assumes "inshape sh ns"
  shows "rgives (flatten sh axis) (\<lambda>c. inshape c
    [prod_list (py_upto ns (if axis < 0 then axis + int (length ns) else axis)),
     prod_list (py_from ns (if axis < 0 then axis + int (length ns) else axis))])"
proof -
  define ax where "ax = (if axis < 0 then axis + int (length ns) else axis)"
  have "inshape (py_upto sh ax) (py_upto ns ax)" "inshape (py_from sh ax) (py_from ns ax)"
    using assms by (simp_all add: py_upto_def py_from_def inshape_length inshape_take_drop)
  then obtain a b where "numel (py_upto sh ax) = Inr a" "inside a (prod_list (py_upto ns ax))"
      "numel (py_from sh ax) = Inr b" "inside b (prod_list (py_from ns ax))"
    using numel_sound unfolding rgives_def by blast
  then show ?thesis using inshape_length [OF assms]
    by (auto simp: flatten_def Let_def ax_def inshape_def split: if_splits)
qed

lemma tile_sound:
  assumes "inshape sh ns" "inshape repeats rs" "length rs = length ns"
  shows "rsome (tile sh repeats) (\<lambda>c. inshape c (map2 (*) ns rs))"
proof -
  have "list_all2 (\<lambda>p n. rgives (case p of (d, r) \<Rightarrow> dim_mul d r) (\<lambda>d. inside d n)) (zip sh repeats) (map2 (*) ns rs)"
    using inshape_nth [OF assms(1)] inshape_nth [OF assms(2)] assms(3) inshape_length [OF assms(1)] inshape_length [OF assms(2)]
    by (auto simp: list_all2_conv_all_nth intro: dim_mul_sound)
  then show ?thesis using rgives_rmap [of "\<lambda>p. case p of (d, r) \<Rightarrow> dim_mul d r" inside] assms
      inshape_length [OF assms(1)] inshape_length [OF assms(2)]
    by (auto simp: tile_def inshape_def intro!: rsome_rmap_opt)
qed

lemma reduced_axes_eq: "inshape sh ns \<Longrightarrow> reduced_axes sh axes =
    (case axes of None \<Rightarrow> Inr [0..<length ns] | Some as \<Rightarrow> rmap (\<lambda>a. norm_axis a (length ns)) as)"
  by (cases axes) (simp_all add: reduced_axes_def inshape_length)

lemma reduce_sound:
  assumes "inshape sh ns" "reduced_axes sh axes = Inr red"
  shows "rgives (reduce_shape sh axes keepdims) (\<lambda>c. inshape c
    (if keepdims then map (\<lambda>(i, n). if i \<in> set red then 1 else n) (enumerate_py ns) else drop_axes red ns))"
proof -
  have "inshape (map (\<lambda>(i, d). if i \<in> set red then \<lparr>lo = 1, hi = Some 1, dsym = None\<rparr> else d) (enum_from k sh))
      (map (\<lambda>(i, n). if i \<in> set red then 1 else n) (enum_from k ns))" for k
    using assms(1) unfolding inshape_def
    by (induction sh ns arbitrary: k rule: list_all2_induct) (auto simp: inside_one)
  then show ?thesis using assms inshape_filter_enum [OF assms(1), of "\<lambda>i. i \<notin> set red" 0]
    by (auto simp: reduce_shape_def exact_one drop_axes_def)
qed

lemma reduced_count_sound:
  assumes "inshape sh ns" "reduced_axes sh axes = Inr red"
  shows "rgives (reduced_count sh axes) (\<lambda>d. inside d (prod_list (map snd (filter (\<lambda>(i, _). i \<in> set red) (enumerate_py ns)))))"
  using numel_sound [OF inshape_filter_enum [OF assms(1), of "\<lambda>i. i \<in> set red" 0]] assms(2)
  by (simp add: reduced_count_def)


text \<open>Matrix product of integer shapes: broadcast batch dimensions, then the outer dimensions.\<close>

definition np_matmul :: "int list \<Rightarrow> int list \<Rightarrow> int list option" where
  "np_matmul xs ys =
     (let xs2 = (if length xs = 1 then 1 # xs else xs); ys2 = (if length ys = 1 then ys @ [1] else ys) in
      map_option (\<lambda>batch. batch @ (if length xs = 1 then [] else [last (butlast xs2)]) @
                          (if length ys = 1 then [] else [last ys2]))
        (np_broadcast (butlast (butlast xs2)) (butlast (butlast ys2))))"

lemma matmul_sound:
  assumes a: "inshape a xs" and b: "inshape b ys" and ne: "xs \<noteq> []" "ys \<noteq> []" and m: "np_matmul xs ys = Some zs"
  shows "rsome (matmul_shape a b) (\<lambda>c. inshape c zs)"
proof -
  let ?one = "\<lparr>lo = 1, hi = Some 1, dsym = None\<rparr>"
  define a2 where "a2 = (if length a = 1 then ?one # a else a)"
  define b2 where "b2 = (if length b = 1 then b @ [?one] else b)"
  define xs2 where "xs2 = (if length xs = 1 then 1 # xs else xs)"
  define ys2 where "ys2 = (if length ys = 1 then ys @ [1] else ys)"
  have len: "length a = length xs" "length b = length ys" using a b by (simp_all add: inshape_length)
  have one: "inshape [?one] [1]" by (simp add: inshape_def inside_one)
  have ab2: "inshape a2 xs2" "inshape b2 ys2"
    using a b one len inshape_append [OF one a] inshape_append [OF b one] by (auto simp: a2_def b2_def xs2_def ys2_def)
  have two: "length xs2 \<ge> 2" "ys2 \<noteq> []"
    using ne by (cases xs; auto simp: xs2_def ys2_def Suc_le_eq)+
  have ne2: "butlast xs2 \<noteq> []"
  proof
    assume "butlast xs2 = []"
    then have "length xs2 - 1 = 0" by (metis length_butlast list.size(3))
    then show False using two(1) by simp
  qed
  obtain batch where batch: "np_broadcast (butlast (butlast xs2)) (butlast (butlast ys2)) = Some batch"
      "zs = batch @ (if length xs = 1 then [] else [last (butlast xs2)]) @ (if length ys = 1 then [] else [last ys2])"
    using m by (auto simp: np_matmul_def Let_def xs2_def ys2_def)
  have mm: "inside (last (butlast a2)) (last (butlast xs2))" "inside (last b2) (last ys2)"
    using inshape_last [OF inshape_butlast [OF ab2(1)] ne2] inshape_last [OF ab2(2) two(2)] .
  obtain c where c: "broadcast2 (butlast (butlast a2)) (butlast (butlast b2)) = Inr (Some c)" "inshape c batch"
    using broadcast2_sound [OF inshape_butlast [OF inshape_butlast [OF ab2(1)]]
        inshape_butlast [OF inshape_butlast [OF ab2(2)]] batch(1)]
    by (auto simp: rsome_def rgives_def)
  have "a \<noteq> []" "b \<noteq> []" using ne len by auto
  then have "matmul_shape a b = Inr (Some (c @ (if length a = 1 then [] else [last (butlast a2)]) @
      (if length b = 1 then [] else [last b2])))"
    unfolding matmul_shape_def exact_one rbind.simps Let_def a2_def [symmetric] b2_def [symmetric] bind_opt_def
    using c(1) by simp
  then show ?thesis using c(2) mm len batch(2)
    by (auto simp: rsome_def inshape_def intro!: list_all2_appendI)
qed

section \<open>Reshape\<close>

text \<open>
  Reshape of integer shapes: entry 0 copies the input dimension (unless \<^verbatim>\<open>allowzero\<close>), entry -1 is
  inferred, and the number of elements is kept; the product of the other dimensions is not 0
  when one is inferred.
\<close>

definition reshape_entry :: "int list \<Rightarrow> bool \<Rightarrow> nat \<Rightarrow> int \<Rightarrow> int \<Rightarrow> bool" where
  "reshape_entry xs allowzero i t n \<longleftrightarrow>
     (if t = - 1 then 0 \<le> n
      else if t = 0 \<and> \<not> allowzero then i < length xs \<and> n = xs ! i
      else 0 \<le> t \<and> n = t)"

definition reshape_ok :: "int list \<Rightarrow> bool \<Rightarrow> int list \<Rightarrow> int list \<Rightarrow> bool" where
  "reshape_ok xs allowzero ts ns \<longleftrightarrow>
     length ns = length ts \<and> (\<forall>i < length ts. reshape_entry xs allowzero i (ts ! i) (ns ! i)) \<and>
     prod_list ns = prod_list xs \<and>
     (\<forall>i < length ts. ts ! i = - 1 \<longrightarrow> prod_list (map (\<lambda>(t, n). if t = - 1 then 1 else n) (zip ts ns)) > 0)"

text \<open>The integer lies between the two floats.\<close>

definition fl_between :: "fl \<times> fl \<Rightarrow> int \<Rightarrow> bool" where
  "fl_between p t \<longleftrightarrow> fl_le (fst p) (Fin (of_int t)) \<and> fl_le (Fin (of_int t)) (snd p)"

text \<open>A dimension of the loop's result: the marker for the inferred one, or a range that holds \<open>n\<close>.\<close>

definition reshape_rel :: "dim option \<Rightarrow> int \<times> int \<Rightarrow> bool" where
  "reshape_rel x = (\<lambda>(t, n). case x of None \<Rightarrow> t = - 1 | Some d \<Rightarrow> t \<noteq> - 1 \<and> inside d n)"

lemma between_cases:
  assumes "fl_between (a, b) t"
  obtains "a = NInf" | r where "a = Fin r" "r \<le> of_int t" "b = PInf"
    | r s where "a = Fin r" "r \<le> of_int t" "b = Fin s" "of_int t \<le> s"
  using assms by (cases a; cases b) (auto simp: fl_between_def)

lemma fl_lt_Fin [simp]: "fl_lt NInf (Fin x)" "fl_lt (Fin x) (Fin y) \<longleftrightarrow> x < y"
  by (auto simp: fl_lt_def)

lemma reshape_range_dim:
  assumes bt: "fl_between (a, b) t" and lt: "\<not> fl_lt a zero_fl" and t: "0 \<le> t"
  obtains l h d where "fl_floor a = Inr l" "(if isfinite b then rbind (fl_ceil b) (\<lambda>h. Inr (Some h)) else Inr None) = Inr h"
    "Dim (max 0 l) h None = Inr d" "inside d t"
  using bt
proof (cases rule: between_cases)
  case 1
  then show ?thesis using lt by (simp add: zero_fl_def)
next
  case (2 r)
  then have "\<lfloor>r\<rfloor> \<le> t" by linarith
  then obtain d where "Dim (max 0 \<lfloor>r\<rfloor>) None None = Inr d" "inside d t"
    using inside_Dim [of t "max 0 \<lfloor>r\<rfloor>" None None] t by (auto simp: rgives_def)
  then show ?thesis using that 2 by simp
next
  case (3 r s)
  then have "\<lfloor>r\<rfloor> \<le> t" "t \<le> \<lceil>s\<rceil>" by linarith+
  then obtain d where "Dim (max 0 \<lfloor>r\<rfloor>) (Some \<lceil>s\<rceil>) None = Inr d" "inside d t"
    using inside_Dim [of t "max 0 \<lfloor>r\<rfloor>" "Some \<lceil>s\<rceil>" None] t by (auto simp: rgives_def)
  then show ?thesis using that 3 by simp
qed


lemma reshape_loop_Cons:
  assumes "rmaybe (reshape_loop sh az (Suc i) inf' ps) (\<lambda>ds. list_all2 reshape_rel ds tns \<and> length (filter (\<lambda>x. x = None) ds) \<le> k)"
    and "reshape_rel x (t, n)"
  shows "rmaybe (bind_opt (reshape_loop sh az (Suc i) inf' ps) (\<lambda>ds. Inr (Some (x # ds))))
    (\<lambda>ds. list_all2 reshape_rel ds ((t, n) # tns) \<and> length (filter (\<lambda>x. x = None) ds) \<le> (if x = None then Suc k else k))"
  by (rule rmaybe_bind [OF assms(1)]) (use assms(2) in \<open>auto simp: rmaybe_def\<close>)

lemma reshape_loop_sound:
  assumes sh: "inshape sh xs"
  shows "list_all2 fl_between ps ts \<Longrightarrow> length ns = length ts \<Longrightarrow>
     \<forall>k < length ts. reshape_entry xs az (i + k) (ts ! k) (ns ! k) \<Longrightarrow>
     rmaybe (reshape_loop sh az i inferred ps)
       (\<lambda>ds. list_all2 reshape_rel ds (zip ts ns) \<and> length (filter (\<lambda>x. x = None) ds) \<le> (if inferred then 0 else 1))"
proof (induction ps ts arbitrary: i inferred ns rule: list_all2_induct)
  case Nil
  then show ?case by (simp add: rmaybe_def)
next
  case (Cons p ps t ts)
  obtain a b where p: "p = (a, b)" by (cases p)
  obtain n ns' where ns: "ns = n # ns'" "length ns' = length ts" using Cons.prems(1) by (cases ns) auto
  have e: "reshape_entry xs az i t n" using Cons.prems(2) ns by force
  have es: "\<forall>k < length ts. reshape_entry xs az (Suc i + k) (ts ! k) (ns' ! k)"
  proof (intro allI impI)
    fix k assume "k < length ts"
    then have "reshape_entry xs az (i + Suc k) ((t # ts) ! Suc k) (ns ! Suc k)" using Cons.prems(2) by (metis Suc_less_eq length_Cons)
    then show "reshape_entry xs az (Suc i + k) (ts ! k) (ns' ! k)" using ns by simp
  qed
  note IH = Cons.IH [OF ns(2) es]
  have bt: "fl_between (a, b) t" using Cons.hyps(1) p by simp
  have pin: "t = v" if "fl_eq a b" "fl_eq a (Fin (of_int v))" for v
    using bt that by (cases rule: between_cases) auto
  let ?goal = "rmaybe (reshape_loop sh az i inferred (p # ps))
      (\<lambda>ds. list_all2 reshape_rel ds (zip (t # ts) ns) \<and> length (filter (\<lambda>x. x = None) ds) \<le> (if inferred then 0 else 1))"
  consider (neg) "fl_eq a b \<and> fl_eq a neg_one_fl"
    | (zero) "\<not> (fl_eq a b \<and> fl_eq a neg_one_fl)" "fl_eq a b \<and> fl_eq a zero_fl \<and> \<not> az"
    | (unknown) "\<not> (fl_eq a b \<and> fl_eq a neg_one_fl)" "\<not> (fl_eq a b \<and> fl_eq a zero_fl \<and> \<not> az)"
        "fl_lt a zero_fl \<or> (fl_le a zero_fl \<and> fl_le zero_fl b \<and> \<not> az \<and> \<not> fl_eq a b)"
    | (range) "\<not> (fl_eq a b \<and> fl_eq a neg_one_fl)" "\<not> (fl_eq a b \<and> fl_eq a zero_fl \<and> \<not> az)"
        "\<not> (fl_lt a zero_fl \<or> (fl_le a zero_fl \<and> fl_le zero_fl b \<and> \<not> az \<and> \<not> fl_eq a b))" by blast
  then show ?case
  proof cases
    case neg
    then have t: "t = - 1" using pin [of "- 1"] by (simp add: neg_one_fl_def)
    then have "reshape_rel None (t, n)" by (simp add: reshape_rel_def)
    from reshape_loop_Cons [OF IH [of True] this] show ?thesis
      using neg by (auto simp: p ns rmaybe_def)
  next
    case zero
    then have t: "t = 0" using pin [of 0] by (simp add: zero_fl_def)
    then have i: "i < length xs" "n = xs ! i" using e zero by (auto simp: reshape_entry_def)
    then have "reshape_rel (Some (sh ! i)) (t, n)" using inshape_nth [OF sh] t by (simp add: reshape_rel_def)
    then show ?thesis
      using zero reshape_loop_Cons [OF IH [of inferred], of "Some (sh ! i)" t n] i inshape_length [OF sh]
      by (auto simp: p ns)
  next
    case unknown
    then show ?thesis by (auto simp: p rmaybe_def)
  next
    case range
    have t0: "0 \<le> t" using bt range(3) by (cases rule: between_cases) (auto simp: zero_fl_def not_less)
    have "\<not> (t = 0 \<and> \<not> az)"
      using bt range by (cases rule: between_cases) (auto simp: zero_fl_def not_less)
    then have n: "n = t" "t \<noteq> - 1" using e t0 by (auto simp: reshape_entry_def)
    obtain l h d where d: "fl_floor a = Inr l" "(if isfinite b then rbind (fl_ceil b) (\<lambda>h. Inr (Some h)) else Inr None) = Inr h"
        "Dim (max 0 l) h None = Inr d" "inside d t"
      using reshape_range_dim [OF bt _ t0] range(3) by metis
    then have "reshape_rel (Some d) (t, n)" using n by (simp add: reshape_rel_def)
    moreover have "reshape_loop sh az i inferred ((a, b) # ps) =
        bind_opt (reshape_loop sh az (Suc i) inferred ps) (\<lambda>ds. Inr (Some (Some d # ds)))"
      unfolding reshape_loop.simps if_not_P [OF range(1)] if_not_P [OF range(2)] if_not_P [OF range(3)]
        d(1) rbind.simps d(2) d(3) ..
    ultimately show ?thesis using reshape_loop_Cons [OF IH [of inferred], of "Some d" t n] by (simp add: p ns)
  qed
qed

lemma ceil_div_le: "0 < m \<Longrightarrow> n \<le> v * m \<Longrightarrow> ceil_div n m \<le> v"
  unfolding ceil_div_def by (metis minus_le_iff minus_mult_left neg_le_iff_le zdiv_mono1 nonzero_mult_div_cancel_right less_irrefl)

lemma reshape_rest:
  "list_all2 reshape_rel ds tns \<Longrightarrow>
     list_all2 inside (List.map_filter id ds) (map snd (filter (\<lambda>(t, n). t \<noteq> - 1) tns))"
  by (induction ds tns rule: list_all2_induct) (auto simp: reshape_rel_def map_filter_simps split: option.splits)

lemma rest_prod:
  "prod_list (map snd (filter (\<lambda>(t, n). t \<noteq> - 1) tns)) = prod_list (map (\<lambda>(t, n :: int). if t = (- 1 :: int) then 1 else n) tns)"
  by (induction tns) auto

lemma inferred_dim_sound:
  assumes n: "inside n (v * r)" and v: "0 \<le> v" and r: "0 < r"
    and ds: "list_all2 inside (List.map_filter id ds) rs" "prod_list rs = r"
  shows "rgives (inferred_dim n ds) (\<lambda>d. inside d v)"
proof -
  obtain rest where rest: "rfold dim_mul \<lparr>lo = 1, hi = Some 1, dsym = None\<rparr> (List.map_filter id ds) = Inr rest" "inside rest r"
    using mul_op.fold_sound [OF ds(1), of "\<lparr>lo = 1, hi = Some 1, dsym = None\<rparr>" 1] ds(2)
    by (auto simp: inside_one foldl_mult rgives_def)
  show ?thesis
  proof (cases "lo rest = 0")
    case True
    have "v \<le> v * r" using v r by (simp add: mult_le_cancel_left1)
    then have "rgives (Dim 0 (hi n) None) (\<lambda>d. inside d v)"
      using n v by (intro inside_Dim) (auto simp: inside_def)
    then show ?thesis using True rest(1) by (simp add: inferred_dim_def exact_one)
  next
    case False
    then have lo: "0 < lo rest" "lo rest \<le> r" using rest(2) by (auto simp: inside_def)
    have "rgives (Dim (case hi rest of None \<Rightarrow> 0 | Some r \<Rightarrow> ceil_div (lo n) r)
                (map_option (\<lambda>h. h div lo rest) (hi n)) None) (\<lambda>d. inside d v)"
    proof (rule inside_Dim)
      show "(case hi rest of None \<Rightarrow> 0 | Some r \<Rightarrow> ceil_div (lo n) r) \<le> v"
      proof (cases "hi rest")
        case (Some q)
        then have "r \<le> q" using rest(2) by (auto simp: inside_def)
        then have "lo n \<le> v * q" using n v by (metis inside_def mult_left_mono order_trans)
        then show ?thesis using Some ceil_div_le [of q "lo n" v] \<open>r \<le> q\<close> r by simp
      qed (simp add: v)
      show "v \<le> u" if u: "map_option (\<lambda>h. h div lo rest) (hi n) = Some u" for u
      proof -
        obtain h where h: "hi n = Some h" "u = h div lo rest" using u by auto
        have "v * lo rest \<le> v * r" using v lo(2) by (rule mult_left_mono [rotated])
        also have "\<dots> \<le> h" using n h by (auto simp: inside_def)
        finally have "v * lo rest div lo rest \<le> h div lo rest" using lo(1) by (rule zdiv_mono1)
        then show ?thesis using h(2) lo(1) by simp
      qed
    qed (rule v)
    then show ?thesis using False rest(1) by (simp add: inferred_dim_def exact_one)
  qed
qed


lemma no_marker: "None \<notin> set ds \<Longrightarrow> list_all2 reshape_rel ds tns \<Longrightarrow> inshape (List.map_filter id ds) (map snd tns)"
  by (induction ds arbitrary: tns) (auto simp: inshape_def list_all2_Cons1 reshape_rel_def map_filter_simps split: option.splits)

lemma fill_marker:
  assumes "list_all2 reshape_rel ds tns" "\<forall>(t, n) \<in> set tns. t = - 1 \<longrightarrow> inside d n"
  shows "inshape (map (\<lambda>x. case x of None \<Rightarrow> d | Some y \<Rightarrow> y) ds) (map snd tns)"
  using assms unfolding inshape_def
  by (induction ds tns rule: list_all2_induct) (auto simp: reshape_rel_def split: option.splits)

text \<open>With one marker, the other dimensions times the inferred one is the number of elements.\<close>

lemma one_marker:
  assumes "list_all2 reshape_rel ds tns" "length (filter (\<lambda>x. x = None) ds) \<le> 1" "None \<in> set ds"
  obtains v where "\<forall>(t, n) \<in> set tns. t = - 1 \<longrightarrow> n = v" "(- 1, v) \<in> set tns"
    "prod_list (map snd tns) = v * prod_list (map (\<lambda>(t, n). if t = - 1 then 1 else n) tns)"
proof -
  have none: "prod_list (map snd tns) = prod_list (map (\<lambda>(t, n). if t = - 1 then 1 else n) tns) \<and> (\<forall>(t, n) \<in> set tns. t \<noteq> - 1)"
    if "list_all2 reshape_rel ds tns" "None \<notin> set ds" for ds tns
    using that
  proof (induction ds tns rule: list_all2_induct)
    case (Cons x ds tn tns)
    then obtain d where "x = Some d" by (cases x) auto
    with Cons show ?case by (cases tn) (auto simp: reshape_rel_def)
  qed simp
  have "\<exists>v. (\<forall>(t, n) \<in> set tns. t = - 1 \<longrightarrow> n = v) \<and> (- 1, v) \<in> set tns \<and>
      prod_list (map snd tns) = v * prod_list (map (\<lambda>(t, n). if t = - 1 then 1 else n) tns)"
    using assms
  proof (induction ds tns rule: list_all2_induct)
    case Nil
    then show ?case by simp
  next
    case (Cons x ds tn tns)
    obtain t n where tn: "tn = (t, n)" by (cases tn)
    show ?case
    proof (cases x)
      case None
      then have "None \<notin> set ds" using Cons.prems(1) by (auto simp: filter_empty_conv)
      from none [OF Cons.hyps(2) this] show ?thesis using None Cons.hyps(1) tn
        by (intro exI [of _ n]) (auto simp: reshape_rel_def)
    next
      case (Some d)
      then obtain v where "(\<forall>(t, n) \<in> set tns. t = - 1 \<longrightarrow> n = v) \<and> (- 1, v) \<in> set tns \<and>
          prod_list (map snd tns) = v * prod_list (map (\<lambda>(t, n). if t = - 1 then 1 else n) tns)"
        using Cons.IH Cons.prems by auto
      then show ?thesis using Some Cons.hyps(1) tn by (intro exI [of _ v]) (auto simp: reshape_rel_def mult.left_commute)
    qed
  qed
  then show thesis using that by blast
qed

text \<open>
  C10. Reshape. When the input shape lies in its range and the target vector lies between its elementwise
  bounds, \<^verbatim>\<open>reshape\<close> does not raise: it answers None, or a ranged shape that holds the shape
  ONNX Reshape gives, with the inferred dimension included.
\<close>

theorem reshape_contains_result:
  assumes "inshape sh xs" and "length hs = length ls" and "list_all2 fl_between (zip ls hs) ts"
    and "reshape_ok xs az ts ns"
  shows "reshape sh ls hs az = Inr None \<or> (\<exists>c. reshape sh ls hs az = Inr (Some c) \<and> inshape c ns)"
proof -
  let ?tns = "zip ts ns"
  have len: "length ns = length ts" and prod: "prod_list ns = prod_list xs"
    and pos: "\<forall>i < length ts. ts ! i = - 1 \<longrightarrow> prod_list (map (\<lambda>(t, n). if t = - 1 then 1 else n) ?tns) > 0"
    using assms(4) by (simp_all add: reshape_ok_def)
  have entry: "\<forall>k < length ts. reshape_entry xs az (0 + k) (ts ! k) (ns ! k)" using assms(4) by (simp add: reshape_ok_def)
  have snd: "map snd ?tns = ns" using len by simp
  obtain N where N: "numel sh = Inr N" "inside N (prod_list xs)"
    using numel_sound [OF assms(1)] by (auto simp: rgives_def)
  from reshape_loop_sound [OF assms(1,3) len entry, of False] consider
      "reshape_loop sh az 0 False (zip ls hs) = Inr None"
    | ds where "reshape_loop sh az 0 False (zip ls hs) = Inr (Some ds)" "list_all2 reshape_rel ds ?tns"
        "length (filter (\<lambda>x. x = None) ds) \<le> 1"
    by (auto simp: rmaybe_def rgives_def)
  then show ?thesis
  proof cases
    case 1
    then show ?thesis by (simp add: reshape_def bind_opt_def)
  next
    case (2 ds)
    show ?thesis
    proof (cases "None \<in> set ds")
      case False
      then show ?thesis using 2 N no_marker [OF False 2(2)] snd by (simp add: reshape_def bind_opt_def)
    next
      case True
      obtain v where v: "\<forall>(t, n) \<in> set ?tns. t = - 1 \<longrightarrow> n = v" "(- 1, v) \<in> set ?tns"
          "prod_list (map snd ?tns) = v * prod_list (map (\<lambda>(t, n). if t = - 1 then 1 else n) ?tns)"
        using one_marker [OF 2(2,3) True] by blast
      obtain i where i: "i < length ts" "ts ! i = - 1" "ns ! i = v" using v(2) len by (auto simp: in_set_zip)
      then have v0: "0 \<le> v" using entry by (auto simp: reshape_entry_def)
      have r0: "0 < prod_list (map (\<lambda>(t, n). if t = - 1 then 1 else n) ?tns)" using pos i by blast
      have "inside N (v * prod_list (map (\<lambda>(t, n). if t = - 1 then 1 else n) ?tns))"
        using N(2) prod v(3) snd by simp
      from inferred_dim_sound [OF this v0 r0 reshape_rest [OF 2(2)] rest_prod]
      obtain d where d: "inferred_dim N ds = Inr d" "inside d v" by (auto simp: rgives_def)
      have "\<forall>(t, n) \<in> set ?tns. t = - 1 \<longrightarrow> inside d n" using v(1) d(2) by fast
      from fill_marker [OF 2(2) this] have "inshape (map (\<lambda>x. case x of None \<Rightarrow> d | Some y \<Rightarrow> y) ds) ns"
        using snd by simp
      then show ?thesis using 2(1) N(1) d(1) True by (simp add: reshape_def bind_opt_def)
    qed
  qed
qed

theorem reshape_contains_result_witness:
  "reshape [\<lparr>lo = 2, hi = Some 4, dsym = None\<rparr>, \<lparr>lo = 6, hi = Some 6, dsym = None\<rparr>]
       [Fin 3, Fin (- 1)] [Fin 3, Fin (- 1)] False =
     Inr (Some [\<lparr>lo = 3, hi = Some 3, dsym = None\<rparr>, \<lparr>lo = 4, hi = Some 8, dsym = None\<rparr>]) \<and>
   inshape [\<lparr>lo = 3, hi = Some 3, dsym = None\<rparr>, \<lparr>lo = 4, hi = Some 8, dsym = None\<rparr>] [3, 6]"
proof -
  let ?sh = "[\<lparr>lo = 2, hi = Some 4, dsym = None\<rparr>, \<lparr>lo = 6, hi = Some 6, dsym = None\<rparr>] :: shape"
  have ev: "reshape ?sh [Fin 3, Fin (- 1)] [Fin 3, Fin (- 1)] False =
     Inr (Some [\<lparr>lo = 3, hi = Some 3, dsym = None\<rparr>, \<lparr>lo = 4, hi = Some 8, dsym = None\<rparr>])"
    by code_simp
  have "list_all2 fl_between (zip [Fin 3, Fin (- 1)] [Fin 3, Fin (- 1)]) [3, - 1]" by (simp add: fl_between_def)
  moreover have "reshape_ok [3, 6] False [3, - 1] [3, 6]"
    by (auto simp: reshape_ok_def reshape_entry_def less_Suc_eq numeral_2_eq_2)
  ultimately show ?thesis
    using ev reshape_contains_result [of ?sh "[3, 6]" "[Fin 3, Fin (- 1)]" "[Fin 3, Fin (- 1)]" "[3, - 1]" False "[3, 6]"]
    by (auto simp: inshape_def inside_def)
qed


section \<open>Slice\<close>

lemma ceil_div_le_iff: "0 < m \<Longrightarrow> ceil_div n m \<le> v \<longleftrightarrow> n \<le> v * m"
proof
  assume m: "0 < m" and "ceil_div n m \<le> v"
  then have "- v \<le> (- n) div m" by (simp add: ceil_div_def)
  then have "- v * m \<le> (- n) div m * m" by (rule mult_right_mono) (use m in simp)
  also have "\<dots> \<le> - n" using m by (simp add: minus_mod_eq_div_mult [symmetric])
  finally show "n \<le> v * m" by simp
qed (rule ceil_div_le)

lemma card_steps: "0 < m \<Longrightarrow> int (card {k :: nat. int k * m < n}) = max 0 (ceil_div n m)"
proof -
  assume m: "0 < m"
  have "{k :: nat. int k * m < n} = {..<nat (max 0 (ceil_div n m))}"
  proof (intro set_eqI iffI)
    fix k :: nat
    assume "k \<in> {k. int k * m < n}"
    then have "\<not> ceil_div n m \<le> int k" using ceil_div_le_iff [OF m, of n "int k"] by simp
    then show "k \<in> {..<nat (max 0 (ceil_div n m))}" by auto
  next
    fix k :: nat
    assume "k \<in> {..<nat (max 0 (ceil_div n m))}"
    then have "\<not> ceil_div n m \<le> int k" by auto
    then show "k \<in> {k. int k * m < n}" using ceil_div_le_iff [OF m, of n "int k"] by simp
  qed
  then show ?thesis by simp
qed

text \<open>
  The indices a Python slice \<^verbatim>\<open>start:stop:step\<close> of a sequence of length \<open>n\<close> visits: negative
  bounds count from the end, both bounds are clamped, then the walk goes by \<open>step\<close> up to the end.
\<close>

definition slice_bound :: "int \<Rightarrow> int \<Rightarrow> int \<Rightarrow> int" where
  "slice_bound n step b =
     (let b' = (if b < 0 then b + n else b) in
      if step > 0 then min (max b' 0) n else min (max b' (- 1)) (n - 1))"

definition slice_indices :: "int \<Rightarrow> int \<Rightarrow> int \<Rightarrow> int \<Rightarrow> int set" where
  "slice_indices n start stop step =
     {slice_bound n step start + int k * step | k.
        if step > 0 then slice_bound n step start + int k * step < slice_bound n step stop
        else slice_bound n step stop < slice_bound n step start + int k * step}"

lemma card_walk:
  assumes "0 < m"
  shows "int (card {s + int k * m | k. s + int k * m < e}) = max 0 (ceil_div (e - s) m)"
    and "int (card {s + int k * - m | k. e < s + int k * - m}) = max 0 (ceil_div (s - e) m)"
proof -
  have inj: "inj_on (\<lambda>k. s + int k * m) A" "inj_on (\<lambda>k. s + int k * - m) A" for A
    using assms by (simp_all add: inj_on_def)
  have "{s + int k * m | k. s + int k * m < e} = (\<lambda>k. s + int k * m) ` {k. int k * m < e - s}"
    unfolding image_Collect less_diff_eq by (simp add: add.commute)
  then show "int (card {s + int k * m | k. s + int k * m < e}) = max 0 (ceil_div (e - s) m)"
    using card_steps [OF assms] card_image [OF inj(1)] by simp
  have "{s + int k * - m | k. e < s + int k * - m} = (\<lambda>k. s + int k * - m) ` {k. int k * m < s - e}"
    unfolding image_Collect less_diff_eq by (simp add: add.commute less_diff_eq)
  then show "int (card {s + int k * - m | k. e < s + int k * - m}) = max 0 (ceil_div (s - e) m)"
    using card_steps [OF assms] card_image [OF inj(2)] by simp
qed

lemma slice_len_card:
  assumes "step \<noteq> 0"
  shows "slice_len n start stop step = int (card (slice_indices n start stop step))"
proof (cases "step > 0")
  case True
  have "slice_len n start stop step =
      max 0 (ceil_div (slice_bound n step stop - slice_bound n step start) step)"
    unfolding slice_len_def slice_bound_def Let_def if_P [OF True] ..
  then show ?thesis unfolding slice_indices_def if_P [OF True] card_walk(1) [OF True] .
next
  case False
  then have neg: "0 < - step" using assms by simp
  have "slice_len n start stop step =
      max 0 (ceil_div (slice_bound n step start - slice_bound n step stop) (- step))"
    unfolding slice_len_def slice_bound_def Let_def if_not_P [OF False] ..
  then show ?thesis unfolding slice_indices_def if_not_P [OF False]
    card_walk(2) [OF neg, unfolded minus_minus] .
qed

lemma slice_indices_range: "0 \<le> n \<Longrightarrow> slice_indices n start stop step \<subseteq> {0..<n}"
proof
  fix i
  assume n: "0 \<le> n" and "i \<in> slice_indices n start stop step"
  then obtain k where i: "i = slice_bound n step start + int k * step"
      "if step > 0 then i < slice_bound n step stop else slice_bound n step stop < i"
    by (auto simp: slice_indices_def)
  show "i \<in> {0..<n}"
  proof (cases "step > 0")
    case True
    then have "0 \<le> int k * step" "0 \<le> slice_bound n step start" "slice_bound n step stop \<le> n"
      using n by (auto simp: slice_bound_def Let_def)
    then show ?thesis using i True by auto
  next
    case False
    then have "int k * step \<le> 0" "slice_bound n step start \<le> n - 1" "- 1 \<le> slice_bound n step stop"
      using n by (auto simp: slice_bound_def Let_def mult_nonneg_nonpos)
    then show ?thesis using i False by auto
  qed
qed

text \<open>
  Slice length. \<^verbatim>\<open>_slice_len\<close> is the number of indices the slice visits, all of them valid.
\<close>

theorem slice_len_counts_indices:
  assumes "0 \<le> n" and "step \<noteq> 0"
  shows "slice_len n start stop step = int (card (slice_indices n start stop step)) \<and>
    slice_indices n start stop step \<subseteq> {0..<n}"
  using slice_len_card [OF assms(2)] slice_indices_range [OF assms(1)] by blast

theorem slice_len_counts_indices_witness:
  "slice_len 10 (- 3) (- 100) (- 2) = 4 \<and> card (slice_indices 10 (- 3) (- 100) (- 2)) = 4"
proof -
  have "slice_len 10 (- 3) (- 100) (- 2) = 4" by code_simp
  then show ?thesis using slice_len_counts_indices [of 10 "- 2" "- 3" "- 100"] by simp
qed

lemma slice_len_bounds: "0 \<le> n \<Longrightarrow> step \<noteq> 0 \<Longrightarrow> 0 \<le> slice_len n start stop step \<and> slice_len n start stop step \<le> n"
  using slice_len_card [of step n start stop] card_mono [OF _ slice_indices_range [of n start stop step]]
  by simp

lemma slice_dim_sound:
  assumes d: "inside d n" and step: "sp \<noteq> 0"
  shows "rgives (slice_dim limit d st en sp) (\<lambda>c. inside c (slice_len n st en sp))"
proof -
  note b = slice_len_bounds [OF inside_nonneg [OF d] step, of st en]
  show ?thesis
  proof (cases "hi d")
    case None
    then show ?thesis using b inside_Dim [of "slice_len n st en sp" 0 None None] by (simp add: slice_dim_def)
  next
    case (Some h)
    then have n: "lo d \<le> n" "n \<le> h" using d by (auto simp: inside_def)
    let ?lens = "map (\<lambda>n. slice_len n st en sp) [lo d..h]"
    have mem: "slice_len n st en sp \<in> set ?lens" using n by simp
    have "rgives (Dim (Min (set ?lens)) (Some (Max (set ?lens))) None) (\<lambda>c. inside c (slice_len n st en sp))"
      using b mem by (intro inside_Dim) (auto intro: Min_le Max_ge simp del: set_map)
    moreover have "rgives (Dim 0 (if sp = 1 then Some h else None) None) (\<lambda>c. inside c (slice_len n st en sp))"
      using b n by (intro inside_Dim) (auto split: if_splits)
    ultimately show ?thesis using Some by (simp add: slice_dim_def Let_def del: set_map)
  qed
qed

text \<open>The sliced integer shape.\<close>

definition slice_result :: "int list \<Rightarrow> (int \<times> int \<times> nat \<times> int) list \<Rightarrow> int list \<Rightarrow> int list" where
  "slice_result ns qs out = fold (\<lambda>(st, en, ax, sp) out. out[ax := slice_len (ns ! ax) st en sp]) qs out"

lemma slice_loop_sound:
  assumes sh: "inshape sh ns"
  shows "inshape out ms \<Longrightarrow> \<forall>(st, en, ax, sp) \<in> set qs. ax < length ns \<and> sp \<noteq> 0 \<Longrightarrow>
    rsome (slice_loop limit sh out qs) (\<lambda>c. inshape c (slice_result ns qs ms))"
proof (induction qs arbitrary: out ms)
  case Nil
  then show ?case by (simp add: rsome_def slice_result_def)
next
  case (Cons q qs)
  obtain st en ax sp where q: "q = (st, en, ax, sp)" by (cases q) auto
  then have ax: "ax < length ns" "sp \<noteq> 0" using Cons.prems(2) by auto
  obtain d where d: "slice_dim limit (sh ! ax) st en sp = Inr d" "inside d (slice_len (ns ! ax) st en sp)"
    using slice_dim_sound [OF inshape_nth [OF sh ax(1)] ax(2), of limit st en] by (auto simp: rgives_def)
  have "inshape (out[ax := d]) (ms[ax := slice_len (ns ! ax) st en sp])"
    using inshape_update [OF Cons.prems(1) d(2)] .
  from Cons.IH [OF this] Cons.prems(2) show ?case
    using d(1) ax inshape_length [OF sh] by (simp add: q slice_result_def)
qed



end
