(* ===== verification/Shape_Data.thy ===== *)
theory Shape_Data
  imports Shape_Soundness
begin

text \<open>
  Soundness of the rules of \<^verbatim>\<open>onnxsim/shape_ranges.py\<close> for operators whose output size depends on
  the data: NonZero, TopK, Compress, Unique, NonMaxSuppression and Range.
\<close>

lemma rgives_pair: "rgives (exact (int r)) (\<lambda>d. inside d (int r))"
  by (rule inside_exact) simp

lemma min_hi_bound: "(\<And>u. a = Some u \<Longrightarrow> n \<le> u) \<Longrightarrow> (\<And>u. b = Some u \<Longrightarrow> n \<le> u) \<Longrightarrow> min_hi a b = Some u \<Longrightarrow> n \<le> u"
  by (auto simp: min_hi_def split: option.splits)

text \<open>The elements of the tensor; NonZero's count is how many differ from zero.\<close>

definition nonzero_count :: "rat list \<Rightarrow> int" where
  "nonzero_count vs = int (length (filter (\<lambda>v. v \<noteq> 0) vs))"

definition in_hull :: "fl \<times> fl \<Rightarrow> rat list \<Rightarrow> bool" where
  "in_hull h vs \<longleftrightarrow> (\<forall>v \<in> set vs. fl_le (fst h) (Fin v) \<and> fl_le (Fin v) (snd h))"

lemma nonzero_count_bounds: "0 \<le> nonzero_count vs" "nonzero_count vs \<le> int (length vs)"
  by (auto simp: nonzero_count_def length_filter_le)

lemma hull_excludes_zero:
  assumes "in_hull (l, h) vs" and "fl_lt zero_fl l \<or> fl_lt h zero_fl"
  shows "nonzero_count vs = int (length vs)"
proof -
  have "v \<noteq> 0" if "v \<in> set vs" for v
    using assms that by (cases l; cases h) (auto simp: in_hull_def zero_fl_def fl_lt_def)
  then show ?thesis by (simp add: nonzero_count_def filter_id_conv [THEN iffD2])
qed

lemma hull_is_zero:
  assumes "in_hull (l, h) vs" and "fl_eq l zero_fl" "fl_eq h zero_fl"
  shows "nonzero_count vs = 0"
proof -
  have "v = 0" if "v \<in> set vs" for v
    using assms that by (cases l; cases h) (auto simp: in_hull_def zero_fl_def)
  then show ?thesis by (simp add: nonzero_count_def)
qed

lemma nonzero_dim_sound:
  assumes n: "inside n (int (length vs))"
    and df: "\<And>d p. definitely = Some d \<Longrightarrow> possibly = Some p \<Longrightarrow> d \<le> nonzero_count vs \<and> nonzero_count vs \<le> p"
    and hull: "\<And>h. value_hull = Some h \<Longrightarrow> in_hull h vs"
  shows "rgives (nonzero_dim n definitely possibly value_hull) (\<lambda>d. inside d (nonzero_count vs))"
proof -
  let ?N = "nonzero_count vs"
  have weak: "rgives (Dim 0 (hi n) None) (\<lambda>d. inside d ?N)"
    by (rule inside_Dim) (use n nonzero_count_bounds [of vs] in \<open>force simp: inside_def\<close>)+
  have hulled: "rgives (case value_hull of
             Some (l, h) \<Rightarrow>
               if fl_lt zero_fl l \<or> fl_lt h zero_fl then Dim (lo n) (hi n) None
               else if fl_eq l zero_fl \<and> fl_eq h zero_fl then exact 0
               else Dim 0 (hi n) None
           | None \<Rightarrow> Dim 0 (hi n) None) (\<lambda>d. inside d ?N)"
  proof (cases value_hull)
    case (Some q)
    obtain l h where q: "q = (l, h)" by (cases q)
    have ih: "in_hull (l, h) vs" using hull Some q by simp
    have "rgives (Dim (lo n) (hi n) None) (\<lambda>d. inside d ?N)" if "fl_lt zero_fl l \<or> fl_lt h zero_fl"
      by (rule inside_Dim) (use hull_excludes_zero [OF ih that] n in \<open>auto simp: inside_def\<close>)
    moreover have "rgives (exact 0) (\<lambda>d. inside d ?N)" if "fl_eq l zero_fl \<and> fl_eq h zero_fl"
      using hull_is_zero [OF ih] that inside_exact [of 0] by simp
    ultimately show ?thesis using weak Some q by simp
  qed (simp add: weak)
  show ?thesis
  proof (cases "\<exists>d p. definitely = Some d \<and> possibly = Some p")
    case True
    then obtain d p where dp: "definitely = Some d" "possibly = Some p" by blast
    have "rgives (Dim d (Some p) None) (\<lambda>d. inside d ?N)"
      by (rule inside_Dim) (use df [OF dp] nonzero_count_bounds in auto)
    then show ?thesis using dp by (simp add: nonzero_dim_def)
  next
    case False
    then show ?thesis using hulled by (cases possibly; cases definitely) (auto simp: nonzero_dim_def)
  qed
qed

lemma nonzero_sound:
  assumes sh: "inshape sh ns" and len: "int (length vs) = prod_list ns"
    and df: "\<And>d p. definitely = Some d \<Longrightarrow> possibly = Some p \<Longrightarrow> d \<le> nonzero_count vs \<and> nonzero_count vs \<le> p"
    and hull: "\<And>h. value_hull = Some h \<Longrightarrow> in_hull h vs"
  shows "rgives (nonzero sh definitely possibly value_hull) (\<lambda>c. inshape c [int (length ns), nonzero_count vs])"
proof -
  obtain n where n: "numel sh = Inr n" "inside n (int (length vs))"
    using numel_sound [OF sh] len by (auto simp: rgives_def)
  obtain r where r: "exact (int (length sh)) = Inr r" "inside r (int (length ns))"
    using rgives_pair [of "length sh"] inshape_length [OF sh] by (auto simp: rgives_def)
  have "rgives (nonzero_dim n definitely possibly value_hull) (\<lambda>d. inside d (nonzero_count vs))"
    by (rule nonzero_dim_sound [OF n(2)]) (use df hull in blast)+
  then obtain k where "nonzero_dim n definitely possibly value_hull = Inr k" "inside k (nonzero_count vs)"
    by (auto simp: rgives_def)
  then show ?thesis using n(1) r by (simp add: nonzero_def inshape_def)
qed

text \<open>
  NonZero. Whatever the elements of an input whose shape lies in its range (and lie in the value hull and
  the counts, when these are given), \<^verbatim>\<open>nonzero\<close> returns a shape that holds \<^verbatim>\<open>[rank, N]\<close> with \<^verbatim>\<open>N\<close> the
  number of non-zero elements.
\<close>

theorem nonzero_contains_count:
  assumes "inshape sh ns" and "int (length vs) = prod_list ns"
    and "\<And>d p. definitely = Some d \<Longrightarrow> possibly = Some p \<Longrightarrow> d \<le> nonzero_count vs \<and> nonzero_count vs \<le> p"
    and "\<And>h. value_hull = Some h \<Longrightarrow> in_hull h vs"
  shows "\<exists>c. nonzero sh definitely possibly value_hull = Inr c \<and> inshape c [int (length ns), nonzero_count vs]"
  using nonzero_sound [OF assms] by (auto simp: rgives_def)

theorem nonzero_contains_count_witness:
  "\<exists>c. nonzero [\<lparr>lo = 1, hi = Some 3, dsym = None\<rparr>] None None (Some (Fin 1, PInf)) = Inr c \<and> inshape c [1, 2]"
proof -
  have "\<exists>c. nonzero [\<lparr>lo = 1, hi = Some 3, dsym = None\<rparr>] None None (Some (Fin 1, PInf)) = Inr c \<and>
      inshape c [int (length [2 :: int]), nonzero_count [1, 5]]"
    by (rule nonzero_contains_count) (auto simp: inshape_def inside_def in_hull_def)
  then show ?thesis by (simp add: nonzero_count_def)
qed

section \<open>TopK, Compress, Unique, NonMaxSuppression\<close>

lemma topk_sound:
  assumes "inshape sh ns" "norm_axis axis (length ns) = Inr ax" "inside kd k" "k \<le> ns ! ax"
  shows "rgives (topk sh axis kd) (\<lambda>c. inshape c (ns[ax := k]))"
proof -
  have ax: "ax < length ns" using assms(2) by (simp add: norm_axis_Inr)
  have d: "inside (sh ! ax) (ns ! ax)" using inshape_nth [OF assms(1) ax] .
  let ?h = "min_hi (hi kd) (hi (sh ! ax))"
  have hb: "k \<le> u" if "?h = Some u" for u
    by (rule min_hi_bound [OF _ _ that]) (use assms(3,4) d in \<open>force simp: inside_def\<close>)+
  have "rgives (Dim (case ?h of None \<Rightarrow> lo kd | Some u \<Rightarrow> min (lo kd) u) ?h None) (\<lambda>d. inside d k)"
    by (rule inside_Dim) (use assms(3) hb in \<open>auto simp: inside_def split: option.splits\<close>)
  then have "rgives (rbind (Dim (case ?h of None \<Rightarrow> lo kd | Some u \<Rightarrow> min (lo kd) u) ?h None) (\<lambda>d. Inr (sh[ax := d])))
      (\<lambda>c. inshape c (ns[ax := k]))"
    by (rule rgives_bind) (simp add: inshape_update [OF assms(1)])
  then show ?thesis using assms(2) inshape_length [OF assms(1)] by (simp add: topk_def Let_def)
qed

lemma compress_kept_sound:
  assumes "inside d n" "inside cl c" "0 \<le> k" "k \<le> n" "k \<le> c"
    and "\<And>df ps. definitely = Some df \<Longrightarrow> possibly = Some ps \<Longrightarrow> df \<le> k \<and> k \<le> ps"
  shows "rgives (compress_kept d cl definitely possibly) (\<lambda>e. inside e k)"
proof -
  let ?h = "min_hi (hi d) (hi cl)"
  have hb: "k \<le> u" if "?h = Some u" for u
    by (rule min_hi_bound [OF _ _ that]) (use assms(1,2,4,5) in \<open>force simp: inside_def\<close>)+
  show ?thesis
  proof (cases "\<exists>df ps. definitely = Some df \<and> possibly = Some ps")
    case True
    then obtain df ps where dp: "definitely = Some df" "possibly = Some ps" by blast
    have hb': "k \<le> u" if "min_hi ?h (Some ps) = Some u" for u
      using min_hi_bound [OF hb _ that] assms(6) [OF dp] by auto
    have "rgives (Dim (case min_hi ?h (Some ps) of None \<Rightarrow> df | Some u \<Rightarrow> min df u) (min_hi ?h (Some ps)) None) (\<lambda>e. inside e k)"
      by (rule inside_Dim) (use assms(3) assms(6) [OF dp] hb' in \<open>auto split: option.splits\<close>)
    then show ?thesis using dp by (simp add: compress_kept_def Let_def)
  next
    case False
    have "rgives (Dim 0 ?h None) (\<lambda>e. inside e k)" by (rule inside_Dim) (use assms(3) hb in auto)
    then show ?thesis using False by (auto simp: compress_kept_def Let_def split: option.splits)
  qed
qed

lemma compress_sound:
  assumes "inshape sh ns" "inside cl c" "0 \<le> k" "k \<le> c"
    and "case axis of None \<Rightarrow> k \<le> prod_list ns | Some a \<Rightarrow> norm_axis a (length ns) = Inr ax \<and> k \<le> ns ! ax"
    and "\<And>df ps. definitely = Some df \<Longrightarrow> possibly = Some ps \<Longrightarrow> df \<le> k \<and> k \<le> ps"
  shows "rgives (compress sh axis cl definitely possibly)
    (\<lambda>e. inshape e (case axis of None \<Rightarrow> [k] | Some a \<Rightarrow> ns[ax := k]))"
proof (cases axis)
  case None
  have "rgives (rbind (numel sh) (\<lambda>d. rbind (compress_kept d cl definitely possibly) (\<lambda>k. Inr [k]))) (\<lambda>e. inshape e [k])"
  proof (rule rgives_bind [OF numel_sound [OF assms(1)]])
    fix d
    assume d: "inside d (prod_list ns)"
    have "rgives (compress_kept d cl definitely possibly) (\<lambda>e. inside e k)"
      by (rule compress_kept_sound [OF d assms(2,3)]) (use assms(4-6) None in auto)
    then show "rgives (rbind (compress_kept d cl definitely possibly) (\<lambda>k. Inr [k])) (\<lambda>e. inshape e [k])"
      by (rule rgives_bind) (simp add: inshape_def)
  qed
  then show ?thesis using None by (simp add: compress_def)
next
  case (Some a)
  then have ax: "norm_axis a (length ns) = Inr ax" "k \<le> ns ! ax" "ax < length ns"
    using assms(5) by (auto simp: norm_axis_Inr)
  have "rgives (compress_kept (sh ! ax) cl definitely possibly) (\<lambda>e. inside e k)"
    by (rule compress_kept_sound [OF inshape_nth [OF assms(1) ax(3)] assms(2,3)]) (use assms(4,6) ax in auto)
  then have "rgives (rbind (compress_kept (sh ! ax) cl definitely possibly) (\<lambda>k. Inr (sh[ax := k]))) (\<lambda>e. inshape e (ns[ax := k]))"
    by (rule rgives_bind) (simp add: inshape_update [OF assms(1)])
  then show ?thesis using Some ax(1) inshape_length [OF assms(1)] by (simp add: compress_def)
qed

text \<open>The number of distinct elements of a flattened tensor.\<close>

lemma unique_count: "vs \<noteq> [] \<Longrightarrow> 1 \<le> int (card (set vs))" "int (card (set vs)) \<le> int (length vs)"
  by (simp_all add: Suc_le_eq card_gt_0_iff card_length)

lemma unique_sound:
  assumes "inshape sh ns" "int (length vs) = prod_list ns"
  shows "rgives (unique sh None) (\<lambda>(y, idx, inv, cnt). inshape y [int (card (set vs))] \<and> inshape idx [int (card (set vs))] \<and>
    inshape inv [int (length vs)] \<and> inshape cnt [int (card (set vs))])"
proof -
  obtain n where n: "numel sh = Inr n" "inside n (int (length vs))"
    using numel_sound [OF assms(1)] assms(2) by (auto simp: rgives_def)
  have "min 1 (lo n) \<le> int (card (set vs))" using n(2) unique_count(1) [of vs] by (cases "vs = []") (auto simp: inside_def)
  moreover have "int (card (set vs)) \<le> u" if "hi n = Some u" for u using n(2) that unique_count(2) [of vs] by (force simp: inside_def)
  ultimately obtain nu where nu: "Dim (min 1 (lo n)) (hi n) None = Inr nu" "inside nu (int (card (set vs)))"
    using inside_Dim [of "int (card (set vs))" "min 1 (lo n)" "hi n" None] by (auto simp: rgives_def)
  obtain inv where "Dim (lo n) (hi n) None = Inr inv" "inside inv (int (length vs))"
    using inside_Dim [of "int (length vs)" "lo n" "hi n" None] n(2) by (auto simp: rgives_def inside_def)
  then show ?thesis using n(1) nu by (simp add: unique_def inshape_def)
qed

lemma nms_sound:
  assumes "inshape boxes [b, n, four]" "inshape scores [b', c, n']" "inside mx m"
    and "0 \<le> sel" "sel \<le> b * c * min m n"
  shows "rsome (nms boxes scores mx) (\<lambda>e. inshape e [sel, 3])"
proof -
  have len: "length boxes = 3" "length scores = 3" using assms(1,2) inshape_length by fastforce+
  have el: "inside (boxes ! 0) b" "inside (boxes ! 1) n" "inside (scores ! 1) c"
    using inshape_nth [OF assms(1), of 0] inshape_nth [OF assms(1), of 1] inshape_nth [OF assms(2), of 1] by simp_all
  have "rgives (Dim 0 (min_hi (hi mx) (hi (boxes ! 1))) None) (\<lambda>d. inside d (min m n))"
  proof (rule inside_Dim)
    show "0 \<le> min m n" "0 \<le> min m n" using inside_nonneg [OF assms(3)] inside_nonneg [OF el(2)] by simp_all
    show "min m n \<le> u" if "min_hi (hi mx) (hi (boxes ! 1)) = Some u" for u
      by (rule min_hi_bound [OF _ _ that]) (use assms(3) el(2) in \<open>auto simp: inside_def min.coboundedI1 min.coboundedI2\<close>)
  qed
  then obtain per where per: "Dim 0 (min_hi (hi mx) (hi (boxes ! 1))) None = Inr per" "inside per (min m n)"
    by (auto simp: rgives_def)
  obtain bc where bc: "dim_mul (boxes ! 0) (scores ! 1) = Inr bc" "inside bc (b * c)"
    using dim_mul_sound [OF el(1,3)] by (auto simp: rgives_def)
  obtain tot where tot: "dim_mul bc per = Inr tot" "inside tot (b * c * min m n)"
    using dim_mul_sound [OF bc(2) per(2)] by (auto simp: rgives_def)
  obtain k where k: "Dim 0 (hi tot) None = Inr k" "inside k sel"
    using inside_Dim [of sel 0 "hi tot" None] assms(4,5) tot(2) by (force simp: rgives_def inside_def)
  obtain t where "exact 3 = Inr t" "inside t 3" using inside_exact [of 3] by (auto simp: rgives_def)
  then show ?thesis using len per bc tot k by (simp add: nms_def Let_def rsome_def inshape_def)
qed


section \<open>Range\<close>

text \<open>The length of \<^verbatim>\<open>Range(s, l, d)\<close> in the same arithmetic.\<close>

definition range_len :: "(rat \<Rightarrow> rat) \<Rightarrow> rat \<Rightarrow> rat \<Rightarrow> rat \<Rightarrow> int" where
  "range_len rnd s l d = max 0 \<lceil>rnd (rnd (l - s) / d)\<rceil>"

lemma quotient_mono:
  fixes rnd :: "rat \<Rightarrow> rat"
  assumes "mono rnd" "rnd 0 = 0" "x \<le> y" "0 < d" "d \<le> e"
  shows "max 0 \<lceil>rnd (x / e)\<rceil> \<le> max 0 \<lceil>rnd (y / d)\<rceil>"
proof (cases "x \<le> 0")
  case True
  then have "x / e \<le> 0" using assms(4,5) by (simp add: divide_le_0_iff)
  then have "rnd (x / e) \<le> 0" using assms(1,2) by (metis monoD)
  then have "\<lceil>rnd (x / e)\<rceil> \<le> 0" by linarith
  then show ?thesis by simp
next
  case False
  then have "x / e \<le> y / d" using assms(3-5) by (intro frac_le) auto
  then have "rnd (x / e) \<le> rnd (y / d)" using assms(1) by (metis monoD)
  then show ?thesis by (meson ceiling_mono max.mono order_refl)
qed

text \<open>
  Range. When start, limit and delta lie in their finite bounds and delta is not 0, \<^verbatim>\<open>range_count\<close> returns
  a dimension that holds \<^verbatim>\<open>max(0, ceil((limit - start) / delta))\<close>, for every monotone rounding of the
  difference and of the quotient that keeps 0.
\<close>

theorem range_count_contains_length:
  assumes "mono rnd" and "rnd 0 = 0"
    and "s0 \<le> s" "s \<le> s1" and "l0 \<le> l" "l \<le> l1" and "d0 \<le> d" "d \<le> d1" and "d \<noteq> 0"
  shows "\<exists>c. range_count rnd (Fin s0, Fin s1) (Fin l0, Fin l1) (Fin d0, Fin d1) = Inr c \<and>
    inside c (range_len rnd s l d)"
proof -
  have lo: "rnd (l0 - s1) \<le> rnd (l - s)" and hi: "rnd (l - s) \<le> rnd (l1 - s0)"
    using assms(1,3-6) by (auto intro: monoD)
  have len0: "0 \<le> range_len rnd s l d" by (simp add: range_len_def)
  consider "d0 > 0" | "\<not> d0 > 0" "d1 < 0" | "\<not> d0 > 0" "\<not> d1 < 0" by blast
  then have "rgives (range_count rnd (Fin s0, Fin s1) (Fin l0, Fin l1) (Fin d0, Fin d1)) (\<lambda>c. inside c (range_len rnd s l d))"
  proof cases
    case 1
    have "max 0 \<lceil>rnd (rnd (l0 - s1) / d1)\<rceil> \<le> range_len rnd s l d"
      unfolding range_len_def using 1 assms by (intro quotient_mono) (auto intro: lo)
    moreover have "range_len rnd s l d \<le> max 0 \<lceil>rnd (rnd (l1 - s0) / d0)\<rceil>"
      unfolding range_len_def using 1 assms by (intro quotient_mono) (auto intro: hi)
    ultimately have "rgives (Dim (max 0 \<lceil>rnd (rnd (l0 - s1) / d1)\<rceil>) (Some (max 0 \<lceil>rnd (rnd (l1 - s0) / d0)\<rceil>)) None)
        (\<lambda>c. inside c (range_len rnd s l d))"
      using len0 by (intro inside_Dim) auto
    then show ?thesis using 1 by (simp add: Let_def)
  next
    case 2
    have "max 0 \<lceil>rnd (- rnd (l1 - s0) / - d0)\<rceil> \<le> max 0 \<lceil>rnd (- rnd (l - s) / - d)\<rceil>"
      using 2 assms by (intro quotient_mono) (auto intro: hi)
    moreover have "max 0 \<lceil>rnd (- rnd (l - s) / - d)\<rceil> \<le> max 0 \<lceil>rnd (- rnd (l0 - s1) / - d1)\<rceil>"
      using 2 assms by (intro quotient_mono) (auto intro: lo)
    ultimately have "rgives (Dim (max 0 \<lceil>rnd (rnd (l1 - s0) / d0)\<rceil>) (Some (max 0 \<lceil>rnd (rnd (l0 - s1) / d1)\<rceil>)) None)
        (\<lambda>c. inside c (range_len rnd s l d))"
      using len0 by (intro inside_Dim) (auto simp: range_len_def)
    then show ?thesis using 2 by (simp add: Let_def)
  next
    case 3
    then show ?thesis using len0 inside_Dim [of "range_len rnd s l d" 0 None None] by (simp add: Let_def)
  qed
  then show ?thesis by (auto simp: rgives_def)
qed

theorem range_count_contains_length_witness:
  "\<exists>c. range_count (\<lambda>x. x) (Fin 0, Fin 1) (Fin 5, Fin 6) (Fin 1, Fin 2) = Inr c \<and> inside c 4"
proof -
  have "range_len (\<lambda>x. x) 1 5 1 = 4" by (simp add: range_len_def)
  moreover have "\<exists>c. range_count (\<lambda>x. x) (Fin 0, Fin 1) (Fin 5, Fin 6) (Fin 1, Fin 2) = Inr c \<and>
      inside c (range_len (\<lambda>x. x) 1 5 1)"
    by (rule range_count_contains_length) (auto simp: mono_def)
  ultimately show ?thesis by simp
qed

end
