(* ===== verification/Index_Facts.thy ===== *)
theory Index_Facts
  imports Shape_Data Onnx
begin

text \<open>
  \<^verbatim>\<open>onnxsim/index_facts.py\<close>: verdicts on whether every index a Gather, GatherElements or Slice node
  can see is valid. The result of interval propagation is an argument, the record
  \<open>interval_result\<close> with the operations of \<^verbatim>\<open>IntervalResult\<close> in \<^verbatim>\<open>onnxsim/interval.py\<close> that are used;
  an array is its shape and its flattened elements. The explanatory text of a fact is kept
  as the case it comes from.
\<close>

section \<open>Interval results\<close>

record interval_box =
  box_shape :: "int list"
  box_lo :: "fl list"
  box_hi :: "fl list"

record ranged_tensor =
  rt_shape :: shape
  rt_hull :: "fl \<times> fl"

record interval_result =
  intervals :: "(string, interval_box) dict"
  ranged :: "(string, ranged_tensor) dict"

text \<open>\<^verbatim>\<open>np.min\<close> and \<^verbatim>\<open>np.max\<close>: NaN wins, an empty array raises.\<close>

definition fl_min :: "fl \<Rightarrow> fl \<Rightarrow> fl" where
  "fl_min a b = (if a = NaN \<or> b = NaN then NaN else if fl_le a b then a else b)"

definition fl_max :: "fl \<Rightarrow> fl \<Rightarrow> fl" where
  "fl_max a b = (if a = NaN \<or> b = NaN then NaN else if fl_le a b then b else a)"

fun np_min :: "fl list \<Rightarrow> fl res" where
  "np_min [] = Inl (ValueError ''zero-size array'')"
| "np_min (x # xs) = Inr (foldl fl_min x xs)"

fun np_max :: "fl list \<Rightarrow> fl res" where
  "np_max [] = Inl (ValueError ''zero-size array'')"
| "np_max (x # xs) = Inr (foldl fl_max x xs)"

definition res_hull :: "interval_result \<Rightarrow> string \<Rightarrow> (fl \<times> fl) res" where
  "res_hull r name =
     (case dict_get (ranged r) name of Some t \<Rightarrow> Inr (rt_hull t)
      | None \<Rightarrow>
          (case dict_get (intervals r) name of None \<Rightarrow> Inl (KeyError ''intervals'')
           | Some b \<Rightarrow> rbind (np_min (box_lo b)) (\<lambda>l. rbind (np_max (box_hi b)) (\<lambda>h. Inr (l, h)))))"

definition res_shape :: "interval_result \<Rightarrow> string \<Rightarrow> shape res" where
  "res_shape r name =
     (case dict_get (ranged r) name of Some t \<Rightarrow> Inr (rt_shape t)
      | None \<Rightarrow>
          (case dict_get (intervals r) name of None \<Rightarrow> Inl (KeyError ''intervals'')
           | Some b \<Rightarrow> from_ints (box_shape b)))"

section \<open>Facts\<close>

datatype verdict = IN_RANGE | OUT_OF_RANGE | UNKNOWN

datatype detail =
    DataHasNoInterval
  | AxisOutOfRange int nat
  | OperandsHaveNoInterval
  | StartsRanged
  | AxesNotStatic
  | HasNoInterval string
  | IsEmpty string
  | IsUnbounded string
  | ValidFrom string int
  | AllOutside string int
  | NotInside string int

record index_fact =
  fact_node :: string
  fact_op :: string
  fact_axis :: int
  fact_verdict :: verdict
  fact_hull :: "(fl \<times> fl) option"
  fact_size :: "dim option"
  fact_detail :: detail

definition proved :: "index_fact list \<Rightarrow> bool" where
  "proved facts \<longleftrightarrow> list_all (\<lambda>f. fact_verdict f = IN_RANGE) facts"

definition known_tensor :: "interval_result \<Rightarrow> string \<Rightarrow> bool" where
  "known_tensor r name \<longleftrightarrow> dict_get (intervals r) name \<noteq> None \<or> dict_get (ranged r) name \<noteq> None"

definition index_hull :: "interval_result \<Rightarrow> string \<Rightarrow> (fl \<times> fl) option res" where
  "index_hull r name =
     (if \<not> known_tensor r name then Inr None
      else if (case dict_get (intervals r) name of None \<Rightarrow> False | Some b \<Rightarrow> box_lo b = []) then Inr (Some (PInf, NInf))
      else rmap_opt (res_hull r name))"

fun fl_int :: "fl \<Rightarrow> int option" where
  "fl_int (Fin v) = (if of_int \<lfloor>v\<rfloor> = v then Some \<lfloor>v\<rfloor> else None)"
| "fl_int _ = None"

definition static_ints :: "interval_result \<Rightarrow> string \<Rightarrow> int list option" where
  "static_ints r name =
     (case dict_get (intervals r) name of None \<Rightarrow> None
      | Some b \<Rightarrow>
          if length (box_lo b) = length (box_hi b) \<and> list_all2 fl_eq (box_lo b) (box_hi b)
          then those (map fl_int (box_lo b)) else None)"

definition normalize_axis :: "int \<Rightarrow> nat \<Rightarrow> nat option" where
  "normalize_axis axis rank =
     (let a = (if axis < 0 then axis + int rank else axis) in
      if 0 \<le> a \<and> a < int rank then Some (nat a) else None)"

definition judge ::
    "string \<Rightarrow> string \<Rightarrow> int \<Rightarrow> dim \<Rightarrow> (fl \<times> fl) option \<Rightarrow> string \<Rightarrow> index_fact" where
  "judge op out axis d h what =
     (let fact = (\<lambda>v h t. \<lparr>fact_node = out, fact_op = op, fact_axis = axis, fact_verdict = v,
                    fact_hull = h, fact_size = Some d, fact_detail = t\<rparr>) in
      case h of None \<Rightarrow> fact UNKNOWN None (HasNoInterval what)
      | Some (l, u) \<Rightarrow>
          if fl_lt u l then fact IN_RANGE None (IsEmpty what)
          else if \<not> (isfinite l \<and> isfinite u) then fact UNKNOWN h (IsUnbounded what)
          else if fl_le (Fin (of_int (- lo d))) l \<and> fl_le u (Fin (of_int (lo d - 1)))
          then fact IN_RANGE h (ValidFrom what (lo d))
          else if hi d = Some (lo d) \<and>
              (fl_lt (Fin (of_int (lo d - 1))) l \<or> fl_lt u (Fin (of_int (- lo d))))
          then fact OUT_OF_RANGE h (AllOutside what (lo d))
          else fact UNKNOWN h (NotInside what (lo d)))"

definition unknown_fact :: "string \<Rightarrow> string \<Rightarrow> int \<Rightarrow> detail \<Rightarrow> index_fact" where
  "unknown_fact out op axis t =
     \<lparr>fact_node = out, fact_op = op, fact_axis = axis, fact_verdict = UNKNOWN, fact_hull = None,
      fact_size = None, fact_detail = t\<rparr>"

definition str_nth :: "string list \<Rightarrow> nat \<Rightarrow> string res" where
  "str_nth xs i = (if i < length xs then Inr (xs ! i) else Inl (IndexError ''repeated field''))"

definition attr_int :: "node \<Rightarrow> string \<Rightarrow> int \<Rightarrow> int" where
  "attr_int n name d = get_default (rev (map (\<lambda>a. (attr_name a, attr_i a)) (nattr n))) name d"

definition gather_fact :: "interval_result \<Rightarrow> node \<Rightarrow> index_fact res" where
  "gather_fact r n =
     rbind (str_nth (noutput n) 0) (\<lambda>out. let axis_attr = attr_int n ''axis'' 0 in
     rbind (str_nth (ninput n) 0) (\<lambda>data. rbind (str_nth (ninput n) 1) (\<lambda>idx.
       if \<not> known_tensor r data then Inr (unknown_fact out (op_type n) axis_attr DataHasNoInterval)
       else rbind (res_shape r data) (\<lambda>sh.
         case normalize_axis axis_attr (length sh) of
           None \<Rightarrow> Inr (unknown_fact out (op_type n) axis_attr (AxisOutOfRange axis_attr (length sh)))
         | Some ax \<Rightarrow> rbind (index_hull r idx) (\<lambda>h.
             Inr (judge (op_type n) out (int ax) (sh ! ax) h ''index''))))))"

definition start_fact :: "string \<Rightarrow> shape \<Rightarrow> nat \<times> int \<times> fl \<times> fl \<Rightarrow> index_fact" where
  "start_fact out sh = (\<lambda>(i, ax, l, u).
     case normalize_axis ax (length sh) of
       None \<Rightarrow> unknown_fact out ''Slice'' ax (AxisOutOfRange ax (length sh))
     | Some a \<Rightarrow> judge ''Slice'' out (int a) (sh ! a) (Some (l, u)) (''start['' @ str_nat i @ '']''))"

definition slice_axes :: "interval_result \<Rightarrow> string \<Rightarrow> nat \<Rightarrow> int list option" where
  "slice_axes r axes_name count =
     (if axes_name = '''' then Some (map int [0..<count])
      else case static_ints r axes_name of None \<Rightarrow> None
        | Some axes \<Rightarrow> if length axes \<noteq> count then None else Some axes)"

definition slice_facts :: "interval_result \<Rightarrow> node \<Rightarrow> index_fact list res" where
  "slice_facts r n =
     rbind (str_nth (noutput n) 0) (\<lambda>out. rbind (str_nth (ninput n) 0) (\<lambda>data.
       let starts = (if length (ninput n) > 1 then ninput n ! 1 else '''');
           axes_name = (if length (ninput n) > 3 then ninput n ! 3 else '''') in
       if \<not> (known_tensor r data \<and> starts \<noteq> '''' \<and> known_tensor r starts)
       then Inr [unknown_fact out ''Slice'' (- 1) OperandsHaveNoInterval]
       else case dict_get (intervals r) starts of
         None \<Rightarrow> Inr [unknown_fact out ''Slice'' (- 1) StartsRanged]
       | Some b \<Rightarrow> rbind (res_shape r data) (\<lambda>sh.
           case slice_axes r axes_name (length (box_lo b)) of
             None \<Rightarrow> Inr [unknown_fact out ''Slice'' (- 1) AxesNotStatic]
           | Some axes \<Rightarrow>
               Inr (map (start_fact out sh) (enumerate_py (zip axes (zip (box_lo b) (box_hi b))))))))"

definition node_facts :: "interval_result \<Rightarrow> node \<Rightarrow> index_fact list res" where
  "node_facts r n =
     (if op_type n = ''Gather'' \<or> op_type n = ''GatherElements'' then rbind (gather_fact r n) (\<lambda>f. Inr [f])
      else if op_type n = ''Slice'' then slice_facts r n
      else Inr [])"

definition index_facts :: "interval_result \<Rightarrow> graph \<Rightarrow> index_fact list res" where
  "index_facts r g = rbind (rmap (node_facts r) (gnode g)) (\<lambda>fs. Inr (concat fs))"

section \<open>The verdict\<close>

text \<open>The indices are in the hull, and the size of the axis is in its range.\<close>

lemma in_hull_Fin:
  assumes "in_hull (l, u) vs" "v \<in> set vs" "isfinite l" "isfinite u"
  obtains a b where "l = Fin a" "u = Fin b" "a \<le> v" "v \<le> b"
  using assms by (cases l; cases u) (auto simp: in_hull_def)

text \<open>A hull that is not a NaN holds the values.\<close>

definition hull_ok :: "fl \<times> fl \<Rightarrow> rat list \<Rightarrow> bool" where
  "hull_ok p vs \<longleftrightarrow> (fst p \<noteq> NaN \<longrightarrow> snd p \<noteq> NaN \<longrightarrow> in_hull p vs)"

lemma judge_sound:
  assumes h: "\<And>p. h = Some p \<Longrightarrow> hull_ok p vs" and d: "inside d n" and v: "v \<in> set vs"
  shows "fact_verdict (judge op out axis d h what) = IN_RANGE \<Longrightarrow> - of_int n \<le> v \<and> v \<le> of_int (n - 1)"
    and "fact_verdict (judge op out axis d h what) = OUT_OF_RANGE \<Longrightarrow> v < - of_int n \<or> of_int (n - 1) < v"
proof -
  let ?f = "judge op out axis d h what"
  have ln: "of_int (lo d) \<le> (of_int n :: rat)" using d by (simp add: inside_def)
  have empty: False if "h = Some (l, u)" "fl_lt u l" for l u
    using h [OF that(1)] v that(2) by (cases l; cases u) (auto simp: hull_ok_def in_hull_def fl_lt_def)
  show "- of_int n \<le> v \<and> v \<le> of_int (n - 1)" if verdict: "fact_verdict ?f = IN_RANGE"
  proof (cases h)
    case None
    then show ?thesis using verdict by (simp add: judge_def)
  next
    case (Some p)
    obtain l u where p: "p = (l, u)" by (cases p)
    have fin: "isfinite l" "isfinite u" and le: "fl_le (Fin (of_int (- lo d))) l" "fl_le u (Fin (of_int (lo d - 1)))"
      using verdict Some p empty by (auto simp: judge_def Let_def split: if_splits)
    obtain a b where ab: "l = Fin a" "u = Fin b" "a \<le> v" "v \<le> b"
      using in_hull_Fin [OF _ v fin] h [OF Some] p fin by (auto simp: hull_ok_def)
    then show ?thesis using le ln by auto
  qed
  show "v < - of_int n \<or> of_int (n - 1) < v" if verdict: "fact_verdict ?f = OUT_OF_RANGE"
  proof (cases h)
    case None
    then show ?thesis using verdict by (simp add: judge_def)
  next
    case (Some p)
    obtain l u where p: "p = (l, u)" by (cases p)
    have fin: "isfinite l" "isfinite u" and hi: "hi d = Some (lo d)"
      and out: "fl_lt (Fin (of_int (lo d - 1))) l \<or> fl_lt u (Fin (of_int (- lo d)))"
      using verdict Some p by (auto simp: judge_def Let_def split: if_splits)
    have n: "n = lo d" using hi d by (auto simp: inside_def)
    obtain a b where ab: "l = Fin a" "u = Fin b" "a \<le> v" "v \<le> b"
      using in_hull_Fin [OF _ v fin] h [OF Some] p fin by (auto simp: hull_ok_def)
    then show ?thesis using out n by (auto simp: fl_lt_def)
  qed
qed


section \<open>Executions covered by the interval result\<close>

text \<open>A concrete tensor (its shape and its flattened elements) lies in what the result says of its name.\<close>

definition covers :: "interval_result \<Rightarrow> string \<Rightarrow> int list \<times> rat list \<Rightarrow> bool" where
  "covers r name = (\<lambda>(sh, vs).
     (\<forall>t. dict_get (ranged r) name = Some t \<longrightarrow> inshape (rt_shape t) sh \<and> in_hull (rt_hull t) vs) \<and>
     (\<forall>b. dict_get (intervals r) name = Some b \<longrightarrow> box_shape b = sh \<and> (\<forall>n \<in> set sh. 0 \<le> n) \<and>
        list_all2 (\<lambda>l v. fl_le l (Fin v)) (box_lo b) vs \<and> list_all2 (\<lambda>u v. fl_le (Fin v) u) (box_hi b) vs))"

lemma fl_le_trans: "fl_le a b \<Longrightarrow> fl_le b c \<Longrightarrow> fl_le a c"
  by (cases a; cases b; cases c) auto

lemma fl_le_refl [simp]: "fl_le a a \<longleftrightarrow> a \<noteq> NaN"
  by (cases a) auto

lemma fl_le_linear: "a \<noteq> NaN \<Longrightarrow> b \<noteq> NaN \<Longrightarrow> fl_le a b \<or> fl_le b a"
  by (cases a; cases b) auto

lemma fl_le_not_NaN: "fl_le a b \<Longrightarrow> a \<noteq> NaN \<and> b \<noteq> NaN"
  by (cases a; cases b) auto

lemma foldl_fl_min:
  "foldl fl_min x xs \<noteq> NaN \<Longrightarrow> \<forall>y \<in> set (x # xs). fl_le (foldl fl_min x xs) y"
proof (induction xs arbitrary: x)
  case Nil
  then show ?case by simp
next
  case (Cons z zs)
  have IH: "fl_le (foldl fl_min (fl_min x z) zs) y" if "y \<in> set (fl_min x z # zs)" for y
    using Cons.IH [of "fl_min x z"] Cons.prems that by auto
  then have "fl_min x z \<noteq> NaN" using fl_le_not_NaN by (meson list.set_intros(1))
  then have "fl_le (fl_min x z) x" "fl_le (fl_min x z) z"
    using fl_le_linear [of x z] by (auto simp: fl_min_def split: if_splits)
  then show ?case using IH fl_le_trans [OF IH [of "fl_min x z"]] by auto
qed

lemma foldl_fl_max:
  "foldl fl_max x xs \<noteq> NaN \<Longrightarrow> \<forall>y \<in> set (x # xs). fl_le y (foldl fl_max x xs)"
proof (induction xs arbitrary: x)
  case Nil
  then show ?case by simp
next
  case (Cons z zs)
  have IH: "fl_le y (foldl fl_max (fl_max x z) zs)" if "y \<in> set (fl_max x z # zs)" for y
    using Cons.IH [of "fl_max x z"] Cons.prems that by auto
  then have "fl_max x z \<noteq> NaN" using fl_le_not_NaN by (meson list.set_intros(1))
  then have "fl_le x (fl_max x z)" "fl_le z (fl_max x z)"
    using fl_le_linear [of x z] by (auto simp: fl_max_def split: if_splits)
  then show ?case using IH fl_le_trans [OF _ IH [of "fl_max x z"]] by auto
qed

lemma box_hull_ok:
  assumes "list_all2 (\<lambda>l v. fl_le l (Fin v)) ls vs" "list_all2 (\<lambda>u v. fl_le (Fin v) u) us vs"
    and "np_min ls = Inr l" "np_max us = Inr u"
  shows "hull_ok (l, u) vs"
proof -
  have "fl_le l (Fin v)" if v: "v \<in> set vs" "l \<noteq> NaN" for v
  proof -
    obtain x where x: "x \<in> set ls" "fl_le x (Fin v)" using list_all2_left [OF assms(1) v(1)] by blast
    then have "fl_le l x" using assms(3) v(2) foldl_fl_min by (cases ls) auto
    then show ?thesis using x(2) fl_le_trans by blast
  qed
  moreover have "fl_le (Fin v) u" if v: "v \<in> set vs" "u \<noteq> NaN" for v
  proof -
    obtain x where x: "x \<in> set us" "fl_le (Fin v) x" using list_all2_left [OF assms(2) v(1)] by blast
    then have "fl_le x u" using assms(4) v(2) foldl_fl_max by (cases us) auto
    then show ?thesis using x(2) fl_le_trans by blast
  qed
  ultimately show ?thesis by (simp add: hull_ok_def in_hull_def)
qed

lemma index_hull_ok:
  assumes "covers r name (sh, vs)" "index_hull r name = Inr (Some p)"
  shows "hull_ok p vs"
proof (cases "\<exists>b. dict_get (intervals r) name = Some b \<and> box_lo b = []")
  case True
  then have "vs = []" using assms(1) by (auto simp: covers_def)
  then show ?thesis by (simp add: hull_ok_def in_hull_def)
next
  case False
  then have hull: "res_hull r name = Inr p"
    using assms(2) by (auto simp: index_hull_def rmap_opt_def res_simps split: if_splits option.splits)
  show ?thesis
  proof (cases "dict_get (ranged r) name")
    case None
    then obtain b l u where "dict_get (intervals r) name = Some b" "np_min (box_lo b) = Inr l" "np_max (box_hi b) = Inr u" "p = (l, u)"
      using hull by (auto simp: res_hull_def res_simps split: option.splits)
    then show ?thesis using box_hull_ok assms(1) by (auto simp: covers_def)
  next
    case (Some t)
    then show ?thesis using hull assms(1) by (auto simp: res_hull_def covers_def hull_ok_def)
  qed
qed

lemma res_shape_ok:
  assumes "covers r name (ns, vs)" "res_shape r name = Inr sh"
  shows "inshape sh ns"
proof (cases "dict_get (ranged r) name")
  case None
  then obtain b where b: "dict_get (intervals r) name = Some b" "from_ints (box_shape b) = Inr sh"
    using assms(2) by (auto simp: res_shape_def split: option.splits)
  then have "list_all2 (\<lambda>x n. rgives (exact x) (\<lambda>y. inside y n)) (box_shape b) ns"
    using assms(1) inside_exact by (auto simp: covers_def list_all2_conv_all_nth)
  then show ?thesis using rgives_rmap [of exact inside "box_shape b" ns] b(2)
    by (auto simp: from_ints_def inshape_def)
next
  case (Some t)
  then show ?thesis using assms by (auto simp: res_shape_def covers_def)
qed

lemma gather_fact_cases:
  assumes "gather_fact r n = Inr f" "fact_verdict f \<noteq> UNKNOWN"
  obtains out data idx sh ax h where "ninput n ! 0 = data" "ninput n ! 1 = idx" "res_shape r data = Inr sh"
    "normalize_axis (attr_int n ''axis'' 0) (length sh) = Some ax" "index_hull r idx = Inr h"
    "f = judge (op_type n) out (int ax) (sh ! ax) h ''index''"
  using assms
  by (auto simp: gather_fact_def res_simps str_nth_def unknown_fact_def Let_def split: if_splits option.splits)

text \<open>The indices that a Gather node reads are valid, or all invalid, for the axis it indexes.\<close>

definition gather_valid :: "node \<Rightarrow> int list \<Rightarrow> rat \<Rightarrow> bool" where
  "gather_valid n dims v \<longleftrightarrow> (\<exists>ax. normalize_axis (attr_int n ''axis'' 0) (length dims) = Some ax \<and>
     - of_int (dims ! ax) \<le> v \<and> v \<le> of_int (dims ! ax - 1))"

lemma gather_fact_sound:
  assumes "gather_fact r n = Inr f" and "covers r (ninput n ! 0) (dims, dvals)" and "covers r (ninput n ! 1) (ish, ivals)"
    and v: "v \<in> set ivals"
  shows "fact_verdict f = IN_RANGE \<Longrightarrow> gather_valid n dims v"
    and "fact_verdict f = OUT_OF_RANGE \<Longrightarrow> \<not> gather_valid n dims v"
proof -
  have main: "\<exists>ax. normalize_axis (attr_int n ''axis'' 0) (length dims) = Some ax \<and>
      (fact_verdict f = IN_RANGE \<longrightarrow> - of_int (dims ! ax) \<le> v \<and> v \<le> of_int (dims ! ax - 1)) \<and>
      (fact_verdict f = OUT_OF_RANGE \<longrightarrow> v < - of_int (dims ! ax) \<or> of_int (dims ! ax - 1) < v)"
    if "fact_verdict f \<noteq> UNKNOWN"
  proof (rule gather_fact_cases [OF assms(1) that])
    fix out data idx sh ax h
    assume g: "ninput n ! 0 = data" "ninput n ! 1 = idx" "res_shape r data = Inr sh"
      "normalize_axis (attr_int n ''axis'' 0) (length sh) = Some ax" "index_hull r idx = Inr h"
      "f = judge (op_type n) out (int ax) (sh ! ax) h ''index''"
    have sh: "inshape sh dims" using res_shape_ok assms(2) g by blast
    then have len: "length sh = length dims" by (rule inshape_length)
    then have "ax < length dims" using g(4) by (auto simp: normalize_axis_def Let_def split: if_splits)
    then have d: "inside (sh ! ax) (dims ! ax)" using inshape_nth [OF sh] by simp
    have "hull_ok p ivals" if "h = Some p" for p using index_hull_ok assms(3) g that by blast
    note js = judge_sound [OF this d v, of h "op_type n" out "int ax" "''index''"]
    show ?thesis using js g(4,6) len by auto
  qed
  show "gather_valid n dims v" if "fact_verdict f = IN_RANGE"
    using main that by (auto simp: gather_valid_def)
  show "\<not> gather_valid n dims v" if "fact_verdict f = OUT_OF_RANGE"
    using main that by (auto simp: gather_valid_def)
qed

text \<open>The starts of a Slice node, one per axis it slices, are valid for those axes.\<close>

definition slice_valid :: "int list \<Rightarrow> int list \<Rightarrow> rat list \<Rightarrow> bool" where
  "slice_valid dims axes starts \<longleftrightarrow> length axes = length starts \<and>
     (\<forall>i < length starts. \<exists>ax. normalize_axis (axes ! i) (length dims) = Some ax \<and>
        - of_int (dims ! ax) \<le> starts ! i \<and> starts ! i \<le> of_int (dims ! ax - 1))"

text \<open>The axes that a Slice node uses in an execution: the first ones, or the values of its fourth input.\<close>

definition runs_axes :: "interval_result \<Rightarrow> node \<Rightarrow> nat \<Rightarrow> int list \<Rightarrow> bool" where
  "runs_axes r n count axes \<longleftrightarrow>
     (if length (ninput n) > 3 \<and> ninput n ! 3 \<noteq> ''''
      then \<exists>sh. covers r (ninput n ! 3) (sh, map of_int axes)
      else axes = map int [0..<count])"

lemma start_fact_sound:
  assumes fact: "fact_verdict (start_fact out sh (i, ax, l, u)) = IN_RANGE" and dims: "inshape sh dims"
    and v: "fl_le l (Fin v)" "fl_le (Fin v) u"
  shows "\<exists>a. normalize_axis ax (length dims) = Some a \<and> - of_int (dims ! a) \<le> v \<and> v \<le> of_int (dims ! a - 1)"
proof -
  have len: "length sh = length dims" using dims by (rule inshape_length)
  obtain a where a: "normalize_axis ax (length sh) = Some a"
    "fact_verdict (judge ''Slice'' out (int a) (sh ! a) (Some (l, u)) (''start['' @ str_nat i @ '']'')) = IN_RANGE"
    using fact by (auto simp: start_fact_def unknown_fact_def split: option.splits)
  then have "a < length dims" using len by (auto simp: normalize_axis_def Let_def split: if_splits)
  then have d: "inside (sh ! a) (dims ! a)" using inshape_nth [OF dims] len by simp
  have h: "hull_ok p [v]" if "Some (l, u) = Some p" for p using that v by (auto simp: hull_ok_def in_hull_def)
  have "v \<in> set [v]" by simp
  from judge_sound(1) [OF h d this a(2)] show ?thesis using a(1) len by auto
qed

lemma fl_int_Some: "fl_int l = Some k \<Longrightarrow> l = Fin (of_int k)"
  by (cases l) (auto split: if_splits)

lemma those_fl_int:
  assumes "those (map fl_int ls) = Some axes" "list_all2 fl_eq ls us"
    and "list_all2 (\<lambda>l v. fl_le l (Fin (of_int v))) ls vs" "list_all2 (\<lambda>u v. fl_le (Fin (of_int v)) u) us vs"
  shows "axes = vs"
  using assms
proof (induction ls arbitrary: us vs axes)
  case Nil
  then show ?case by simp
next
  case (Cons l ls)
  obtain u us' v vs' where us: "us = u # us'" "vs = v # vs'"
    using Cons.prems(2,3) by (auto simp: list_all2_Cons1)
  obtain k a where k: "fl_int l = Some k" "those (map fl_int ls) = Some a" "axes = k # a"
    using Cons.prems(1) by (auto split: option.splits)
  then have l: "l = Fin (of_int k)" by (simp add: fl_int_Some)
  then have "u = Fin (of_int k)" using Cons.prems(2) us by (cases u) auto
  then have "k = v" using l Cons.prems(3,4) us by simp
  then show ?case using Cons.IH [of a us' vs'] Cons.prems us k by simp
qed

lemma static_ints_unique:
  assumes st: "static_ints r name = Some axes" and c: "covers r name (sh, map of_int vs)"
  shows "axes = vs"
proof -
  obtain b where b: "dict_get (intervals r) name = Some b" "list_all2 fl_eq (box_lo b) (box_hi b)"
    "those (map fl_int (box_lo b)) = Some axes"
    using st by (auto simp: static_ints_def split: option.splits if_splits)
  then show ?thesis using those_fl_int c by (auto simp: covers_def list_all2_map2)
qed

lemma slice_facts_sound:
  assumes facts: "slice_facts r n = Inr fs" and pr: "proved fs"
    and d: "covers r (ninput n ! 0) (dims, dvals)" and st: "covers r (ninput n ! 1) (ssh, starts)"
    and ax: "runs_axes r n (length starts) axes"
  shows "slice_valid dims axes starts"
proof -
  obtain b sh axs where f: "dict_get (intervals r) (ninput n ! 1) = Some b" "res_shape r (ninput n ! 0) = Inr sh"
    "slice_axes r (if length (ninput n) > 3 then ninput n ! 3 else '''') (length (box_lo b)) = Some axs"
    "fs = map (start_fact (noutput n ! 0) sh) (enumerate_py (zip axs (zip (box_lo b) (box_hi b))))"
    using facts pr
    by (auto simp: slice_facts_def res_simps str_nth_def proved_def unknown_fact_def Let_def split: if_splits option.splits)
  have lo: "list_all2 (\<lambda>l v. fl_le l (Fin v)) (box_lo b) starts"
    and hi: "list_all2 (\<lambda>u v. fl_le (Fin v) u) (box_hi b) starts"
    using st f(1) by (auto simp: covers_def)
  note len = list_all2_lengthD [OF lo] list_all2_lengthD [OF hi]
  have axs: "axs = axes" "length axs = length starts"
    using f(3) ax len static_ints_unique
    by (auto simp: slice_axes_def runs_axes_def split: if_splits option.splits)
  have sh: "inshape sh dims" using res_shape_ok d f(2) by blast
  have "\<exists>a. normalize_axis (axes ! i) (length dims) = Some a \<and>
      - of_int (dims ! a) \<le> starts ! i \<and> starts ! i \<le> of_int (dims ! a - 1)" if i: "i < length starts" for i
  proof (rule start_fact_sound [OF _ sh])
    have "(i, axes ! i, box_lo b ! i, box_hi b ! i) \<in> set (enumerate_py (zip axs (zip (box_lo b) (box_hi b))))"
      using i axs len by (simp add: in_set_enumerate_py)
    then show "fact_verdict (start_fact (noutput n ! 0) sh (i, axes ! i, box_lo b ! i, box_hi b ! i)) = IN_RANGE"
      using pr f(4) by (auto simp: proved_def list_all_iff)
  next
    show "fl_le (box_lo b ! i) (Fin (starts ! i))" using lo i len by (auto simp: list_all2_conv_all_nth)
    show "fl_le (Fin (starts ! i)) (box_hi b ! i)" using hi i len by (auto simp: list_all2_conv_all_nth)
  qed
  then show ?thesis using axs by (auto simp: slice_valid_def)
qed

lemma index_facts_node:
  assumes "index_facts r g = Inr fs" "n \<in> set (gnode g)"
  obtains nf where "node_facts r n = Inr nf" "set nf \<subseteq> set fs"
proof -
  obtain fss where fss: "rmap (node_facts r) (gnode g) = Inr fss" "fs = concat fss"
    using assms(1) by (auto simp: index_facts_def res_simps)
  obtain i where i: "i < length (gnode g)" "gnode g ! i = n" using assms(2) by (auto simp: in_set_conv_nth)
  then have "node_facts r n = Inr (fss ! i)" "fss ! i \<in> set fss"
    using rmap_nth [OF fss(1)] rmap_length [OF fss(1)] by auto
  then show thesis using that [of "fss ! i"] fss(2) by auto
qed

text \<open>
  C12. When index_facts returns and every fact it reports is IN_RANGE (\<^verbatim>\<open>IndexFactsReport.proved\<close>), then in
  every execution whose tensors lie in the propagated intervals, every index of every Gather and
  GatherElements node is valid for the axis it indexes, and every start of every Slice node is valid for its axis.
\<close>

theorem index_facts_proved_means_valid:
  assumes "index_facts r g = Inr fs" "proved fs" "n \<in> set (gnode g)"
    and "covers r (ninput n ! 0) (dims, dvals)" "covers r (ninput n ! 1) (ish, ivals)"
  shows "(op_type n = ''Gather'' \<or> op_type n = ''GatherElements'' \<longrightarrow> (\<forall>v \<in> set ivals. gather_valid n dims v)) \<and>
     (op_type n = ''Slice'' \<longrightarrow> (\<forall>axes. runs_axes r n (length ivals) axes \<longrightarrow> slice_valid dims axes ivals))"
proof -
  obtain nf where nf: "node_facts r n = Inr nf" "set nf \<subseteq> set fs"
    using index_facts_node [OF assms(1,3)] by blast
  then have pr: "proved nf" using assms(2) by (auto simp: proved_def list_all_iff)
  have "gather_valid n dims v" if "op_type n = ''Gather'' \<or> op_type n = ''GatherElements''" "v \<in> set ivals" for v
    using that nf pr gather_fact_sound(1) [OF _ assms(4,5)] by (auto simp: node_facts_def res_simps proved_def)
  moreover have "slice_valid dims axes ivals"
    if "op_type n = ''Slice''" "runs_axes r n (length ivals) axes" for axes
    using that nf pr slice_facts_sound [OF _ _ assms(4,5)] by (auto simp: node_facts_def)
  ultimately show ?thesis by blast
qed

text \<open>A table of five rows and indices between -5 and 4.\<close>

definition ex_table :: interval_result where
  "ex_table = \<lparr>intervals =
       [(''t'', \<lparr>box_shape = [5], box_lo = replicate 5 (Fin 0), box_hi = replicate 5 (Fin 1)\<rparr>),
        (''i'', \<lparr>box_shape = [2], box_lo = [Fin (- 5), Fin 0], box_hi = [Fin 4, Fin 4]\<rparr>)],
     ranged = []\<rparr>"

definition ex_lookup :: graph where
  "ex_lookup = Graph [Node ''Gather'' '''' ''g'' [''t'', ''i''] [''y''] []] [] [] [] []"

theorem index_facts_proved_means_valid_witness:
  "\<exists>fs n. index_facts ex_table ex_lookup = Inr fs \<and> proved fs \<and> gnode ex_lookup = [n] \<and>
     covers ex_table ''t'' ([5], replicate 5 1) \<and> covers ex_table ''i'' ([2], [- 5, 4]) \<and>
     gather_valid n [5] (- 5) \<and> gather_valid n [5] 4"
proof -
  define n where "n = Node ''Gather'' '''' ''g'' [''t'', ''i''] [''y''] []"
  have f: "\<exists>fs. index_facts ex_table ex_lookup = Inr fs \<and> proved fs"
    by (simp add: ex_table_def ex_lookup_def index_facts_def node_facts_def gather_fact_def str_nth_def attr_int_def
        known_tensor_def res_shape_def from_ints_def exact_def Dim_def normalize_axis_def index_hull_def res_hull_def
        rmap_opt_def fl_min_def fl_max_def judge_def fl_lt_def proved_def Let_def)
  then obtain fs where fs: "index_facts ex_table ex_lookup = Inr fs" "proved fs" by blast
  have n: "n \<in> set (gnode ex_lookup)" "gnode ex_lookup = [n]" by (simp_all add: ex_lookup_def n_def)
  have c: "covers ex_table ''t'' ([5], replicate 5 1)" "covers ex_table ''i'' ([2], [- 5, 4])"
    by (simp_all add: covers_def ex_table_def numeral_eq_Suc)
  then have "covers ex_table (ninput n ! 0) ([5], replicate 5 1)" "covers ex_table (ninput n ! 1) ([2], [- 5, 4])"
    by (simp_all add: n_def)
  from index_facts_proved_means_valid [OF fs n(1) this] show ?thesis using fs c n by (auto simp: n_def)
qed

end
