(* ===== verification/Arena_Plan.thy ===== *)
theory Arena_Plan
  imports Index_Facts
begin

text \<open>
  The memory side of \<^verbatim>\<open>onnxsim/shape_cost.py\<close>: integer bounds, the bound of a tensor, and \<^verbatim>\<open>_verify_plan\<close>, which checks a static
  allocation of a model's activations independently of the planner that made it. Python sets of names are lists
  without duplicates; the theorems do not depend on their order.
\<close>

section \<open>Bounds\<close>

record bound =
  blo :: int
  bhi :: "int option"

definition bound_add :: "bound \<Rightarrow> bound \<Rightarrow> bound" where
  "bound_add a b = \<lparr>blo = blo a + blo b, bhi = (case (bhi a, bhi b) of (Some x, Some y) \<Rightarrow> Some (x + y) | _ \<Rightarrow> None)\<rparr>"

definition bound_scale :: "bound \<Rightarrow> int \<Rightarrow> bound" where
  "bound_scale a k = \<lparr>blo = blo a * k, bhi = map_option (\<lambda>h. h * k) (bhi a)\<rparr>"

definition ZERO :: bound where "ZERO = \<lparr>blo = 0, bhi = Some 0\<rparr>"
definition UNBOUNDED :: bound where "UNBOUNDED = \<lparr>blo = 0, bhi = None\<rparr>"

definition bytes_of :: "bound \<Rightarrow> int option \<Rightarrow> bound" where
  "bytes_of n bits =
     (case bits of None \<Rightarrow> UNBOUNDED
      | Some b \<Rightarrow> \<lparr>blo = (blo n * b) div 8, bhi = map_option (\<lambda>h. ceil_div (h * b) 8) (bhi n)\<rparr>)"

definition dim_bound :: "dim \<Rightarrow> bound" where
  "dim_bound d = \<lparr>blo = lo d, bhi = hi d\<rparr>"

definition numel_bound :: "shape option \<Rightarrow> bound res" where
  "numel_bound sh = (case sh of None \<Rightarrow> Inr UNBOUNDED | Some s \<Rightarrow> rbind (numel s) (\<lambda>n. Inr \<lparr>blo = lo n, bhi = hi n\<rparr>))"

record tensor_bound =
  tb_name :: string
  tb_kind :: string
  tb_shape :: "shape option"
  tb_bits :: "int option"
  tb_numel :: bound
  tb_bytes :: bound
  tb_note :: string

lemma ceil_div_mono: "0 < m \<Longrightarrow> a \<le> b \<Longrightarrow> ceil_div a m \<le> ceil_div b m"
  unfolding ceil_div_def by (simp add: zdiv_mono1)

lemma exact_inside: "is_exact d \<Longrightarrow> inside d v \<Longrightarrow> dim_value d = Inr v"
  by (auto simp: is_exact_def inside_def dim_value_def)

section \<open>In-place operators\<close>

definition UNARY_INPLACE :: "string list" where
  "UNARY_INPLACE = [''Relu'', ''Sigmoid'', ''Tanh'', ''LeakyRelu'', ''Elu'', ''Selu'', ''Softplus'', ''Softsign'', ''HardSigmoid'',
     ''Clip'', ''Neg'', ''Abs'', ''Sqrt'', ''Exp'', ''Log'', ''Reciprocal'', ''Identity'', ''Erf'', ''Celu'', ''Round'', ''Ceil'', ''Floor'', ''Sign'']"

definition VIEW_OPS :: "string list" where
  "VIEW_OPS = [''Reshape'', ''Flatten'', ''Squeeze'', ''Unsqueeze'']"

definition BINARY_INPLACE :: "string list" where
  "BINARY_INPLACE = [''Add'', ''Sub'', ''Mul'', ''Div'', ''Max'', ''Min'', ''And'', ''Or'', ''Xor'', ''Mod'']"

definition same_static_shape :: "shape option \<Rightarrow> shape option \<Rightarrow> bool" where
  "same_static_shape a b \<longleftrightarrow>
     (case (a, b) of (Some x, Some y) \<Rightarrow> is_static x \<and> is_static y \<and> static_dims x = static_dims y | _ \<Rightarrow> False)"

definition first_or_empty :: "string list \<Rightarrow> string" where
  "first_or_empty xs = (case xs of [] \<Rightarrow> '''' | x # _ \<Rightarrow> x)"

definition alias_allowed :: "node \<Rightarrow> string \<Rightarrow> string \<Rightarrow> (string, tensor_bound) dict \<Rightarrow> bool" where
  "alias_allowed n x out tensors =
     (if \<not> is_std_domain n then False
      else if op_type n \<in> set UNARY_INPLACE \<or> op_type n \<in> set VIEW_OPS
      then x = first_or_empty (ninput n) \<and> out = first_or_empty (noutput n)
      else if op_type n \<in> set BINARY_INPLACE
      then (case (dict_get tensors x, dict_get tensors out) of
          (Some xt, Some ot) \<Rightarrow> same_static_shape (tb_shape xt) (tb_shape ot) | _ \<Rightarrow> False)
      else False)"

section \<open>Verifying a plan\<close>

definition plan_first :: "graph \<Rightarrow> string list \<Rightarrow> (string, int) dict" where
  "plan_first g in_names =
     foldl (\<lambda>d (i, n). foldl (\<lambda>d out. if out = '''' \<or> out \<in> tname ` set (ginit g) then d else dict_setdefault out (int i) d) d (noutput n))
       (map (\<lambda>n. (n, - 1)) in_names) (enumerate_py (gnode g))"

definition plan_last :: "graph \<Rightarrow> string list \<Rightarrow> (string, int) dict" where
  "plan_last g out_names =
     foldl (\<lambda>d out. dict_set out (int (length (gnode g))) d)
       (foldl (\<lambda>d (i, n). foldl (\<lambda>d x. if x = '''' then d else dict_set x (int i) d) d (ninput n)) [] (enumerate_py (gnode g))) out_names"

datatype plan_verdict =
    PlanOk | NoSlot string | SlotTooSmall string | LeavesArena string | LiveOverlap string string

fun check_slots :: "(string, int \<times> int) dict \<Rightarrow> int \<Rightarrow> (string, tensor_bound) dict \<Rightarrow> string list \<Rightarrow> plan_verdict" where
  "check_slots offsets arena tensors [] = PlanOk"
| "check_slots offsets arena tensors (n # ns) =
     (case dict_get offsets n of
        None \<Rightarrow> NoSlot n
      | Some (off, sz) \<Rightarrow>
          (case (case dict_get tensors n of None \<Rightarrow> None | Some t \<Rightarrow> bhi (tb_bytes t)) of
             None \<Rightarrow> SlotTooSmall n
           | Some need \<Rightarrow>
               if sz < need then SlotTooSmall n
               else if off < 0 \<or> off + sz > arena then LeavesArena n
               else check_slots offsets arena tensors ns))"

definition inplace_pairs ::
    "graph \<Rightarrow> (string, int) dict \<Rightarrow> string list \<Rightarrow> (string, tensor_bound) dict \<Rightarrow> (string \<times> string) list" where
  "inplace_pairs g lastd names tensors =
     concat (map (\<lambda>(i, n). concat (map (\<lambda>x.
        if x \<noteq> '''' \<and> dict_get lastd x = Some (int i) \<and> x \<in> set names
        then map (\<lambda>out. (x, out)) (filter (\<lambda>out. out \<noteq> '''' \<and> out \<in> set names \<and> alias_allowed n x out tensors) (noutput n))
        else []) (ninput n))) (enumerate_py (gnode g)))"

definition slots_meet :: "int \<times> int \<Rightarrow> int \<times> int \<Rightarrow> bool" where
  "slots_meet a b \<longleftrightarrow> fst a < fst b + snd b \<and> fst b < fst a + snd a"

definition spans_meet :: "int \<times> int \<Rightarrow> int \<times> int \<Rightarrow> bool" where
  "spans_meet a b \<longleftrightarrow> fst a \<le> snd b \<and> fst b \<le> snd a"

text \<open>The slot of a name that has passed the first loop.\<close>

definition slot_of :: "(string, int \<times> int) dict \<Rightarrow> string \<Rightarrow> int \<times> int" where
  "slot_of offsets n = get_default offsets n (0, 0)"

text \<open>The inner loop for one tensor stops at the first tensor that starts after it ends.\<close>

fun scan_later ::
    "(string \<Rightarrow> int \<times> int) \<Rightarrow> (string, int \<times> int) dict \<Rightarrow> (string \<times> string) list \<Rightarrow> string \<Rightarrow> string list \<Rightarrow> plan_verdict" where
  "scan_later spn offsets inplace a [] = PlanOk"
| "scan_later spn offsets inplace a (b # bs) =
     (if fst (spn b) > snd (spn a) then PlanOk
      else if spans_meet (spn a) (spn b) \<and> slots_meet (slot_of offsets a) (slot_of offsets b) \<and>
        \<not> (fst (slot_of offsets a) = fst (slot_of offsets b) \<and> ((a, b) \<in> set inplace \<or> (b, a) \<in> set inplace))
      then LiveOverlap a b
      else scan_later spn offsets inplace a bs)"

fun scan_pairs ::
    "(string \<Rightarrow> int \<times> int) \<Rightarrow> (string, int \<times> int) dict \<Rightarrow> (string \<times> string) list \<Rightarrow> string list \<Rightarrow> plan_verdict" where
  "scan_pairs spn offsets inplace [] = PlanOk"
| "scan_pairs spn offsets inplace (a # as) =
     (case scan_later spn offsets inplace a as of PlanOk \<Rightarrow> scan_pairs spn offsets inplace as | v \<Rightarrow> v)"

definition activation_names :: "(string, tensor_bound) dict \<Rightarrow> string list" where
  "activation_names tensors = map fst (filter (\<lambda>(n, t). tb_kind t \<noteq> ''weight'') tensors)"

definition span_of :: "graph \<Rightarrow> string list \<Rightarrow> string list \<Rightarrow> string \<Rightarrow> int \<times> int" where
  "span_of g in_names out_names n =
     (get_default (plan_first g in_names) n 0, get_default (plan_last g out_names) n (int (length (gnode g))))"

definition verify_plan ::
    "graph \<Rightarrow> (string, int \<times> int) dict \<Rightarrow> int \<Rightarrow> (string, tensor_bound) dict \<Rightarrow> string list \<Rightarrow> string list \<Rightarrow> plan_verdict" where
  "verify_plan g offsets arena tensors in_names out_names =
     (let names = activation_names tensors; spn = span_of g in_names out_names in
      case check_slots offsets arena tensors names of
        PlanOk \<Rightarrow> scan_pairs spn offsets (inplace_pairs g (plan_last g out_names) names tensors) (sort_key (\<lambda>n. fst (spn n)) names)
      | v \<Rightarrow> v)"

section \<open>A plan passes exactly when it is one\<close>

definition slot_fits :: "(string, int \<times> int) dict \<Rightarrow> int \<Rightarrow> (string, tensor_bound) dict \<Rightarrow> string \<Rightarrow> bool" where
  "slot_fits offsets arena tensors n \<longleftrightarrow>
     (\<exists>off sz t need. dict_get offsets n = Some (off, sz) \<and> dict_get tensors n = Some t \<and> bhi (tb_bytes t) = Some need \<and>
        need \<le> sz \<and> 0 \<le> off \<and> off + sz \<le> arena)"

definition pair_ok ::
    "(string \<Rightarrow> int \<times> int) \<Rightarrow> (string, int \<times> int) dict \<Rightarrow> (string \<times> string) list \<Rightarrow> string \<Rightarrow> string \<Rightarrow> bool" where
  "pair_ok spn offsets inplace a b \<longleftrightarrow>
     spans_meet (spn a) (spn b) \<and> slots_meet (slot_of offsets a) (slot_of offsets b) \<longrightarrow>
       fst (slot_of offsets a) = fst (slot_of offsets b) \<and> ((a, b) \<in> set inplace \<or> (b, a) \<in> set inplace)"

lemma check_slots_ok: "check_slots offsets arena tensors ns = PlanOk \<longleftrightarrow> (\<forall>n \<in> set ns. slot_fits offsets arena tensors n)"
  by (induction ns) (auto simp: slot_fits_def split: option.splits prod.splits)

lemma scan_later_ok:
  assumes "sorted (map (\<lambda>n. fst (spn n)) bs)"
  shows "scan_later spn offsets inplace a bs = PlanOk \<longleftrightarrow> (\<forall>b \<in> set bs. pair_ok spn offsets inplace a b)"
  using assms
proof (induction bs)
  case (Cons b bs)
  show ?case
  proof (cases "fst (spn b) > snd (spn a)")
    case True
    then have "\<forall>c \<in> set (b # bs). fst (spn c) > snd (spn a)" using Cons.prems by auto
    then show ?thesis using True by (auto simp: pair_ok_def spans_meet_def)
  next
    case False
    then show ?thesis using Cons by (auto simp: pair_ok_def)
  qed
qed simp

lemma pairs_insert:
  assumes "\<And>b. P a b \<longleftrightarrow> P b a" "a \<notin> S"
  shows "(\<forall>x \<in> insert a S. \<forall>y \<in> insert a S. x \<noteq> y \<longrightarrow> P x y) \<longleftrightarrow> (\<forall>b \<in> S. P a b) \<and> (\<forall>x \<in> S. \<forall>y \<in> S. x \<noteq> y \<longrightarrow> P x y)"
proof
  assume all: "\<forall>x \<in> insert a S. \<forall>y \<in> insert a S. x \<noteq> y \<longrightarrow> P x y"
  then have "P a b" if "b \<in> S" for b using that assms(2) by (metis insertCI)
  then show "(\<forall>b \<in> S. P a b) \<and> (\<forall>x \<in> S. \<forall>y \<in> S. x \<noteq> y \<longrightarrow> P x y)" using all by simp
next
  assume r: "(\<forall>b \<in> S. P a b) \<and> (\<forall>x \<in> S. \<forall>y \<in> S. x \<noteq> y \<longrightarrow> P x y)"
  show "\<forall>x \<in> insert a S. \<forall>y \<in> insert a S. x \<noteq> y \<longrightarrow> P x y"
  proof (intro ballI impI)
    fix x y assume "x \<in> insert a S" "y \<in> insert a S" "x \<noteq> y"
    then consider "x = a" "y \<in> S" | "y = a" "x \<in> S" | "x \<in> S" "y \<in> S" by blast
    then show "P x y" using r assms(1) [of x] \<open>x \<noteq> y\<close> by cases auto
  qed
qed

lemma scan_pairs_ok:
  assumes "sorted (map (\<lambda>n. fst (spn n)) as)" "distinct as"
  shows "scan_pairs spn offsets inplace as = PlanOk \<longleftrightarrow>
    (\<forall>a \<in> set as. \<forall>b \<in> set as. a \<noteq> b \<longrightarrow> pair_ok spn offsets inplace a b)"
  using assms
proof (induction as)
  case (Cons a as)
  have sym: "pair_ok spn offsets inplace a b \<longleftrightarrow> pair_ok spn offsets inplace b a" for b
    by (auto simp: pair_ok_def spans_meet_def slots_meet_def)
  have 1: "scan_later spn offsets inplace a as = PlanOk \<longleftrightarrow> (\<forall>b \<in> set as. pair_ok spn offsets inplace a b)"
    using Cons.prems by (intro scan_later_ok) simp
  have 2: "scan_pairs spn offsets inplace as = PlanOk \<longleftrightarrow>
      (\<forall>a \<in> set as. \<forall>b \<in> set as. a \<noteq> b \<longrightarrow> pair_ok spn offsets inplace a b)"
    by (rule Cons.IH) (use Cons.prems in simp_all)
  have 3: "scan_pairs spn offsets inplace (a # as) = PlanOk \<longleftrightarrow>
      scan_later spn offsets inplace a as = PlanOk \<and> scan_pairs spn offsets inplace as = PlanOk"
    by (simp split: plan_verdict.splits)
  have "a \<notin> set as" using Cons.prems by simp
  then show ?case unfolding 3 1 2 list.set by (rule pairs_insert [where P = "pair_ok spn offsets inplace", OF sym, symmetric])
qed simp

lemma activation_names_distinct: "distinct (dict_keys tensors) \<Longrightarrow> distinct (activation_names tensors)"
  unfolding activation_names_def by (rule distinct_map_filter)

lemma verify_plan_iff:
  assumes "distinct (dict_keys tensors)"
  shows "verify_plan g offsets arena tensors in_names out_names = PlanOk \<longleftrightarrow>
    (\<forall>n \<in> set (activation_names tensors). slot_fits offsets arena tensors n) \<and>
    (\<forall>a \<in> set (activation_names tensors). \<forall>b \<in> set (activation_names tensors). a \<noteq> b \<longrightarrow>
       pair_ok (span_of g in_names out_names) offsets (inplace_pairs g (plan_last g out_names) (activation_names tensors) tensors) a b)"
proof -
  let ?names = "activation_names tensors" and ?span = "span_of g in_names out_names"
  let ?ip = "inplace_pairs g (plan_last g out_names) ?names tensors"
  have "scan_pairs ?span offsets ?ip (sort_key (\<lambda>n. fst (?span n)) ?names) = PlanOk \<longleftrightarrow>
      (\<forall>a \<in> set ?names. \<forall>b \<in> set ?names. a \<noteq> b \<longrightarrow> pair_ok ?span offsets ?ip a b)"
    using scan_pairs_ok [of ?span "sort_key (\<lambda>n. fst (?span n)) ?names" offsets ?ip] activation_names_distinct [OF assms] by simp
  then show ?thesis
    unfolding verify_plan_def Let_def by (auto simp: check_slots_ok [symmetric] split: plan_verdict.splits)
qed

section \<open>A verified plan never overwrites a tensor that is still needed\<close>

text \<open>
  The arena as what was last written at each address. A run writes the inputs, then executes the nodes in order; a node reads
  its inputs and then writes its outputs, each at the size it has in this run.
\<close>

definition write_slot :: "(string, int \<times> int) dict \<Rightarrow> (string \<Rightarrow> int) \<Rightarrow> (int \<Rightarrow> string option) \<Rightarrow> string \<Rightarrow> int \<Rightarrow> string option" where
  "write_slot offsets sz mem n =
     (\<lambda>x. if fst (slot_of offsets n) \<le> x \<and> x < fst (slot_of offsets n) + sz n then Some n else mem x)"

definition written :: "(string, tensor_bound) dict \<Rightarrow> node \<Rightarrow> string list" where
  "written tensors n = filter (\<lambda>out. out \<in> set (activation_names tensors)) (noutput n)"

definition arena_run ::
    "(string, int \<times> int) dict \<Rightarrow> (string \<Rightarrow> int) \<Rightarrow> (string, tensor_bound) dict \<Rightarrow> string list \<Rightarrow> node list \<Rightarrow> int \<Rightarrow> string option" where
  "arena_run offsets sz tensors in_names ns =
     foldl (\<lambda>mem n. foldl (write_slot offsets sz) mem (written tensors n)) (foldl (write_slot offsets sz) (\<lambda>x. None) in_names) ns"

definition intact :: "(string, int \<times> int) dict \<Rightarrow> (string \<Rightarrow> int) \<Rightarrow> (int \<Rightarrow> string option) \<Rightarrow> string \<Rightarrow> bool" where
  "intact offsets sz mem n \<longleftrightarrow> (\<forall>x. fst (slot_of offsets n) \<le> x \<longrightarrow> x < fst (slot_of offsets n) + sz n \<longrightarrow> mem x = Some n)"

text \<open>A graph in single-assignment form and in order, whose activations are the inputs and what the nodes write.\<close>

definition well_ordered :: "graph \<Rightarrow> (string, tensor_bound) dict \<Rightarrow> string list \<Rightarrow> string list \<Rightarrow> bool" where
  "well_ordered g tensors in_names out_names \<longleftrightarrow>
     distinct (in_names @ concat (map (written tensors) (gnode g))) \<and>
     set in_names \<subseteq> set (activation_names tensors) \<and> '''' \<notin> set (activation_names tensors) \<and>
     set (activation_names tensors) \<inter> tname ` set (ginit g) = {} \<and>
     (\<forall>i < length (gnode g). \<forall>x \<in> set (ninput (gnode g ! i)) \<inter> set (activation_names tensors).
        x \<in> set in_names \<union> set (concat (map (written tensors) (take i (gnode g))))) \<and>
     set out_names \<inter> set (activation_names tensors) \<subseteq> set in_names \<union> set (concat (map (written tensors) (gnode g)))"

definition apart :: "(string, int \<times> int) dict \<Rightarrow> (string \<Rightarrow> int) \<Rightarrow> string \<Rightarrow> string \<Rightarrow> bool" where
  "apart offsets sz a b \<longleftrightarrow>
     (\<forall>x. \<not> (fst (slot_of offsets a) \<le> x \<and> x < fst (slot_of offsets a) + sz a \<and> fst (slot_of offsets b) \<le> x \<and> x < fst (slot_of offsets b) + sz b))"

lemma intact_write:
  "intact offsets sz mem n \<Longrightarrow> apart offsets sz n b \<Longrightarrow> intact offsets sz (write_slot offsets sz mem b) n"
  "intact offsets sz (write_slot offsets sz mem n) n"
  by (auto simp: intact_def apart_def write_slot_def)

lemma intact_writes:
  "intact offsets sz mem n \<Longrightarrow> (\<And>b. b \<in> set bs \<Longrightarrow> apart offsets sz n b) \<Longrightarrow> intact offsets sz (foldl (write_slot offsets sz) mem bs) n"
proof (induction bs rule: rev_induct)
  case (snoc b bs)
  then show ?case by (simp add: intact_write)
qed simp

lemma intact_written:
  "n \<in> set bs \<Longrightarrow> (\<And>b. b \<in> set bs \<Longrightarrow> b \<noteq> n \<Longrightarrow> apart offsets sz n b) \<Longrightarrow> intact offsets sz (foldl (write_slot offsets sz) mem bs) n"
proof (induction bs rule: rev_induct)
  case (snoc b bs)
  show ?case
  proof (cases "b = n")
    case True
    then show ?thesis by (simp add: intact_write)
  next
    case False
    then show ?thesis using snoc by (simp add: intact_write)
  qed
qed simp

text \<open>First write and last read, as the tables give them.\<close>

lemma setdefault_fold:
  "dict_get (foldl (\<lambda>d out. if P out then d else dict_setdefault out v d) d outs) n =
     (case dict_get d n of Some w \<Rightarrow> Some w | None \<Rightarrow> if n \<in> set outs \<and> \<not> P n then Some v else None)"
  by (induction outs arbitrary: d) (auto simp: dict_simps split: option.splits)

text \<open>A fold that only adds what is missing keeps the first value; one that overwrites keeps the last.\<close>

lemma first_table:
  assumes "\<And>j. j < length ns \<Longrightarrow> n \<in> set (noutput (ns ! j)) \<Longrightarrow> j = i" "i < length ns" "n \<in> set (noutput (ns ! i))" "\<not> P n" "dict_get d n = None"
  shows "dict_get (foldl (\<lambda>d (i, n). foldl (\<lambda>d out. if P out then d else dict_setdefault out (int i) d) d (noutput n)) d (enumerate_py ns)) n = Some (int i)"
  using assms
proof (induction ns rule: rev_induct)
  case (snoc a ns)
  let ?f = "\<lambda>d (i, n). foldl (\<lambda>d out. if P out then d else dict_setdefault out (int i) d) d (noutput n)"
  show ?case
  proof (cases "i < length ns")
    case True
    then have "dict_get (foldl ?f d (enumerate_py ns)) n = Some (int i)"
      using snoc.prems by (intro snoc.IH) (auto simp: nth_append split: if_splits)
    then show ?thesis by (simp add: enum_from_append setdefault_fold)
  next
    case False
    then have i: "i = length ns" "n \<in> set (noutput a)" using snoc.prems(2,3) by (auto simp: nth_append)
    have "dict_get (foldl ?f d (enumerate_py ms)) n = None" if "\<forall>m \<in> set ms. n \<notin> set (noutput m)" for ms
      using that snoc.prems(5) by (induction ms rule: rev_induct) (auto simp: enum_from_append setdefault_fold)
    moreover have "\<forall>m \<in> set ns. n \<notin> set (noutput m)"
    proof
      fix m assume "m \<in> set ns"
      then obtain j where "j < length ns" "ns ! j = m" by (auto simp: in_set_conv_nth)
      then show "n \<notin> set (noutput m)" using snoc.prems(1) [of j] i(1) by (auto simp: nth_append)
    qed
    ultimately show ?thesis using i snoc.prems(4) by (simp add: enum_from_append setdefault_fold)
  qed
qed simp

lemma overwrite_fold:
  "dict_get (foldl (\<lambda>d x. if x = '''' then d else dict_set x v d) d xs) n = (if n \<in> set xs \<and> n \<noteq> '''' then Some v else dict_get d n)"
  by (induction xs arbitrary: d) (auto simp: dict_simps)

lemma overwrite_all: "dict_get (foldl (\<lambda>d out. dict_set out v d) d outs) n = (if n \<in> set outs then Some v else dict_get d n)"
  by (induction outs arbitrary: d) (auto simp: dict_simps)

lemma last_table:
  assumes "n \<noteq> ''''"
  shows "case dict_get (foldl (\<lambda>d (i, n). foldl (\<lambda>d x. if x = '''' then d else dict_set x (int i) d) d (ninput n)) [] (enumerate_py ns)) n of
      None \<Rightarrow> \<forall>i < length ns. n \<notin> set (ninput (ns ! i))
    | Some k \<Rightarrow> \<exists>j < length ns. k = int j \<and> n \<in> set (ninput (ns ! j)) \<and> (\<forall>i < length ns. n \<in> set (ninput (ns ! i)) \<longrightarrow> i \<le> j)"
proof (induction ns rule: rev_induct)
  case (snoc a ns)
  show ?case
  proof (cases "n \<in> set (ninput a)")
    case True
    then show ?thesis using assms by (auto simp: enum_from_append overwrite_fold nth_append)
  next
    case False
    then show ?thesis using snoc by (auto simp: enum_from_append overwrite_fold nth_append less_Suc_eq split: option.splits)
  qed
qed simp

text \<open>The last read of a tensor, or the end of the run.\<close>

lemma span_last:
  assumes "n \<noteq> ''''"
  shows "n \<in> set out_names \<Longrightarrow> snd (span_of g in_names out_names n) = int (length (gnode g))"
    and "i < length (gnode g) \<Longrightarrow> n \<in> set (ninput (gnode g ! i)) \<Longrightarrow> int i \<le> snd (span_of g in_names out_names n)"
    and "dict_get (plan_last g out_names) n = Some (int i) \<Longrightarrow> i < length (gnode g) \<Longrightarrow> snd (span_of g in_names out_names n) = int i"
    and "(\<And>i. i < length (gnode g) \<Longrightarrow> n \<in> set (ninput (gnode g ! i)) \<Longrightarrow> k \<le> i) \<Longrightarrow> k \<le> length (gnode g) \<Longrightarrow> int k \<le> snd (span_of g in_names out_names n)"
  using last_table [OF assms, of "gnode g"]
  by (force simp: span_of_def plan_last_def get_default_def overwrite_all split: option.splits if_splits)+

lemma inplace_iff:
  "(x, out) \<in> set (inplace_pairs g lastd names tensors) \<longleftrightarrow>
     (\<exists>i < length (gnode g). x \<in> set (ninput (gnode g ! i)) \<and> out \<in> set (noutput (gnode g ! i)) \<and> x \<noteq> '''' \<and> out \<noteq> '''' \<and>
        x \<in> set names \<and> out \<in> set names \<and> dict_get lastd x = Some (int i) \<and> alias_allowed (gnode g ! i) x out tensors)"
proof -
  have pick: "p \<in> set (concat (map f (enumerate_py ns))) \<longleftrightarrow> (\<exists>i < length ns. p \<in> set (f (i, ns ! i)))" for p ns and f :: "nat \<times> node \<Rightarrow> (string \<times> string) list"
    by (auto simp: in_set_enumerate_py)
  show ?thesis unfolding inplace_pairs_def pick by (auto split: if_splits)
qed

text \<open>When each activation is written, in a graph that is in order.\<close>

definition born :: "graph \<Rightarrow> (string, tensor_bound) dict \<Rightarrow> string list \<Rightarrow> nat \<Rightarrow> string set" where
  "born g tensors in_names k = set in_names \<union> set (concat (map (written tensors) (take k (gnode g))))"

lemma born_Suc: "k < length (gnode g) \<Longrightarrow> born g tensors in_names (Suc k) = born g tensors in_names k \<union> set (written tensors (gnode g ! k))"
  by (auto simp: born_def take_Suc_conv_app_nth)

lemma born_mono: "j \<le> k \<Longrightarrow> born g tensors in_names j \<subseteq> born g tensors in_names k"
  unfolding born_def by (auto dest: set_take_subset_set_take [THEN subsetD])

lemma written_once_at:
  assumes "well_ordered g tensors in_names out_names" "k < length (gnode g)" "n \<in> set (written tensors (gnode g ! k))"
  shows "n \<notin> born g tensors in_names k" and "j < length (gnode g) \<Longrightarrow> n \<in> set (written tensors (gnode g ! j)) \<Longrightarrow> j = k"
proof -
  have fresh: "n \<notin> born g tensors in_names k" if "k < length (gnode g)" "n \<in> set (written tensors (gnode g ! k))" for k n
  proof -
    have "gnode g = take k (gnode g) @ gnode g ! k # drop (Suc k) (gnode g)" using that(1) by (rule id_take_nth_drop)
    then have "distinct (in_names @ concat (map (written tensors) (take k (gnode g))) @ written tensors (gnode g ! k) @ concat (map (written tensors) (drop (Suc k) (gnode g))))"
      using assms(1) unfolding well_ordered_def by (metis concat_append list.simps(9) map_append concat.simps(2))
    then show ?thesis using that(2) by (auto simp: born_def)
  qed
  show "n \<notin> born g tensors in_names k" by (rule fresh [OF assms(2,3)])
  have "n \<in> born g tensors in_names (Suc j)" if "j < length (gnode g)" "n \<in> set (written tensors (gnode g ! j))" for j
    using that born_Suc [of j g] by auto
  then show "j = k" if "j < length (gnode g)" "n \<in> set (written tensors (gnode g ! j))"
    using fresh [OF that] fresh [OF assms(2,3)] that assms(2,3) born_mono [of "Suc j" k g] born_mono [of "Suc k" j g]
    by (metis Suc_leI linorder_neqE_nat subsetD)
qed

lemma span_first:
  assumes "well_ordered g tensors in_names out_names"
  shows "n \<in> set in_names \<Longrightarrow> fst (span_of g in_names out_names n) = - 1"
    and "k < length (gnode g) \<Longrightarrow> n \<in> set (written tensors (gnode g ! k)) \<Longrightarrow> fst (span_of g in_names out_names n) = int k"
proof -
  let ?P = "\<lambda>out. out = '''' \<or> out \<in> tname ` set (ginit g)"
  have keep: "dict_get (foldl (\<lambda>d (i, n). foldl (\<lambda>d out. if ?P out then d else dict_setdefault out (int i) d) d (noutput n)) d xs) n = Some w"
    if "dict_get d n = Some w" for d n w and xs :: "(nat \<times> node) list"
    using that by (induction xs arbitrary: d) (auto simp: setdefault_fold split: prod.splits)
  have ins: "dict_get (map (\<lambda>n. (n, - 1 :: int)) in_names) n = (if n \<in> set in_names then Some (- 1) else None)" for n
    by (induction in_names) auto
  show "n \<in> set in_names \<Longrightarrow> fst (span_of g in_names out_names n) = - 1"
    by (simp add: span_of_def plan_first_def get_default_def keep ins)
  assume k: "k < length (gnode g)" "n \<in> set (written tensors (gnode g ! k))"
  have n: "n \<in> set (activation_names tensors)" "n \<notin> set in_names" "\<not> ?P n"
    using k written_once_at(1) [OF assms k] assms by (auto simp: written_def born_def well_ordered_def)
  have "dict_get (plan_first g in_names) n = Some (int k)"
    unfolding plan_first_def
  proof (rule first_table)
    show "j = k" if "j < length (gnode g)" "n \<in> set (noutput (gnode g ! j))" for j
      using written_once_at(2) [OF assms k, of j] that n(1) by (simp add: written_def)
  qed (use k n ins in \<open>auto simp: written_def\<close>)
  then show "fst (span_of g in_names out_names n) = int k" by (simp add: span_of_def get_default_def)
qed

lemma apart_of_ok:
  assumes ok: "verify_plan g offsets arena tensors in_names out_names = PlanOk" and d: "distinct (dict_keys tensors)"
    and sz: "\<And>n t h. dict_get tensors n = Some t \<Longrightarrow> bhi (tb_bytes t) = Some h \<Longrightarrow> sz n \<le> h"
    and ab: "a \<in> set (activation_names tensors)" "b \<in> set (activation_names tensors)" "a \<noteq> b"
    and meet: "spans_meet (span_of g in_names out_names a) (span_of g in_names out_names b)"
    and ip: "(a, b) \<notin> set (inplace_pairs g (plan_last g out_names) (activation_names tensors) tensors)"
      "(b, a) \<notin> set (inplace_pairs g (plan_last g out_names) (activation_names tensors) tensors)"
  shows "apart offsets sz a b"
proof -
  note ex = verify_plan_iff [OF d, THEN iffD1, OF ok]
  have size: "sz n \<le> snd (slot_of offsets n)" if "n \<in> set (activation_names tensors)" for n
    using ex that sz [of n] unfolding slot_fits_def slot_of_def get_default_def by fastforce
  have "\<not> slots_meet (slot_of offsets a) (slot_of offsets b)" using ex ab meet ip unfolding pair_ok_def by blast
  then show ?thesis using size [OF ab(1)] size [OF ab(2)] unfolding apart_def slots_meet_def by fastforce
qed

text \<open>A run of a plan that passed, on tensors no larger than their bounds.\<close>

definition plan_run ::
    "graph \<Rightarrow> (string, int \<times> int) dict \<Rightarrow> int \<Rightarrow> (string, tensor_bound) dict \<Rightarrow> string list \<Rightarrow> string list \<Rightarrow> (string \<Rightarrow> int) \<Rightarrow> bool" where
  "plan_run g offsets arena tensors in_names out_names sz \<longleftrightarrow>
     distinct (dict_keys tensors) \<and> well_ordered g tensors in_names out_names \<and>
     verify_plan g offsets arena tensors in_names out_names = PlanOk \<and>
     (\<forall>n t h. dict_get tensors n = Some t \<longrightarrow> bhi (tb_bytes t) = Some h \<longrightarrow> sz n \<le> h)"

lemma read_after_written:
  assumes w: "well_ordered g tensors in_names out_names" and i: "i < length (gnode g)" "x \<in> set (ninput (gnode g ! i))"
    and x: "x \<in> set (activation_names tensors)"
  shows "x \<in> born g tensors in_names i"
  using w i x unfolding well_ordered_def born_def by blast

lemma written_activation: "n \<in> set (written tensors m) \<longleftrightarrow> n \<in> set (activation_names tensors) \<and> n \<in> set (noutput m)"
  by (auto simp: written_def)

lemma born_activation: "well_ordered g tensors in_names out_names \<Longrightarrow> n \<in> born g tensors in_names k \<Longrightarrow> n \<in> set (activation_names tensors)"
  by (auto simp: born_def well_ordered_def written_activation)

text \<open>Where a tensor's life begins: before node \<^verbatim>\<open>k\<close>, for what was written before it; and it ends no earlier than it began.\<close>

lemma born_first:
  assumes "well_ordered g tensors in_names out_names" "k \<le> length (gnode g)" "n \<in> born g tensors in_names k"
  shows "fst (span_of g in_names out_names n) < int k"
  using assms(2,3)
proof (induction k)
  case 0
  then show ?case using span_first(1) [OF assms(1), of n] by (simp add: born_def)
next
  case (Suc k)
  then show ?case using span_first(2) [OF assms(1), of k n] born_Suc [of k g tensors in_names] by fastforce
qed

lemma written_last:
  assumes w: "well_ordered g tensors in_names out_names" and k: "k < length (gnode g)" "n \<in> set (written tensors (gnode g ! k))"
  shows "int k \<le> snd (span_of g in_names out_names n)"
proof (rule span_last(4))
  have n: "n \<in> set (activation_names tensors)" using k(2) by (simp add: written_activation)
  show "n \<noteq> ''''" using n w by (auto simp: well_ordered_def)
  show "k \<le> i" if "i < length (gnode g)" "n \<in> set (ninput (gnode g ! i))" for i
    using read_after_written [OF w that n] written_once_at(1) [OF w k] born_mono [of i k g tensors in_names] by (metis nat_le_linear subsetD)
qed (use k in simp)

lemma input_last:
  assumes "n \<noteq> ''''"
  shows "0 \<le> snd (span_of g in_names out_names n)"
  using span_last(4) [OF assms, of g 0 in_names out_names] by simp

text \<open>An in-place output is written by the node that reads the input for the last time.\<close>

lemma inplace_at:
  assumes w: "well_ordered g tensors in_names out_names"
    and p: "(x, out) \<in> set (inplace_pairs g (plan_last g out_names) (activation_names tensors) tensors)"
  obtains i where "i < length (gnode g)" "x \<in> born g tensors in_names i" "out \<in> set (written tensors (gnode g ! i))"
    "snd (span_of g in_names out_names x) = int i"
proof -
  obtain i where i: "i < length (gnode g)" "x \<in> set (ninput (gnode g ! i))" "out \<in> set (noutput (gnode g ! i))" "x \<noteq> ''''"
      "x \<in> set (activation_names tensors)" "out \<in> set (activation_names tensors)" "dict_get (plan_last g out_names) x = Some (int i)"
    using p unfolding inplace_iff by blast
  show ?thesis
    by (rule that [OF i(1) read_after_written [OF w i(1,2,5)]]) (use i span_last(3) [OF i(4,7,1)] in \<open>auto simp: written_activation\<close>)
qed

text \<open>Two activations of a run keep apart when one is written while the other is still needed.\<close>

lemma run_apart_input:
  assumes run: "plan_run g offsets arena tensors in_names out_names sz" and ab: "a \<in> set in_names" "b \<in> set in_names" "a \<noteq> b"
  shows "apart offsets sz a b"
proof -
  have w: "well_ordered g tensors in_names out_names" using run by (simp add: plan_run_def)
  have act: "n \<in> set (activation_names tensors)" "n \<noteq> ''''" if "n \<in> set in_names" for n
    using w that by (auto simp: well_ordered_def)
  have no: "(x, n) \<notin> set (inplace_pairs g (plan_last g out_names) (activation_names tensors) tensors)" if "n \<in> set in_names" for x n
  proof
    assume "(x, n) \<in> set (inplace_pairs g (plan_last g out_names) (activation_names tensors) tensors)"
    then obtain i where "i < length (gnode g)" "n \<in> set (written tensors (gnode g ! i))" by (rule inplace_at [OF w])
    then show False using written_once_at(1) [OF w, of i n] that by (simp add: born_def)
  qed
  have "spans_meet (span_of g in_names out_names a) (span_of g in_names out_names b)"
    using span_first(1) [OF w ab(1)] span_first(1) [OF w ab(2)] input_last [OF act(2) [OF ab(1)], of g in_names out_names]
      input_last [OF act(2) [OF ab(2)], of g in_names out_names] by (simp add: spans_meet_def)
  then show ?thesis
    using run by (intro apart_of_ok [where g = g and in_names = in_names and out_names = out_names and tensors = tensors and arena = arena])
      (use ab act no in \<open>auto simp: plan_run_def\<close>)
qed

lemma run_apart_written:
  assumes run: "plan_run g offsets arena tensors in_names out_names sz" and k: "k < length (gnode g)"
    and n: "n \<in> born g tensors in_names (Suc k)" "int (Suc k) \<le> snd (span_of g in_names out_names n)"
    and o: "b \<in> set (written tensors (gnode g ! k))" "b \<noteq> n"
  shows "apart offsets sz n b"
proof -
  have w: "well_ordered g tensors in_names out_names" using run by (simp add: plan_run_def)
  have "b \<notin> born g tensors in_names k" by (rule written_once_at(1) [OF w k o(1)])
  have first_b: "fst (span_of g in_names out_names b) = int k" by (rule span_first(2) [OF w k o(1)])
  have "spans_meet (span_of g in_names out_names n) (span_of g in_names out_names b)"
    using first_b written_last [OF w k o(1)] born_first [OF w _ n(1)] k n(2) by (simp add: spans_meet_def)
  moreover have "(n, b) \<notin> set (inplace_pairs g (plan_last g out_names) (activation_names tensors) tensors)"
  proof
    assume "(n, b) \<in> set (inplace_pairs g (plan_last g out_names) (activation_names tensors) tensors)"
    then obtain i where i: "i < length (gnode g)" "b \<in> set (written tensors (gnode g ! i))" "snd (span_of g in_names out_names n) = int i"
      by (rule inplace_at [OF w])
    then show False using written_once_at(2) [OF w k o(1) i(1,2)] n(2) by simp
  qed
  moreover have "(b, n) \<notin> set (inplace_pairs g (plan_last g out_names) (activation_names tensors) tensors)"
  proof
    assume "(b, n) \<in> set (inplace_pairs g (plan_last g out_names) (activation_names tensors) tensors)"
    then obtain i where i: "i < length (gnode g)" "b \<in> born g tensors in_names i" "n \<in> set (written tensors (gnode g ! i))"
      by (rule inplace_at [OF w])
    have "Suc k \<le> i" using i(2) \<open>b \<notin> born g tensors in_names k\<close> born_mono [of i k g tensors in_names] by (metis not_less_eq_eq subsetD)
    then show False using written_once_at(1) [OF w i(1,3)] n(1) born_mono [of "Suc k" i g tensors in_names] by blast
  qed
  moreover have "n \<in> set (activation_names tensors)" "b \<in> set (activation_names tensors)"
    using born_activation [OF w n(1)] o(1) by (auto simp: written_activation)
  ultimately show ?thesis
    using run by (intro apart_of_ok [where g = g and in_names = in_names and out_names = out_names and tensors = tensors and arena = arena])
      (use o in \<open>auto simp: plan_run_def\<close>)
qed

text \<open>After \<^verbatim>\<open>k\<close> nodes, every tensor written so far and still needed holds its own bytes.\<close>

lemma run_intact:
  assumes run: "plan_run g offsets arena tensors in_names out_names sz"
  shows "k \<le> length (gnode g) \<Longrightarrow> n \<in> born g tensors in_names k \<Longrightarrow> int k \<le> snd (span_of g in_names out_names n) \<Longrightarrow>
    intact offsets sz (arena_run offsets sz tensors in_names (take k (gnode g))) n"
proof (induction k arbitrary: n)
  case 0
  then have "n \<in> set in_names" by (simp add: born_def)
  then have "intact offsets sz (foldl (write_slot offsets sz) (\<lambda>x. None) in_names) n"
    by (rule intact_written) (use run_apart_input [OF run] \<open>n \<in> set in_names\<close> in auto)
  then show ?case by (simp add: arena_run_def)
next
  case (Suc k)
  let ?mem = "arena_run offsets sz tensors in_names (take k (gnode g))"
  have k: "k < length (gnode g)" using Suc.prems(1) by simp
  note ap = run_apart_written [OF run k Suc.prems(2,3)]
  have "intact offsets sz (foldl (write_slot offsets sz) ?mem (written tensors (gnode g ! k))) n"
  proof (cases "n \<in> set (written tensors (gnode g ! k))")
    case True
    then show ?thesis by (rule intact_written) (rule ap)
  next
    case False
    then have "n \<in> born g tensors in_names k" using Suc.prems(2) born_Suc [OF k] by auto
    then have "intact offsets sz ?mem n" using Suc.IH [of n] Suc.prems by simp
    then show ?thesis by (rule intact_writes) (use ap False in blast)
  qed
  then show ?case by (simp add: arena_run_def take_Suc_conv_app_nth [OF k])
qed

lemma plan_run_safe:
  assumes run: "plan_run g offsets arena tensors in_names out_names sz"
  shows "(\<forall>i < length (gnode g). \<forall>x \<in> set (ninput (gnode g ! i)) \<inter> set (activation_names tensors).
      intact offsets sz (arena_run offsets sz tensors in_names (take i (gnode g))) x) \<and>
    (\<forall>x \<in> set out_names \<inter> set (activation_names tensors). intact offsets sz (arena_run offsets sz tensors in_names (gnode g)) x)"
proof
  have w: "well_ordered g tensors in_names out_names" using run by (simp add: plan_run_def)
  have ne: "x \<noteq> ''''" if "x \<in> set (activation_names tensors)" for x using that w by (auto simp: well_ordered_def)
  show "\<forall>i < length (gnode g). \<forall>x \<in> set (ninput (gnode g ! i)) \<inter> set (activation_names tensors).
      intact offsets sz (arena_run offsets sz tensors in_names (take i (gnode g))) x"
    using run_intact [OF run] read_after_written [OF w] span_last(2) [OF ne] by (simp add: less_imp_le)
  show "\<forall>x \<in> set out_names \<inter> set (activation_names tensors). intact offsets sz (arena_run offsets sz tensors in_names (gnode g)) x"
  proof
    fix x assume x: "x \<in> set out_names \<inter> set (activation_names tensors)"
    have "x \<in> born g tensors in_names (length (gnode g))" using x w unfolding well_ordered_def born_def by auto
    moreover have "snd (span_of g in_names out_names x) = int (length (gnode g))" using x span_last(1) [OF ne, of x out_names g in_names] by simp
    ultimately show "intact offsets sz (arena_run offsets sz tensors in_names (gnode g)) x"
      using run_intact [OF run, of "length (gnode g)" x] by simp
  qed
qed

text \<open>
  C16. \<^verbatim>\<open>_verify_plan\<close> passes exactly the plans it describes: every activation has a slot of at least its upper-bound size inside the
  arena, and any two activations that are live together occupy disjoint addresses, except an in-place pair at one
  offset. Sorting by first use and stopping at the first tensor that starts too late loses nothing.
\<close>

theorem verify_plan_exact:
  assumes "distinct (dict_keys tensors)"
  shows "verify_plan g offsets arena tensors in_names out_names = PlanOk \<longleftrightarrow>
    (\<forall>n \<in> set (activation_names tensors). slot_fits offsets arena tensors n) \<and>
    (\<forall>a \<in> set (activation_names tensors). \<forall>b \<in> set (activation_names tensors). a \<noteq> b \<longrightarrow>
       pair_ok (span_of g in_names out_names) offsets (inplace_pairs g (plan_last g out_names) (activation_names tensors) tensors) a b)"
  using assms by (rule verify_plan_iff)

text \<open>
  C14. A plan that \<^verbatim>\<open>_verify_plan\<close> passes never loses a tensor that is still needed. Run the nodes in order, each tensor at its slot and
  no larger than its bound: when a node runs, every activation it reads still holds its own bytes, whatever was written to
  the shared arena before, and at the end so does every graph output.
\<close>

theorem verified_plan_never_clobbers:
  assumes "distinct (dict_keys tensors)" and "well_ordered g tensors in_names out_names"
    and "verify_plan g offsets arena tensors in_names out_names = PlanOk"
    and "\<forall>n t h. dict_get tensors n = Some t \<longrightarrow> bhi (tb_bytes t) = Some h \<longrightarrow> sz n \<le> h"
  shows "(\<forall>i < length (gnode g). \<forall>x \<in> set (ninput (gnode g ! i)) \<inter> set (activation_names tensors).
      intact offsets sz (arena_run offsets sz tensors in_names (take i (gnode g))) x) \<and>
    (\<forall>x \<in> set out_names \<inter> set (activation_names tensors). intact offsets sz (arena_run offsets sz tensors in_names (gnode g)) x)"
  using assms by (intro plan_run_safe) (simp add: plan_run_def)

text \<open>A convolution into a second slot, then an activation in place.\<close>

definition wit_plan_graph :: graph where
  "wit_plan_graph = Graph [Node ''Conv'' '''' ''c'' [''x'', ''w''] [''y''] [], Node ''Relu'' '''' ''r'' [''y''] [''z''] []] [] [] []
     [\<lparr>tname = ''w'', data_type = FLOAT, tdims = [1], raw_data = None, data_location = DEFAULT, external_data = []\<rparr>]"

definition wit_bound :: "string \<Rightarrow> string \<Rightarrow> int \<Rightarrow> tensor_bound" where
  "wit_bound n k b = \<lparr>tb_name = n, tb_kind = k, tb_shape = None, tb_bits = Some 32, tb_numel = UNBOUNDED, tb_bytes = \<lparr>blo = 0, bhi = Some b\<rparr>, tb_note = ''''\<rparr>"

definition wit_tensors :: "(string, tensor_bound) dict" where
  "wit_tensors = [(''x'', wit_bound ''x'' ''input'' 4), (''w'', wit_bound ''w'' ''weight'' 4),
     (''y'', wit_bound ''y'' ''activation'' 4), (''z'', wit_bound ''z'' ''output'' 4)]"

definition wit_offsets :: "(string, int \<times> int) dict" where
  "wit_offsets = [(''x'', (0, 4)), (''y'', (4, 4)), (''z'', (4, 4))]"

lemmas wit_plan_defs = wit_plan_graph_def wit_bound_def wit_tensors_def wit_offsets_def

lemma wit_plan_verified: "verify_plan wit_plan_graph wit_offsets 8 wit_tensors [''x''] [''z''] = PlanOk"
  by code_simp

lemma wit_plan_ordered: "well_ordered wit_plan_graph wit_tensors [''x''] [''z'']"
  unfolding well_ordered_def wit_plan_defs activation_names_def written_def
  by (auto simp: less_Suc_eq nth_Cons take_Cons split: nat.splits)

theorem verify_plan_exact_witness:
  "distinct (dict_keys wit_tensors) \<and> slot_fits wit_offsets 8 wit_tensors ''y'' \<and>
   verify_plan wit_plan_graph wit_offsets 8 wit_tensors [''x''] [''z''] = PlanOk \<and>
   verify_plan wit_plan_graph wit_offsets 7 wit_tensors [''x''] [''z''] \<noteq> PlanOk"
proof -
  have d: "distinct (dict_keys wit_tensors)" by (simp add: wit_tensors_def)
  have y: "''y'' \<in> set (activation_names wit_tensors)" by code_simp
  have "slot_fits wit_offsets 8 wit_tensors ''y''"
    using verify_plan_exact [OF d, THEN iffD1, OF wit_plan_verified] y by blast
  moreover have "\<not> slot_fits wit_offsets 7 wit_tensors ''y''" by (simp add: slot_fits_def wit_offsets_def)
  then have "verify_plan wit_plan_graph wit_offsets 7 wit_tensors [''x''] [''z''] \<noteq> PlanOk"
    using verify_plan_exact [OF d, of wit_plan_graph wit_offsets 7 "[''x'']" "[''z'']"] y by blast
  ultimately show ?thesis using d wit_plan_verified by simp
qed

theorem verified_plan_never_clobbers_witness:
  "intact wit_offsets (\<lambda>n. 4) (arena_run wit_offsets (\<lambda>n. 4) wit_tensors [''x''] (take 1 (gnode wit_plan_graph))) ''y'' \<and>
   intact wit_offsets (\<lambda>n. 4) (arena_run wit_offsets (\<lambda>n. 4) wit_tensors [''x''] (gnode wit_plan_graph)) ''z''"
proof -
  have d: "distinct (dict_keys wit_tensors)" by (simp add: wit_tensors_def)
  have sz: "\<forall>n t h. dict_get wit_tensors n = Some t \<longrightarrow> bhi (tb_bytes t) = Some h \<longrightarrow> (4 :: int) \<le> h"
    by (auto simp: wit_tensors_def wit_bound_def split: if_splits)
  have len: "1 < length (gnode wit_plan_graph)" by (simp add: wit_plan_graph_def)
  have y: "''y'' \<in> set (ninput (gnode wit_plan_graph ! 1)) \<inter> set (activation_names wit_tensors)"
    and z: "''z'' \<in> set [''z''] \<inter> set (activation_names wit_tensors)" by (simp_all add: wit_plan_defs activation_names_def)
  note safe = verified_plan_never_clobbers [OF d wit_plan_ordered wit_plan_verified sz]
  show ?thesis
    by (rule conjI [OF safe [THEN conjunct1, rule_format, OF len y] safe [THEN conjunct2, rule_format, OF z]])
qed

end
