(* ===== verification/Cost_Bounds.thy ===== *)
theory Cost_Bounds
  imports Arena_Plan
begin

text \<open>
  The analysis of \<^verbatim>\<open>onnxsim/shape_cost.py\<close>: \<^verbatim>\<open>bounds\<close>, the arena plan and \<^verbatim>\<open>check_budget\<close>. Interval propagation
  (\<^verbatim>\<open>onnxsim/interval.py\<close>), ONNX shape inference, the numpy type of an element type and the memory planner are arguments. A note is kept as
  the case it comes from, and Python sets of names are lists in order of first appearance.

  Floats: the peak is summed in doubles. A double here is a non-negative integer or infinity (\<^verbatim>\<open>None\<close>), and addition rounds to 53 bits.
\<close>

section \<open>Inputs of the analysis\<close>

datatype spec_dim = SInt int | SRange int "int option" | SUnset

datatype cost_note =
    NoDeclaredShape string
  | WithoutRange "string list"
  | HasSubgraph string string
  | TensorsUnbounded nat string "string list"
  | ArenaSubgraph
  | ArenaNoUpperBound
  | PlannerUnavailable
  | PlannerFailed
  | PlannerLeft nat
  | PlanDropped plan_verdict
  | NoVerifiedPlan

definition has_subgraph :: "node \<Rightarrow> bool" where
  "has_subgraph n \<longleftrightarrow> (\<exists>a \<in> set (nattr n). attr_g a \<noteq> None \<or> attr_graphs a \<noteq> [])"

fun input_dim :: "(string, spec_dim) dict \<Rightarrow> string \<Rightarrow> nat \<times> odim \<Rightarrow> spec_dim \<times> string list" where
  "input_dim dim_ranges name (i, DimValue v) = (if v > 0 then (SInt v, []) else (SUnset, [name @ ''['' @ str_nat i @ '']'']))"
| "input_dim dim_ranges name (i, DimParam p) =
     (case dict_get dim_ranges p of
        Some r \<Rightarrow> if p = '''' then (SUnset, [name @ ''['' @ str_nat i @ '']'']) else (r, [])
      | None \<Rightarrow> (SUnset, [or_name p (name @ ''['' @ str_nat i @ '']'')]))"
| "input_dim dim_ranges name (i, DimUnset) = (SUnset, [name @ ''['' @ str_nat i @ '']''])"

definition input_step ::
    "string list \<Rightarrow> (string, spec_dim) dict \<Rightarrow> (string, spec_dim list) dict \<Rightarrow>
     (string, spec_dim list) dict \<times> cost_note list \<times> string list \<Rightarrow> value_info \<Rightarrow> (string, spec_dim list) dict \<times> cost_note list \<times> string list" where
  "input_step inits dim_ranges overrides st vi =
     (let (specs, notes, unconstrained) = st in
      if vname vi \<in> set inits then st
      else case dict_get overrides (vname vi) of
        Some ds \<Rightarrow> (dict_set (vname vi) ds specs, notes, unconstrained)
      | None \<Rightarrow>
          (case vshape vi of
             None \<Rightarrow> (specs, notes @ [NoDeclaredShape (vname vi)], unconstrained)
           | Some ds \<Rightarrow>
               (let r = map (input_dim dim_ranges (vname vi)) (enumerate_py ds) in
                (dict_set (vname vi) (map fst r) specs, notes, unconstrained @ concat (map snd r)))))"

definition input_specs ::
    "graph \<Rightarrow> (string, spec_dim) dict \<Rightarrow> (string, spec_dim list) dict \<Rightarrow> (string, spec_dim list) dict \<times> cost_note list" where
  "input_specs g dim_ranges overrides =
     (let (specs, notes, unconstrained) = foldl (input_step (map tname (ginit g)) dim_ranges overrides) ([], [], []) (ginput g) in
      (specs, if unconstrained = [] then notes else notes @ [WithoutRange (sort (remdups unconstrained))]))"

definition static_dim :: "odim \<Rightarrow> int option" where
  "static_dim d = (case d of DimValue v \<Rightarrow> if v > 0 then Some v else None | _ \<Rightarrow> None)"

text \<open>\<open>infer\<close> is \<^verbatim>\<open>onnx.shape_inference.infer_shapes\<close>, with and without data propagation; \<open>None\<close> when it raises.\<close>

definition onnx_static_dims ::
    "(bool \<Rightarrow> graph \<Rightarrow> graph option) \<Rightarrow> (graph \<Rightarrow> (string, spec_dim list) dict \<Rightarrow> graph) \<Rightarrow> graph \<Rightarrow> (string, spec_dim list) dict \<Rightarrow>
     (string, int option list) dict" where
  "onnx_static_dims infer declare_input_dims g overridden =
     (case infer True (if overridden = [] then g else declare_input_dims g overridden) of
        None \<Rightarrow> []
      | Some gi \<Rightarrow>
          foldl (\<lambda>out vi. case vshape vi of None \<Rightarrow> out | Some ds \<Rightarrow> dict_set (vname vi) (map static_dim ds) out) []
            (gvalue_info gi @ goutput gi))"

definition elem_types :: "(bool \<Rightarrow> graph \<Rightarrow> graph option) \<Rightarrow> graph \<Rightarrow> (string, elem_type) dict" where
  "elem_types infer g =
     (let gi = (case infer False g of None \<Rightarrow> g | Some x \<Rightarrow> x) in
      foldl (\<lambda>types t. dict_set (tname t) (data_type t) types)
        (foldl (\<lambda>types vi. if elem_type_of vi = UNDEFINED then types else dict_set (vname vi) (elem_type_of vi) types) []
          (ginput gi @ gvalue_info gi @ goutput gi))
        (ginit g))"

text \<open>\<open>np_dtype\<close> is \<^verbatim>\<open>helper.tensor_dtype_to_np_dtype\<close>: the kind and the item size, \<open>None\<close> when it raises.\<close>

definition FOUR_BIT :: "elem_type list" where
  "FOUR_BIT = [OtherType 21, OtherType 22, OtherType 23]"

definition bits :: "(elem_type \<Rightarrow> (char \<times> int) option) \<Rightarrow> elem_type \<Rightarrow> int option" where
  "bits np_dtype t =
     (if t \<in> set FOUR_BIT then Some 4
      else case np_dtype t of None \<Rightarrow> None
        | Some (kind, itemsize) \<Rightarrow> if kind \<in> set ''OUSV'' then None else Some (itemsize * 8))"

fun tighten_dims :: "shape \<Rightarrow> int option list \<Rightarrow> shape res" where
  "tighten_dims (d # ds) (s # ss) =
     rbind (case s of None \<Rightarrow> Inr d
        | Some v \<Rightarrow> rbind (exact v) (\<lambda>e. rbind (intersect d e) (\<lambda>j. Inr (case j of None \<Rightarrow> d | Some x \<Rightarrow> x))))
       (\<lambda>t. rbind (tighten_dims ds ss) (\<lambda>ts. Inr (t # ts)))"
| "tighten_dims _ _ = Inr []"

definition tighten :: "shape option \<Rightarrow> int option list option \<Rightarrow> shape option res" where
  "tighten sh static =
     (case (sh, static) of
        (Some s, Some st) \<Rightarrow> if length st \<noteq> length s then Inr sh else rmap_opt (tighten_dims s st)
      | _ \<Rightarrow> Inr sh)"

section \<open>Tensors\<close>

definition init_table :: "graph \<Rightarrow> (string, tensor_proto) dict" where
  "init_table g = foldl (\<lambda>d t. dict_set (tname t) t d) [] (ginit g)"

definition shape_of ::
    "(string, tensor_proto) dict \<Rightarrow> interval_result \<Rightarrow> (string, int option list) dict \<Rightarrow> string \<Rightarrow> shape option res" where
  "shape_of inits r static name =
     (case dict_get inits name of
        Some t \<Rightarrow> rmap_opt (from_ints (tdims t))
      | None \<Rightarrow>
          rbind (case dict_get (ranged r) name of
              Some rt \<Rightarrow> Inr (Some (rt_shape rt))
            | None \<Rightarrow> (case dict_get (intervals r) name of
                  Some b \<Rightarrow> rmap_opt (from_ints (box_shape b)) | None \<Rightarrow> Inr None))
            (\<lambda>s. tighten s (dict_get static name)))"

definition producer_table :: "graph \<Rightarrow> (string, string) dict" where
  "producer_table g =
     foldl (\<lambda>d n. foldl (\<lambda>d out. if out = '''' then d else dict_set out (op_type n) d) d (noutput n)) [] (gnode g)"

definition bound_note :: "(string, string) dict \<Rightarrow> string \<Rightarrow> shape option \<Rightarrow> elem_type option \<Rightarrow> int option \<Rightarrow> string" where
  "bound_note producer name sh et b =
     (if sh = None then
        ''shape unknown'' @ (case dict_get producer name of None \<Rightarrow> '''' | Some op \<Rightarrow> '' (output of '' @ op @ '')'')
      else if et = None then ''element type unknown''
      else if b = None then ''element type has no fixed width''
      else '''')"

type_synonym tensor_table = "(string, tensor_bound) dict"

definition add_tensor ::
    "(string \<Rightarrow> shape option res) \<Rightarrow> (elem_type \<Rightarrow> int option) \<Rightarrow> (string, elem_type) dict \<Rightarrow> (string, string) dict \<Rightarrow>
     tensor_table \<times> string list \<Rightarrow> string \<times> string \<Rightarrow> (tensor_table \<times> string list) res" where
  "add_tensor shp bits_of etypes producer st nk =
     (let (tensors, unbounded) = st; (name, kind) = nk in
      if name = '''' \<or> dict_get tensors name \<noteq> None then Inr st
      else
        rbind (shp name) (\<lambda>sh.
          let et = dict_get etypes name; b = (case et of None \<Rightarrow> None | Some t \<Rightarrow> bits_of t) in
          rbind (numel_bound sh) (\<lambda>ne.
            let nbytes = bytes_of ne b in
            Inr (dict_set name \<lparr>tb_name = name, tb_kind = kind, tb_shape = sh, tb_bits = b, tb_numel = ne, tb_bytes = nbytes,
                   tb_note = bound_note producer name sh et b\<rparr> tensors,
                 if bhi nbytes = None then unbounded @ [name] else unbounded))))"

text \<open>The calls of \<^verbatim>\<open>add\<close>, in order.\<close>

definition tensor_calls :: "graph \<Rightarrow> string list \<Rightarrow> string list \<Rightarrow> string list \<Rightarrow> (string \<times> string) list" where
  "tensor_calls g inits in_names out_names =
     map (\<lambda>n. (n, ''weight'')) inits @ map (\<lambda>n. (n, ''input'')) in_names @
     concat (map (\<lambda>n. map (\<lambda>out. (out, if out \<in> set out_names then ''output'' else ''activation'')) (filter (\<lambda>out. out \<noteq> '''') (noutput n))) (gnode g)) @
     map (\<lambda>n. (n, ''output'')) out_names"

definition reason_notes :: "tensor_table \<Rightarrow> string list \<Rightarrow> cost_note list" where
  "reason_notes tensors unbounded =
     map (\<lambda>(why, names). TensorsUnbounded (length names) why (take 6 names))
       (foldl (\<lambda>d n. dict_append (case dict_get tensors n of None \<Rightarrow> ''unbounded dimension'' | Some t \<Rightarrow> or_name (tb_note t) ''unbounded dimension'') n d) [] unbounded)"

section \<open>Peak of the live activations\<close>

type_synonym double = "int option"

text \<open>The nearest double of a non-negative integer, ties to even: 53 significant bits.\<close>

fun bit_len :: "nat \<Rightarrow> nat" where
  "bit_len n = (if n = 0 then 0 else Suc (bit_len (n div 2)))"

declare bit_len.simps [simp del]

definition round53 :: "int \<Rightarrow> int" where
  "round53 v =
     (if v < 2 ^ 53 then v
      else let e = bit_len (nat v) - 53; q = v div 2 ^ e; r = 2 * (v mod 2 ^ e) in
        (if r > 2 ^ e \<or> (r = 2 ^ e \<and> odd q) then q + 1 else q) * 2 ^ e)"

definition float_of :: "int \<Rightarrow> double res" where
  "float_of v = (if round53 v \<ge> 2 ^ 1024 then Inl (OtherError ''OverflowError'') else Inr (Some (round53 v)))"

definition float_add :: "double \<Rightarrow> double \<Rightarrow> double" where
  "float_add a b = (case (a, b) of (Some x, Some y) \<Rightarrow> if round53 (x + y) \<ge> 2 ^ 1024 then None else Some (round53 (x + y)) | _ \<Rightarrow> None)"

definition float_max :: "double \<Rightarrow> double \<Rightarrow> double" where
  "float_max a b = (case (a, b) of (Some x, Some y) \<Rightarrow> Some (max x y) | _ \<Rightarrow> None)"

definition pv :: "int option \<Rightarrow> double res" where
  "pv v = (case v of None \<Rightarrow> Inr None | Some k \<Rightarrow> float_of k)"

definition live_total :: "tensor_table \<Rightarrow> (bound \<Rightarrow> int option) \<Rightarrow> string list \<Rightarrow> double res" where
  "live_total tensors pick live =
     rfold (\<lambda>acc n. case dict_get tensors n of None \<Rightarrow> Inl (KeyError n)
        | Some t \<Rightarrow> rbind (pv (pick (tb_bytes t))) (\<lambda>v. Inr (float_add acc v))) (Some 0) live"

definition last_use :: "graph \<Rightarrow> string list \<Rightarrow> (string, int) dict" where
  "last_use g out_names =
     foldl (\<lambda>d out. dict_set out (int (length (gnode g))) d)
       (foldl (\<lambda>d (i, n). foldl (\<lambda>d x. if x = '''' then d else dict_set x (int i) d) d (ninput n)) [] (enumerate_py (gnode g))) out_names"

definition add_live :: "string list \<Rightarrow> string list \<Rightarrow> node \<Rightarrow> string list" where
  "add_live weight_names live n =
     foldl (\<lambda>live out. if out \<noteq> '''' \<and> out \<notin> set weight_names then (if out \<in> set live then live else live @ [out]) else live) live (noutput n)"

definition drop_dead :: "(string, int) dict \<Rightarrow> nat \<Rightarrow> string list \<Rightarrow> string list" where
  "drop_dead lastd i live = filter (\<lambda>n. dict_get lastd n \<noteq> Some (int i)) live"

fun peak_loop ::
    "(string list \<Rightarrow> double res) \<Rightarrow> (string, int) dict \<Rightarrow> string list \<Rightarrow> string list \<Rightarrow> double \<Rightarrow> (nat \<times> node) list \<Rightarrow> double res" where
  "peak_loop tot lastd weight_names live best [] = Inr best"
| "peak_loop tot lastd weight_names live best ((i, n) # ns) =
     (let live1 = add_live weight_names live n in
      rbind (tot live1) (\<lambda>cur. peak_loop tot lastd weight_names (drop_dead lastd i live1) (float_max best cur) ns))"

definition peak ::
    "graph \<Rightarrow> tensor_table \<Rightarrow> string list \<Rightarrow> string list \<Rightarrow> string list \<Rightarrow> (bound \<Rightarrow> int option) \<Rightarrow> int option res" where
  "peak g tensors weight_names in_names out_names pick =
     rbind (live_total tensors pick in_names) (\<lambda>best.
       peak_loop (live_total tensors pick) (last_use g out_names) weight_names in_names best (enumerate_py (gnode g)))"

section \<open>Multiply-accumulates and bytes moved\<close>

definition MAC_OPS :: "string list" where
  "MAC_OPS = [''Conv'', ''ConvInteger'', ''QLinearConv'', ''ConvTranspose'', ''Gemm'', ''MatMul'', ''MatMulInteger'', ''QLinearMatMul'', ''Attention'']"

definition prod_dims :: "shape \<Rightarrow> dim res" where
  "prod_dims ds = rbind (exact 1) (\<lambda>one. rfold dim_mul one ds)"

text \<open>The product of the elements of one shape, a dimension and the elements of another.\<close>

definition prod3 :: "shape \<Rightarrow> dim \<Rightarrow> shape \<Rightarrow> bound res" where
  "prod3 a d b =
     rbind (prod_dims a) (\<lambda>x. rbind (dim_mul x d) (\<lambda>y. rbind (prod_dims b) (\<lambda>z. rbind (dim_mul y z) (\<lambda>m. Inr (dim_bound m)))))"

definition attention_total :: "dim \<Rightarrow> dim \<Rightarrow> dim \<Rightarrow> dim \<Rightarrow> dim \<Rightarrow> dim \<Rightarrow> bound res" where
  "attention_total batch heads sq skv dq dv =
     rbind (dim_mul batch heads) (\<lambda>bh. rbind (dim_mul bh sq) (\<lambda>bhs. rbind (dim_mul bhs skv) (\<lambda>base.
     rbind (dim_mul base dq) (\<lambda>x. rbind (dim_mul base dv) (\<lambda>y. rbind (dim_add x y) (\<lambda>m. Inr (dim_bound m)))))))"

definition macs_attention :: "node \<Rightarrow> shape option \<Rightarrow> shape option \<Rightarrow> shape option \<Rightarrow> bound res" where
  "macs_attention n q k v =
     (case (q, k, v) of
        (Some q, Some k, Some v) \<Rightarrow>
          if length q = 4 \<and> length k = 4 \<and> length v = 4 then attention_total (q ! 0) (q ! 1) (q ! 2) (k ! 2) (q ! 3) (v ! 3)
          else if length q = 3 \<and> length k = 3 \<and> length v = 3 then
            (let qh = attr_int n ''q_num_heads'' 0; kvh = attr_int n ''kv_num_heads'' 0 in
             if qh \<le> 0 \<or> kvh \<le> 0 \<or> \<not> is_exact (k ! 2) \<or> \<not> is_exact (v ! 2) then Inr UNBOUNDED
             else rbind (exact qh) (\<lambda>heads. rbind (dim_value (k ! 2)) (\<lambda>k2. rbind (exact (k2 div kvh)) (\<lambda>dq.
               rbind (dim_value (v ! 2)) (\<lambda>v2. rbind (exact (v2 div kvh)) (\<lambda>dv.
                 attention_total (q ! 0) heads (q ! 1) (k ! 1) dq dv))))))
          else Inr UNBOUNDED
      | _ \<Rightarrow> Inr UNBOUNDED)"

text \<open>\<^verbatim>\<open>sh(i)\<close> of \<^verbatim>\<open>_node_macs\<close>.\<close>

definition operand_shape :: "(string \<Rightarrow> shape option res) \<Rightarrow> node \<Rightarrow> nat \<Rightarrow> shape option res" where
  "operand_shape shp n i = (if i < length (ninput n) \<and> ninput n ! i \<noteq> '''' then shp (ninput n ! i) else Inr None)"

definition macs_try :: "(string \<Rightarrow> shape option res) \<Rightarrow> node \<Rightarrow> shape option \<Rightarrow> bound res" where
  "macs_try shp n out =
     (let sh = operand_shape shp n; t = op_type n in
      if t \<in> {''Conv'', ''ConvInteger'', ''QLinearConv''} then
        rbind (sh (if t = ''QLinearConv'' then 3 else 1)) (\<lambda>w.
          case (w, out) of
            (Some w, Some out) \<Rightarrow> if length w < 2 then Inr UNBOUNDED else prod3 out (w ! 1) (drop 2 w)
          | _ \<Rightarrow> Inr UNBOUNDED)
      else if t = ''ConvTranspose'' then
        rbind (sh 0) (\<lambda>x. rbind (sh 1) (\<lambda>w.
          case (x, w) of
            (Some x, Some w) \<Rightarrow> if length w < 2 then Inr UNBOUNDED else prod3 x (w ! 1) (drop 2 w)
          | _ \<Rightarrow> Inr UNBOUNDED))
      else if t = ''Gemm'' then
        rbind (sh 0) (\<lambda>a. rbind (sh 1) (\<lambda>b.
          case (a, b) of
            (Some a, Some b) \<Rightarrow>
              if length a \<noteq> 2 \<or> length b \<noteq> 2 then Inr UNBOUNDED
              else (let (m, k) = (if attr_int n ''transA'' 0 \<noteq> 0 then (a ! 1, a ! 0) else (a ! 0, a ! 1));
                        nn = (if attr_int n ''transB'' 0 \<noteq> 0 then b ! 0 else b ! 1) in
                    rbind (dim_mul m nn) (\<lambda>mn. rbind (dim_mul mn k) (\<lambda>r. Inr (dim_bound r))))
          | _ \<Rightarrow> Inr UNBOUNDED))
      else if t \<in> {''MatMul'', ''MatMulInteger'', ''QLinearMatMul''} then
        rbind (sh 0) (\<lambda>a.
          case (a, out) of
            (Some a, Some out) \<Rightarrow>
              if a = [] then Inr UNBOUNDED
              else rbind (prod_dims out) (\<lambda>x. rbind (dim_mul x (last a)) (\<lambda>r. Inr (dim_bound r)))
          | _ \<Rightarrow> Inr UNBOUNDED)
      else if t = ''Attention'' then
        rbind (sh 0) (\<lambda>q. rbind (sh 1) (\<lambda>k. rbind (sh 2) (\<lambda>v. macs_attention n q k v)))
      else Inr UNBOUNDED)"

definition node_macs :: "(string \<Rightarrow> shape option res) \<Rightarrow> node \<Rightarrow> bound option res" where
  "node_macs shp n =
     (if op_type n \<notin> set MAC_OPS \<or> \<not> is_std_domain n then Inr None
      else rbind (if first_or_empty (noutput n) \<noteq> '''' then shp (first_or_empty (noutput n)) else Inr None) (\<lambda>out.
        Inr (Some (case macs_try shp n out of Inr b \<Rightarrow> b | Inl _ \<Rightarrow> UNBOUNDED))))"

record node_cost =
  nc_name :: string
  nc_op_type :: string
  nc_macs :: "bound option"
  nc_access :: bound

definition node_access :: "tensor_table \<Rightarrow> node \<Rightarrow> bound" where
  "node_access tensors n =
     foldl (\<lambda>acc x. if x = '''' then acc
        else case dict_get tensors x of Some t \<Rightarrow> bound_add acc (tb_bytes t) | None \<Rightarrow> bound_add acc UNBOUNDED)
       ZERO (ninput n @ noutput n)"

definition cost_step ::
    "(string \<Rightarrow> shape option res) \<Rightarrow> tensor_table \<Rightarrow> node_cost list \<times> bound \<times> bound \<Rightarrow> node \<Rightarrow> (node_cost list \<times> bound \<times> bound) res" where
  "cost_step shp tensors st n =
     (let (nodes, macs, mem) = st in
      rbind (node_macs shp n) (\<lambda>m.
        let access = node_access tensors n in
        Inr (nodes @ [\<lparr>nc_name = or_name (nname n) (first_or_empty (noutput n)), nc_op_type = op_type n, nc_macs = m, nc_access = access\<rparr>],
             (case m of None \<Rightarrow> macs | Some b \<Rightarrow> bound_add macs b), bound_add mem access)))"

section \<open>The arena plan\<close>

text \<open>What \<^verbatim>\<open>plan_activation_memory\<close> returns; a call that raises is \<^verbatim>\<open>Inl\<close>, a missing module \<^verbatim>\<open>None\<close>.\<close>

record planned =
  pl_offsets :: "(string, int \<times> int) dict"
  pl_arena :: int
  pl_naive :: int
  pl_unplanned :: "string list"

record arena_plan =
  ap_arena :: int
  ap_naive :: int
  ap_offsets :: "(string, int \<times> int) dict"
  ap_verified :: bool

definition no_upper_bound :: "tensor_bound \<Rightarrow> bool" where
  "no_upper_bound t \<longleftrightarrow>
     (case tb_shape t of None \<Rightarrow> True | Some s \<Rightarrow> bhi (tb_bytes t) = None \<or> (\<exists>d \<in> set s. hi d = None))"

definition hi_dims :: "tensor_table \<Rightarrow> string \<Rightarrow> int list" where
  "hi_dims tensors n =
     (let ds = (case dict_get tensors n of None \<Rightarrow> [] | Some t \<Rightarrow> (case tb_shape t of None \<Rightarrow> [] | Some s \<Rightarrow> List.map_filter hi s)) in
      if ds = [] then [1] else ds)"

definition set_type :: "tensor_table \<Rightarrow> (string, elem_type) dict \<Rightarrow> value_info \<Rightarrow> value_info" where
  "set_type tensors etypes vi =
     (case dict_get etypes (vname vi) of None \<Rightarrow> vi
      | Some et \<Rightarrow> vi\<lparr>elem_type_of := et, vshape := Some (map DimValue (hi_dims tensors (vname vi)))\<rparr>)"

definition risky :: "tensor_table \<Rightarrow> node \<Rightarrow> bool" where
  "risky tensors n \<longleftrightarrow>
     op_type n \<in> set BINARY_INPLACE \<and> is_std_domain n \<and> noutput n \<noteq> [] \<and>
     (case dict_get tensors (first_or_empty (noutput n)) of None \<Rightarrow> False
      | Some ot \<Rightarrow> \<exists>x \<in> set (ninput n). x \<noteq> '''' \<and>
          (case dict_get tensors x of None \<Rightarrow> False
           | Some xt \<Rightarrow> bhi (tb_bytes xt) = bhi (tb_bytes ot) \<and> \<not> same_static_shape (tb_shape xt) (tb_shape ot)))"

definition rename_risky :: "tensor_table \<Rightarrow> node \<Rightarrow> node" where
  "rename_risky tensors n =
     (if risky tensors n then Node (''NoInplace_'' @ op_type n) (ndomain n) (nname n) (ninput n) (noutput n) (nattr n) else n)"

text \<open>The copy of the graph that is handed to the planner.\<close>

definition planner_graph :: "graph \<Rightarrow> tensor_table \<Rightarrow> (string, elem_type) dict \<Rightarrow> string list \<Rightarrow> string list \<Rightarrow> graph" where
  "planner_graph g tensors etypes in_names out_names =
     Graph (map (rename_risky tensors) (gnode g))
       (map (\<lambda>vi. case dict_get tensors (vname vi) of None \<Rightarrow> vi
          | Some t \<Rightarrow> if tb_kind t = ''input'' then set_type tensors etypes vi else vi) (ginput g))
       (map (\<lambda>vi. case dict_get tensors (vname vi) of None \<Rightarrow> vi | Some t \<Rightarrow> set_type tensors etypes vi) (goutput g))
       (concat (map (\<lambda>n. map (\<lambda>out. set_type tensors etypes \<lparr>vname = out, elem_type_of = UNDEFINED, vshape = None\<rparr>)
          (filter (\<lambda>out. out \<noteq> '''' \<and> out \<notin> set out_names \<union> set in_names \<and> dict_get tensors out \<noteq> None \<and> dict_get etypes out \<noteq> None) (noutput n))) (gnode g)))
       (ginit g)"

definition plan_arena ::
    "(graph \<Rightarrow> planned res) option \<Rightarrow> graph \<Rightarrow> tensor_table \<Rightarrow> (string, elem_type) dict \<Rightarrow> string list \<Rightarrow> string list \<Rightarrow> bool \<Rightarrow>
     arena_plan option \<times> cost_note list" where
  "plan_arena planner g tensors etypes in_names out_names complete_graph =
     (if \<not> complete_graph then (None, [ArenaSubgraph])
      else if \<exists>(n, t) \<in> set tensors. tb_kind t \<noteq> ''weight'' \<and> no_upper_bound t then (None, [ArenaNoUpperBound])
      else case planner of None \<Rightarrow> (None, [PlannerUnavailable])
      | Some plan_activation_memory \<Rightarrow>
          (case plan_activation_memory (planner_graph g tensors etypes in_names out_names) of
             Inl e \<Rightarrow> (None, [PlannerFailed])
           | Inr p \<Rightarrow>
               if pl_unplanned p \<noteq> [] then (None, [PlannerLeft (length (pl_unplanned p))])
               else (case verify_plan g (pl_offsets p) (pl_arena p) tensors in_names out_names of
                   PlanOk \<Rightarrow> (Some \<lparr>ap_arena = pl_arena p, ap_naive = pl_naive p, ap_offsets = pl_offsets p, ap_verified = True\<rparr>, [])
                 | why \<Rightarrow> (None, [PlanDropped why]))))"

section \<open>Bounds and budgets\<close>

record cost_bounds =
  cb_tensors :: tensor_table
  cb_nodes :: "node_cost list"
  cb_weight_bytes :: int
  cb_peak_live :: bound
  cb_peak_activation :: bound
  cb_macs :: bound
  cb_mem_access :: bound
  cb_arena :: "arena_plan option"
  cb_unbounded :: "string list"
  cb_notes :: "cost_note list"
  cb_complete :: bool

text \<open>The code the analysis calls.\<close>

record outside =
  ox_propagate :: "graph \<Rightarrow> (string, spec_dim list) dict \<Rightarrow> interval_result"
  ox_infer :: "bool \<Rightarrow> graph \<Rightarrow> graph option"
  ox_declare :: "graph \<Rightarrow> (string, spec_dim list) dict \<Rightarrow> graph"
  ox_dtype :: "elem_type \<Rightarrow> (char \<times> int) option"
  ox_planner :: "(graph \<Rightarrow> planned res) option"

definition graph_out_names :: "graph \<Rightarrow> string list" where
  "graph_out_names g = remdups (map vname (goutput g))"

definition graph_in_names :: "graph \<Rightarrow> string list" where
  "graph_in_names g = remdups (filter (\<lambda>n. n \<notin> tname ` set (ginit g)) (map vname (ginput g)))"

definition weight_sum :: "tensor_table \<Rightarrow> string list \<Rightarrow> int res" where
  "weight_sum tensors inits =
     rbind (rmap (\<lambda>n. case dict_get tensors n of None \<Rightarrow> Inl (KeyError n) | Some t \<Rightarrow> Inr (blo (tb_bytes t))) inits) (\<lambda>vs. Inr (sum_list vs))"

definition widen :: "bool \<Rightarrow> bound \<Rightarrow> bound" where
  "widen complete_graph b = (if complete_graph then b else b\<lparr>bhi := None\<rparr>)"

definition pack_bounds ::
    "cost_note list \<Rightarrow> tensor_table \<times> string list \<Rightarrow> int \<Rightarrow> int option \<Rightarrow> int option \<Rightarrow> bool \<Rightarrow>
     node_cost list \<times> bound \<times> bound \<Rightarrow> arena_plan option \<times> cost_note list \<Rightarrow> cost_bounds" where
  "pack_bounds notes tu weight_bytes pl peak_hi complete_graph costs plan =
     (let peak_lo = (case pl of None \<Rightarrow> 0 | Some v \<Rightarrow> v) in
      \<lparr>cb_tensors = fst tu, cb_nodes = fst costs, cb_weight_bytes = weight_bytes,
       cb_peak_live = \<lparr>blo = peak_lo + weight_bytes, bhi = map_option (\<lambda>h. h + weight_bytes) peak_hi\<rparr>,
       cb_peak_activation = \<lparr>blo = peak_lo, bhi = peak_hi\<rparr>,
       cb_macs = widen complete_graph (fst (snd costs)), cb_mem_access = widen complete_graph (snd (snd costs)),
       cb_arena = fst plan, cb_unbounded = snd tu,
       cb_notes = notes @ (if snd tu = [] then [] else reason_notes (fst tu) (snd tu)) @ snd plan,
       cb_complete = complete_graph\<rparr>)"

definition bounds ::
    "outside \<Rightarrow> graph \<Rightarrow> (string, spec_dim) dict \<Rightarrow> (string, spec_dim list) dict \<Rightarrow> bool \<Rightarrow> cost_bounds res" where
  "bounds ox g dim_ranges input_shapes plan_it =
     (let sn = input_specs g dim_ranges input_shapes;
          inits = init_table g;
          r = ox_propagate ox g (fst sn);
          static = onnx_static_dims (ox_infer ox) (ox_declare ox) g input_shapes;
          etypes = elem_types (ox_infer ox) g;
          complete_graph = (\<not> (\<exists>n \<in> set (gnode g). has_subgraph n));
          notes = snd sn @ map (\<lambda>n. HasSubgraph (op_type n) (nname n)) (filter has_subgraph (gnode g));
          shp = shape_of inits r static;
          weights = dict_keys inits;
          out_names = graph_out_names g;
          in_names = graph_in_names g in
      rbind (rfold (add_tensor shp (bits (ox_dtype ox)) etypes (producer_table g)) ([], []) (tensor_calls g weights in_names out_names)) (\<lambda>tu.
      rbind (weight_sum (fst tu) weights) (\<lambda>weight_bytes.
      rbind (peak g (fst tu) weights in_names out_names (\<lambda>b. Some (blo b))) (\<lambda>pl.
      rbind (if complete_graph then peak g (fst tu) weights in_names out_names bhi else Inr None) (\<lambda>peak_hi.
      rbind (rfold (cost_step shp (fst tu)) ([], ZERO, ZERO) (gnode g)) (\<lambda>costs.
      Inr (pack_bounds notes tu weight_bytes pl peak_hi complete_graph costs
        (if plan_it then plan_arena (ox_planner ox) g (fst tu) etypes in_names out_names complete_graph else (None, [])))))))))"

datatype budget_status = Proved | Exceeds | Unknown

record budget_check =
  bc_metric :: string
  bc_limit :: int
  bc_bound :: bound
  bc_status :: budget_status

definition judge_budget :: "string \<Rightarrow> int option \<Rightarrow> bound \<Rightarrow> budget_check list" where
  "judge_budget metric limit b =
     (case limit of None \<Rightarrow> []
      | Some l \<Rightarrow>
          [\<lparr>bc_metric = metric, bc_limit = l, bc_bound = b,
            bc_status = (if (case bhi b of None \<Rightarrow> False | Some h \<Rightarrow> h \<le> l) then Proved else if blo b > l then Exceeds else Unknown)\<rparr>])"

definition biggest_activation :: "tensor_table \<Rightarrow> int" where
  "biggest_activation tensors =
     (case map (\<lambda>(n, t). blo (tb_bytes t)) (filter (\<lambda>(n, t). tb_kind t \<noteq> ''weight'') tensors) of [] \<Rightarrow> 0 | b # bs \<Rightarrow> foldl max b bs)"

record budget_verdict =
  bv_checks :: "budget_check list"
  bv_fits :: "bool option"
  bv_notes :: "cost_note list"

record limits =
  lim_memory :: "int option"
  lim_macs :: "int option"
  lim_arena :: "int option"
  lim_access :: "int option"

definition arena_bound :: "cost_bounds \<Rightarrow> bound" where
  "arena_bound cb = \<lparr>blo = biggest_activation (cb_tensors cb), bhi = map_option ap_arena (cb_arena cb)\<rparr>"

definition budget_checks :: "cost_bounds \<Rightarrow> limits \<Rightarrow> budget_check list" where
  "budget_checks cb l =
     judge_budget ''peak_live_bytes'' (lim_memory l) (cb_peak_live cb) @
     judge_budget ''arena_bytes'' (lim_arena l) (arena_bound cb) @
     judge_budget ''macs'' (lim_macs l) (cb_macs cb) @
     judge_budget ''mem_access_bytes'' (lim_access l) (cb_mem_access cb)"

definition fits_of :: "budget_check list \<Rightarrow> bool option" where
  "fits_of checks =
     (if \<exists>c \<in> set checks. bc_status c = Exceeds then Some False
      else if checks \<noteq> [] \<and> (\<forall>c \<in> set checks. bc_status c = Proved) then Some True
      else None)"

definition check_budget ::
    "outside \<Rightarrow> graph \<Rightarrow> (string, spec_dim) dict \<Rightarrow> (string, spec_dim list) dict \<Rightarrow> limits \<Rightarrow> budget_verdict res" where
  "check_budget ox g dim_ranges input_shapes l =
     rbind (bounds ox g dim_ranges input_shapes True) (\<lambda>cb.
       let checks = budget_checks cb l in
       Inr \<lparr>bv_checks = checks, bv_fits = fits_of checks,
            bv_notes = cb_notes cb @ (if lim_arena l \<noteq> None \<and> cb_arena cb = None then [NoVerifiedPlan] else [])\<rparr>)"

end
