(* ===== verification/Cost_Sound.thy ===== *)
theory Cost_Sound
  imports Cost_Bounds
begin

text \<open>
  Soundness of the bounds of \<^verbatim>\<open>onnxsim/shape_cost.py\<close>: for every run whose tensors have the shapes the analysis allows, the peak of the live activations,
  the multiply-accumulates and the bytes moved are inside the bounds, and a budget that is proved holds.
\<close>

section \<open>The table of tensors\<close>

definition entry_ok :: "(string \<Rightarrow> shape option res) \<Rightarrow> string \<Rightarrow> tensor_bound \<Rightarrow> bool" where
  "entry_ok shp n t \<longleftrightarrow>
     n \<noteq> '''' \<and> shp n = Inr (tb_shape t) \<and> numel_bound (tb_shape t) = Inr (tb_numel t) \<and> tb_bytes t = bytes_of (tb_numel t) (tb_bits t)"

lemma add_tensor_cases:
  assumes "add_tensor shp b et pr (tensors, ub) (n, k) = Inr st"
  obtains "n = '''' \<or> dict_get tensors n \<noteq> None" "st = (tensors, ub)"
  | t ub' where "n \<noteq> ''''" "dict_get tensors n = None" "st = (tensors @ [(n, t)], ub')" "entry_ok shp n t" "tb_kind t = k"
proof (cases "n = '''' \<or> dict_get tensors n \<noteq> None")
  case True
  then show ?thesis using assms that(1) by (simp add: add_tensor_def split: if_splits)
next
  case False
  then have new: "dict_set n t tensors = tensors @ [(n, t)]" for t by (simp add: dict_set_fresh map_of_eq_None_iff)
  obtain sh ne where s: "shp n = Inr sh" "numel_bound sh = Inr ne"
    using assms False by (auto simp: add_tensor_def Let_def res_simps)
  define t where "t = \<lparr>tb_name = n, tb_kind = k, tb_shape = sh, tb_bits = (case dict_get et n of None \<Rightarrow> None | Some t \<Rightarrow> b t), tb_numel = ne,
    tb_bytes = bytes_of ne (case dict_get et n of None \<Rightarrow> None | Some t \<Rightarrow> b t),
    tb_note = bound_note pr n sh (dict_get et n) (case dict_get et n of None \<Rightarrow> None | Some t \<Rightarrow> b t)\<rparr>"
  have "st = (tensors @ [(n, t)], snd st)" using assms False s by (auto simp: add_tensor_def new t_def Let_def)
  moreover have "entry_ok shp n t" "tb_kind t = k" using s False by (simp_all add: entry_ok_def t_def)
  ultimately show ?thesis using False that(2) by blast
qed

lemma table_ok:
  assumes "rfold (add_tensor shp b et pr) ([], []) calls = Inr (tensors, ub)"
  shows "distinct (dict_keys tensors)" and "set (dict_keys tensors) = fst ` set calls - {''''}"
    and "dict_get tensors n = Some t \<Longrightarrow> entry_ok shp n t"
proof -
  have "distinct (dict_keys (fst st)) \<and> set (dict_keys (fst st)) = fst ` set calls - {''''} \<and> (\<forall>(n, t) \<in> set (fst st). entry_ok shp n t)"
    if "rfold (add_tensor shp b et pr) ([], []) calls = Inr st" for st
    using that
  proof (induction calls arbitrary: st rule: rev_induct)
    case (snoc c calls)
    obtain tn u n k where prev: "rfold (add_tensor shp b et pr) ([], []) calls = Inr (tn, u)" and c: "c = (n, k)"
        and st: "add_tensor shp b et pr (tn, u) (n, k) = Inr st"
      using snoc.prems by (cases c) (auto simp: rfold_append res_simps)
    note ih = snoc.IH [OF prev]
    from st show ?case
    proof (cases rule: add_tensor_cases)
      case 1
      then have "n = '''' \<or> n \<in> set (dict_keys tn)" by (auto simp: map_of_eq_None_iff)
      then show ?thesis using ih 1(2) c by auto
    next
      case (2 t ub')
      then show ?thesis using ih c by (auto simp: map_of_eq_None_iff)
    qed
  qed auto
  note all = this [OF assms]
  show "distinct (dict_keys tensors)" "set (dict_keys tensors) = fst ` set calls - {''''}" using all by simp_all
  show "dict_get tensors n = Some t \<Longrightarrow> entry_ok shp n t" using all by (auto dest: map_of_SomeD)
qed

text \<open>The first calls are those for the weights, so the kind of an entry says whether it is one.\<close>

lemma table_kinds:
  assumes "rfold (add_tensor shp b et pr) ([], []) (map (\<lambda>n. (n, ''weight'')) ws @ calls) = Inr (tensors, ub)"
    and "\<forall>(n, k) \<in> set calls. k \<noteq> ''weight''"
  shows "set (activation_names tensors) = fst ` set calls - insert '''' (set ws)"
proof -
  obtain tw uw where w: "rfold (add_tensor shp b et pr) ([], []) (map (\<lambda>n. (n, ''weight'')) ws) = Inr (tw, uw)"
      and r: "rfold (add_tensor shp b et pr) (tw, uw) calls = Inr (tensors, ub)"
    using assms(1) by (auto simp: rfold_append res_simps)
  have w0: "\<forall>(n, t) \<in> set (fst st). tb_kind t = ''weight''"
    if "rfold (add_tensor shp b et pr) ([], []) (map (\<lambda>n. (n, ''weight'')) ws) = Inr st" for st
    using that
  proof (induction ws arbitrary: st rule: rev_induct)
    case (snoc n ws)
    obtain tn u where prev: "rfold (add_tensor shp b et pr) ([], []) (map (\<lambda>n. (n, ''weight'')) ws) = Inr (tn, u)"
        and st: "add_tensor shp b et pr (tn, u) (n, ''weight'') = Inr st"
      using snoc.prems by (auto simp: rfold_append res_simps)
    from st show ?case by (cases rule: add_tensor_cases) (use snoc.IH [OF prev] in auto)
  qed simp
  have kw: "set (dict_keys tw) = set ws - {''''}" using table_ok(2) [OF w] by (simp add: image_image)
  have "set ws - {''''} \<subseteq> set (dict_keys (fst st)) \<and> (\<forall>(n, t) \<in> set (fst st). tb_kind t = ''weight'' \<longleftrightarrow> n \<in> set ws)"
    if "rfold (add_tensor shp b et pr) (tw, uw) calls = Inr st" "\<forall>(n, k) \<in> set calls. k \<noteq> ''weight''" for st
    using that
  proof (induction calls arbitrary: st rule: rev_induct)
    case Nil
    then show ?case using w0 [OF w] kw by force
  next
    case (snoc c calls)
    obtain tn u n k where prev: "rfold (add_tensor shp b et pr) (tw, uw) calls = Inr (tn, u)" and c: "c = (n, k)"
        and st: "add_tensor shp b et pr (tn, u) (n, k) = Inr st"
      using snoc.prems(1) by (cases c) (auto simp: rfold_append res_simps)
    have k: "k \<noteq> ''weight''" "\<forall>(n, k) \<in> set calls. k \<noteq> ''weight''" using snoc.prems(2) c by auto
    from st show ?case
    proof (cases rule: add_tensor_cases)
      case 1
      then show ?thesis using snoc.IH [OF prev k(2)] by simp
    next
      case (2 t ub')
      then have "n \<notin> set ws" using snoc.IH [OF prev k(2)] by (auto simp: map_of_eq_None_iff)
      then show ?thesis using snoc.IH [OF prev k(2)] 2 k(1) by auto
    qed
  qed
  from this [OF r assms(2)] have kinds: "\<forall>(n, t) \<in> set tensors. tb_kind t = ''weight'' \<longleftrightarrow> n \<in> set ws" by simp
  have "set (activation_names tensors) = set (dict_keys tensors) - set ws"
    unfolding activation_names_def using kinds by force
  also have "set (dict_keys tensors) = set ws \<union> fst ` set calls - {''''}"
    using table_ok(2) [OF assms(1)] by (auto simp: image_Un image_image)
  finally show ?thesis by auto
qed

section \<open>Sizes\<close>

definition bounded_by :: "bound \<Rightarrow> int \<Rightarrow> bool" where
  "bounded_by b v \<longleftrightarrow> blo b \<le> v \<and> (\<forall>h. bhi b = Some h \<longrightarrow> v \<le> h)"

lemma bounded_by_simps [simp]:
  "bounded_by UNBOUNDED v \<longleftrightarrow> 0 \<le> v" "bounded_by ZERO v \<longleftrightarrow> v = 0"
  by (auto simp: bounded_by_def UNBOUNDED_def ZERO_def)

lemma bounded_by_dim: "inside d v \<Longrightarrow> bounded_by (dim_bound d) v"
  by (auto simp: bounded_by_def dim_bound_def inside_def split: option.splits)

lemma bounded_by_add: "bounded_by a x \<Longrightarrow> bounded_by b y \<Longrightarrow> bounded_by (bound_add a b) (x + y)"
  by (auto simp: bounded_by_def bound_add_def split: option.splits)

interpretation bound_op: sound_op bounded_by "\<lambda>a b. Inr (bound_add a b)" "(+)"
  by unfold_locales (simp add: bounded_by_add)


lemma floor_le_ceil: "0 < m \<Longrightarrow> a div m \<le> ceil_div a m"
  unfolding ceil_div_def by (metis div_minus_minus div_pos_neg_trivial linorder_not_le add.inverse_inverse neg_le_iff_le zdiv_zminus1_eq_if order.refl diff_le_eq le_add_same_cancel1 zero_le_one minus_diff_eq)

text \<open>The bytes of a tensor with these many elements of this width: whole bytes, rounded up.\<close>

definition stored_bytes :: "int \<Rightarrow> int \<Rightarrow> int" where
  "stored_bytes n b = ceil_div (n * b) 8"

lemma bytes_of_sound:
  assumes "bounded_by ne n" "0 \<le> b"
  shows "bounded_by (bytes_of ne (Some b)) (stored_bytes n b)"
proof -
  have "blo ne * b div 8 \<le> n * b div 8" using assms by (intro zdiv_mono1 mult_right_mono) (auto simp: bounded_by_def)
  then have "blo ne * b div 8 \<le> stored_bytes n b" using floor_le_ceil [of 8 "n * b"] by (simp add: stored_bytes_def)
  moreover have "stored_bytes n b \<le> ceil_div (h * b) 8" if "bhi ne = Some h" for h
    using assms that unfolding stored_bytes_def by (intro ceil_div_mono mult_right_mono) (auto simp: bounded_by_def)
  ultimately show ?thesis by (auto simp: bounded_by_def bytes_of_def)
qed

lemma numel_bound_sound:
  assumes "numel_bound sh = Inr ne" "\<forall>s. sh = Some s \<longrightarrow> inshape s ns" "\<forall>n \<in> set ns. 0 \<le> n"
  shows "bounded_by ne (prod_list ns)"
proof (cases sh)
  case None
  have "0 \<le> prod_list ns" using assms(3) by (induction ns) auto
  then show ?thesis using None assms(1) by (simp add: numel_bound_def)
next
  case (Some s)
  then have "inshape s ns" using assms(2) by simp
  from numel_sound [OF this] Some assms(1) obtain d where "ne = dim_bound d" "inside d (prod_list ns)"
    by (auto simp: numel_bound_def rgives_def res_simps dim_bound_def)
  then show ?thesis by (simp add: bounded_by_dim)
qed

text \<open>
  A run: the dimensions of every tensor are non-negative and inside the shape the analysis has for it, and a tensor of a known width takes
  its elements in whole bytes.
\<close>

definition run_ok :: "(string \<Rightarrow> shape option res) \<Rightarrow> tensor_table \<Rightarrow> (string \<Rightarrow> int list) \<Rightarrow> (string \<Rightarrow> int) \<Rightarrow> bool" where
  "run_ok shp tensors dims sz \<longleftrightarrow>
     (\<forall>n s. shp n = Inr (Some s) \<longrightarrow> inshape s (dims n)) \<and> (\<forall>n. \<forall>d \<in> set (dims n). 0 \<le> d) \<and> (\<forall>n. 0 \<le> sz n) \<and>
     (\<forall>n t b. dict_get tensors n = Some t \<longrightarrow> tb_bits t = Some b \<longrightarrow> 0 \<le> b \<and> sz n = stored_bytes (prod_list (dims n)) b)"

lemma size_bounded:
  assumes run: "run_ok shp tensors dims sz" and t: "dict_get tensors n = Some t" "entry_ok shp n t"
  shows "bounded_by (tb_bytes t) (sz n)"
proof (cases "tb_bits t")
  case None
  then show ?thesis using run t(2) by (simp add: entry_ok_def bytes_of_def run_ok_def)
next
  case (Some b)
  have "bounded_by (tb_numel t) (prod_list (dims n))"
    by (rule numel_bound_sound [of "tb_shape t"]) (use run t(2) in \<open>auto simp: entry_ok_def run_ok_def\<close>)
  then show ?thesis using bytes_of_sound [of "tb_numel t" "prod_list (dims n)" b] run t Some by (auto simp: entry_ok_def run_ok_def)
qed

section \<open>Sums of doubles\<close>

lemma round53_small [simp]: "v < 2 ^ 53 \<Longrightarrow> round53 v = v"
  by (simp add: round53_def)

definition pick_sum :: "tensor_table \<Rightarrow> (bound \<Rightarrow> int option) \<Rightarrow> string list \<Rightarrow> double" where
  "pick_sum tensors pick live =
     foldl (\<lambda>acc n. case (acc, dict_get tensors n) of (Some x, Some t) \<Rightarrow> map_option (\<lambda>v. x + v) (pick (tb_bytes t)) | _ \<Rightarrow> None) (Some 0) live"

lemma keys_get: "n \<in> set (dict_keys d) \<Longrightarrow> \<exists>t. dict_get d n = Some t"
  by (metis map_of_eq_None_iff not_None_eq list.set_map)

text \<open>A total below $2^{53}$ is exact in whatever order it is summed.\<close>

lemma live_total_exact:
  assumes "set live \<subseteq> set (dict_keys tensors)"
    and "\<And>n t v. n \<in> set live \<Longrightarrow> dict_get tensors n = Some t \<Longrightarrow> pick (tb_bytes t) = Some v \<Longrightarrow> 0 \<le> v \<and> v \<le> cap n"
    and "\<And>n. n \<in> set live \<Longrightarrow> 0 \<le> cap n" "(\<Sum>n\<leftarrow>live. cap n) < 2 ^ 53"
  shows "live_total tensors pick live = Inr (pick_sum tensors pick live)"
    and "pick_sum tensors pick live = Some v \<Longrightarrow> 0 \<le> v \<and> v \<le> (\<Sum>n\<leftarrow>live. cap n)"
  using assms
proof (induction live arbitrary: v rule: rev_induct)
  case Nil
  { case 1 show ?case by (simp add: live_total_def pick_sum_def) }
  { case 2 then show ?case by (simp add: pick_sum_def) }
next
  case (snoc n live)
  have cap: "0 \<le> cap n" "0 \<le> (\<Sum>n\<leftarrow>live. cap n)"
    if c: "\<And>m. m \<in> set (live @ [n]) \<Longrightarrow> 0 \<le> cap m"
    using c [of n] by (simp, intro sum_list_nonneg) (use c in auto)
  { case 1
    obtain t where t: "dict_get tensors n = Some t" using 1(1) keys_get [of n tensors] by auto
    have s: "(\<Sum>n\<leftarrow>live. cap n) < 2 ^ 53" using 1(4) cap [OF 1(3)] by simp
    have ih: "live_total tensors pick live = Inr (pick_sum tensors pick live)"
      by (rule snoc.IH(1)) (use 1 s in auto)
    have ih2: "0 \<le> w \<and> w \<le> (\<Sum>n\<leftarrow>live. cap n)" if "pick_sum tensors pick live = Some w" for w
      by (rule snoc.IH(2) [OF that]) (use 1 s in auto)
    have v: "0 \<le> v \<and> v \<le> cap n" if "pick (tb_bytes t) = Some v" for v using 1(2) [of n t v] t that by simp
    show ?case
      using t ih ih2 v 1(4) cap [OF 1(3)]
      by (fastforce simp: live_total_def pick_sum_def rfold_append pv_def float_of_def float_add_def split: option.splits) }
  { case 2
    obtain t where t: "dict_get tensors n = Some t" using 2(2) keys_get [of n tensors] by auto
    have s: "(\<Sum>n\<leftarrow>live. cap n) < 2 ^ 53" using 2(5) cap [OF 2(4)] by simp
    have ih2: "0 \<le> w \<and> w \<le> (\<Sum>n\<leftarrow>live. cap n)" if "pick_sum tensors pick live = Some w" for w
      by (rule snoc.IH(2) [OF that]) (use 2 s in auto)
    have v: "0 \<le> v \<and> v \<le> cap n" if "pick (tb_bytes t) = Some v" for v using 2(3) [of n t v] t that by simp
    show ?case using 2(1) t ih2 v by (fastforce simp: pick_sum_def split: option.splits) }
qed

lemma pick_sum_le:
  assumes "pick_sum tensors pick live = Some v"
  shows "(\<And>n t w. n \<in> set live \<Longrightarrow> dict_get tensors n = Some t \<Longrightarrow> pick (tb_bytes t) = Some w \<Longrightarrow> sz n \<le> w) \<Longrightarrow> (\<Sum>n\<leftarrow>live. sz n) \<le> v"
    and "(\<And>n t w. n \<in> set live \<Longrightarrow> dict_get tensors n = Some t \<Longrightarrow> pick (tb_bytes t) = Some w \<Longrightarrow> w \<le> sz n) \<Longrightarrow> v \<le> (\<Sum>n\<leftarrow>live. sz n)"
  using assms
proof (induction live arbitrary: v rule: rev_induct)
  case Nil
  { case 1 then show ?case by (simp add: pick_sum_def) }
  { case 2 then show ?case by (simp add: pick_sum_def) }
next
  case (snoc n live)
  { case 1
    then obtain w t u where "pick_sum tensors pick live = Some w" "dict_get tensors n = Some t" "pick (tb_bytes t) = Some u" "v = w + u"
      by (auto simp: pick_sum_def split: option.splits)
    then show ?case using snoc.IH(1) [of w] 1(1) [of n t u] 1(1) by fastforce }
  { case 2
    then obtain w t u where "pick_sum tensors pick live = Some w" "dict_get tensors n = Some t" "pick (tb_bytes t) = Some u" "v = w + u"
      by (auto simp: pick_sum_def split: option.splits)
    then show ?case using snoc.IH(2) [of w] 2(1) [of n t u] 2(1) by fastforce }
qed

section \<open>What is live\<close>

text \<open>The activations whose life, from their first write to their last read, contains a step; step -1 is the start.\<close>

definition live_at :: "graph \<Rightarrow> tensor_table \<Rightarrow> string list \<Rightarrow> string list \<Rightarrow> int \<Rightarrow> string set" where
  "live_at g tensors in_names out_names i =
     {n \<in> set (activation_names tensors). fst (span_of g in_names out_names n) \<le> i \<and> i \<le> snd (span_of g in_names out_names n)}"

definition run_peak :: "graph \<Rightarrow> tensor_table \<Rightarrow> string list \<Rightarrow> string list \<Rightarrow> (string \<Rightarrow> int) \<Rightarrow> int" where
  "run_peak g tensors in_names out_names sz =
     Max ((\<lambda>i. \<Sum>n \<in> live_at g tensors in_names out_names i. sz n) ` {- 1..<int (length (gnode g))})"

lemma last_use_eq: "last_use g out_names = plan_last g out_names"
  by (simp add: last_use_def plan_last_def)

text \<open>The lists of live tensors that the loop of \<^verbatim>\<open>peak\<close> sums, one per node.\<close>

fun live_lists :: "(string, int) dict \<Rightarrow> string list \<Rightarrow> string list \<Rightarrow> (nat \<times> node) list \<Rightarrow> string list list" where
  "live_lists lastd ws live [] = []"
| "live_lists lastd ws live ((i, n) # ns) =
     add_live ws live n # live_lists lastd ws (drop_dead lastd i (add_live ws live n)) ns"

lemma peak_loop_lists:
  "peak_loop tot lastd ws live best ns = rbind (rmap tot (live_lists lastd ws live ns)) (\<lambda>vs. Inr (foldl float_max best vs))"
proof (induction ns arbitrary: live best)
  case (Cons x ns)
  obtain i n where x: "x = (i, n)" by (cases x)
  show ?case
    by (cases "tot (add_live ws live n)"; cases "rmap tot (live_lists lastd ws (drop_dead lastd i (add_live ws live n)) ns)")
      (simp_all add: x Cons.IH Let_def)
qed simp

lemma add_live_set:
  "distinct live \<Longrightarrow> distinct (add_live ws live n)"
  "set (add_live ws live n) = set live \<union> (set (noutput n) - insert '''' (set ws))"
proof -
  have "(distinct live \<longrightarrow> distinct (foldl (\<lambda>live out. if out \<noteq> '''' \<and> out \<notin> set ws then (if out \<in> set live then live else live @ [out]) else live) live xs)) \<and>
      set (foldl (\<lambda>live out. if out \<noteq> '''' \<and> out \<notin> set ws then (if out \<in> set live then live else live @ [out]) else live) live xs) =
        set live \<union> (set xs - insert '''' (set ws))" for xs
    by (induction xs rule: rev_induct) auto
  then show "distinct live \<Longrightarrow> distinct (add_live ws live n)"
    "set (add_live ws live n) = set live \<union> (set (noutput n) - insert '''' (set ws))"
    by (simp_all add: add_live_def)
qed

lemma drop_dead_set [simp]:
  "set (drop_dead lastd i live) = {n \<in> set live. dict_get lastd n \<noteq> Some (int i)}" "distinct live \<Longrightarrow> distinct (drop_dead lastd i live)"
  by (auto simp: drop_dead_def)

text \<open>A table whose activations are what the graph reads from outside, writes and returns.\<close>

definition table_of :: "graph \<Rightarrow> tensor_table \<Rightarrow> string list \<Rightarrow> string list \<Rightarrow> string list \<Rightarrow> bool" where
  "table_of g tensors ws in_names out_names \<longleftrightarrow>
     set (activation_names tensors) = set in_names \<union> (\<Union>n \<in> set (gnode g). set (noutput n)) \<union> set out_names - insert '''' (set ws)"

lemma written_table:
  assumes "table_of g tensors ws in_names out_names" "n \<in> set (gnode g)"
  shows "set (written tensors n) = set (noutput n) - insert '''' (set ws)"
  using assms by (auto simp: table_of_def written_def)

lemma activations_born:
  assumes "table_of g tensors ws in_names out_names" "well_ordered g tensors in_names out_names"
  shows "set (activation_names tensors) = born g tensors in_names (length (gnode g))"
proof
  show "born g tensors in_names (length (gnode g)) \<subseteq> set (activation_names tensors)" using born_activation [OF assms(2)] by blast
  show "set (activation_names tensors) \<subseteq> born g tensors in_names (length (gnode g))"
  proof
    fix x assume x: "x \<in> set (activation_names tensors)"
    then consider "x \<in> set in_names" | n where "n \<in> set (gnode g)" "x \<in> set (noutput n)" | "x \<in> set out_names"
      using assms(1) by (auto simp: table_of_def)
    then show "x \<in> born g tensors in_names (length (gnode g))"
    proof cases
      case 3
      then show ?thesis using assms(2) x unfolding well_ordered_def born_def by auto
    qed (use x in \<open>auto simp: born_def written_activation\<close>)
  qed
qed

lemma born_where:
  assumes "n \<notin> set in_names" "n \<in> born g tensors in_names (length (gnode g))"
  obtains j where "j < length (gnode g)" "n \<in> set (written tensors (gnode g ! j))"
proof -
  obtain m where "m \<in> set (gnode g)" "n \<in> set (written tensors m)" using assms by (auto simp: born_def)
  then show ?thesis using that by (metis in_set_conv_nth)
qed

lemma live_at_born:
  assumes t: "table_of g tensors ws in_names out_names" and w: "well_ordered g tensors in_names out_names" and k: "k < length (gnode g)"
  shows "live_at g tensors in_names out_names (int k) =
    {n \<in> born g tensors in_names (Suc k). int k \<le> snd (span_of g in_names out_names n)}"
proof -
  have "fst (span_of g in_names out_names n) \<le> int k \<longleftrightarrow> n \<in> born g tensors in_names (Suc k)"
    if born: "n \<in> born g tensors in_names (length (gnode g))" for n
  proof
    show "n \<in> born g tensors in_names (Suc k) \<Longrightarrow> fst (span_of g in_names out_names n) \<le> int k"
      using born_first [OF w, of "Suc k" n] k by simp
    assume le: "fst (span_of g in_names out_names n) \<le> int k"
    show "n \<in> born g tensors in_names (Suc k)"
    proof (cases "n \<in> set in_names")
      case False
      then obtain j where j: "j < length (gnode g)" "n \<in> set (written tensors (gnode g ! j))" using born by (rule born_where)
      have "j \<le> k" using span_first(2) [OF w j] le by simp
      then show ?thesis using born_Suc [OF j(1)] j(2) born_mono [of "Suc j" "Suc k" g tensors in_names] by auto
    qed (simp add: born_def)
  qed
  then show ?thesis
    using activations_born [OF t w] born_mono [of "Suc k" "length (gnode g)" g tensors in_names] k by (auto simp: live_at_def)
qed

lemma live_at_start:
  assumes t: "table_of g tensors ws in_names out_names" and w: "well_ordered g tensors in_names out_names"
  shows "live_at g tensors in_names out_names (- 1) = set in_names"
proof -
  have ins: "n \<in> set (activation_names tensors)" "n \<noteq> ''''" if "n \<in> set in_names" for n using w that by (auto simp: well_ordered_def)
  have "fst (span_of g in_names out_names n) \<le> - 1 \<longleftrightarrow> n \<in> set in_names" if act: "n \<in> set (activation_names tensors)" for n
  proof (cases "n \<in> set in_names")
    case False
    then obtain j where "j < length (gnode g)" "n \<in> set (written tensors (gnode g ! j))"
      by (rule born_where) (use act activations_born [OF t w] in blast)
    then show ?thesis using span_first(2) [OF w] False by simp
  qed (simp add: span_first(1) [OF w])
  then show ?thesis using ins input_last [of _ g in_names out_names] by (force simp: live_at_def)
qed

text \<open>The loop visits exactly these sets.\<close>

lemma live_lists_at:
  assumes t: "table_of g tensors ws in_names out_names" and w: "well_ordered g tensors in_names out_names"
  shows "k \<le> length (gnode g) \<Longrightarrow> distinct live \<Longrightarrow> set live = {n \<in> born g tensors in_names k. int k \<le> snd (span_of g in_names out_names n)} \<Longrightarrow>
    list_all2 (\<lambda>l i. distinct l \<and> set l = live_at g tensors in_names out_names (int i))
      (live_lists (last_use g out_names) ws live (enum_from k (drop k (gnode g)))) [k..<length (gnode g)]"
proof (induction "length (gnode g) - k" arbitrary: k live)
  case 0
  then show ?case by simp
next
  case (Suc d)
  have k: "k < length (gnode g)" using Suc.hyps(2) by simp
  let ?n = "gnode g ! k" and ?l = "add_live ws live (gnode g ! k)"
  have ns: "drop k (gnode g) = ?n # drop (Suc k) (gnode g)" using k by (simp add: Cons_nth_drop_Suc)
  have wr: "set (noutput ?n) - insert '''' (set ws) = set (written tensors ?n)" using written_table [OF t, of ?n] k by simp
  have last: "int k \<le> snd (span_of g in_names out_names n)" if "n \<in> set (written tensors ?n)" for n
    by (rule written_last [OF w k that])
  have l: "set ?l = {n \<in> born g tensors in_names (Suc k). int k \<le> snd (span_of g in_names out_names n)}"
    unfolding add_live_set(2) wr Suc.prems(3) born_Suc [OF k] using last by auto
  have dead: "int k \<le> snd (span_of g in_names out_names n) \<and> dict_get (last_use g out_names) n \<noteq> Some (int k) \<longleftrightarrow>
      int (Suc k) \<le> snd (span_of g in_names out_names n)" for n
    using k by (auto simp: last_use_eq span_of_def get_default_def split: option.splits)
  have "list_all2 (\<lambda>l i. distinct l \<and> set l = live_at g tensors in_names out_names (int i))
      (live_lists (last_use g out_names) ws (drop_dead (last_use g out_names) k ?l) (enum_from (Suc k) (drop (Suc k) (gnode g)))) [Suc k..<length (gnode g)]"
  proof (rule Suc.hyps(1))
    show "set (drop_dead (last_use g out_names) k ?l) = {n \<in> born g tensors in_names (Suc k). int (Suc k) \<le> snd (span_of g in_names out_names n)}"
      unfolding drop_dead_set(1) l using dead by blast
  qed (use Suc.hyps(2) Suc.prems(2) k add_live_set(1) in auto)
  then show ?case
    unfolding ns using k l live_at_born [OF t w k] add_live_set(1) [OF Suc.prems(2)] by (simp add: upt_rec [of k])
qed

text \<open>The peak the code computes, over the sets of live tensors.\<close>

definition cap_of :: "tensor_table \<Rightarrow> string \<Rightarrow> int" where
  "cap_of tensors n = (case dict_get tensors n of None \<Rightarrow> 0 | Some t \<Rightarrow> (case bhi (tb_bytes t) of None \<Rightarrow> blo (tb_bytes t) | Some h \<Rightarrow> h))"

lemma float_max_fold:
  assumes "foldl float_max best vs = Some v"
  shows "\<forall>x \<in> set (best # vs). \<exists>w. x = Some w \<and> w \<le> v" and "Some v \<in> set (best # vs)"
proof -
  have "(\<forall>x \<in> set (best # vs). \<exists>w. x = Some w \<and> w \<le> v) \<and> Some v \<in> set (best # vs)" using assms
  proof (induction vs arbitrary: v rule: rev_induct)
    case (snoc x vs)
    have some: "float_max a b = Some v \<longleftrightarrow> (\<exists>u w. a = Some u \<and> b = Some w \<and> v = max u w)" for a b
      by (auto simp: float_max_def split: option.splits)
    obtain u w where u: "foldl float_max best vs = Some u" "x = Some w" "v = max u w" using snoc.prems by (auto simp: some)
    show ?case using snoc.IH [OF u(1)] u(2,3) by (fastforce simp: max_def)
  qed simp
  then show "\<forall>x \<in> set (best # vs). \<exists>w. x = Some w \<and> w \<le> v" "Some v \<in> set (best # vs)" by simp_all
qed

lemma peak_steps:
  assumes t: "table_of g tensors ws in_names out_names" and w: "well_ordered g tensors in_names out_names" and d: "distinct in_names"
    and tots: "\<forall>l i. distinct l \<longrightarrow> set l = live_at g tensors in_names out_names i \<longrightarrow> live_total tensors pick l = Inr (pick_sum tensors pick l)"
    and pk: "peak g tensors ws in_names out_names pick = Inr (Some v)"
  shows "\<And>i. i \<in> {- 1..<int (length (gnode g))} \<Longrightarrow> \<exists>l u. distinct l \<and> set l = live_at g tensors in_names out_names i \<and> pick_sum tensors pick l = Some u \<and> u \<le> v"
    and "\<exists>i \<in> {- 1..<int (length (gnode g))}. \<exists>l. distinct l \<and> set l = live_at g tensors in_names out_names i \<and> pick_sum tensors pick l = Some v"
proof -
  let ?ls = "live_lists (last_use g out_names) ws in_names (enumerate_py (gnode g))"
  note tot = tots [rule_format]
  have "0 \<le> snd (span_of g in_names out_names n)" if "n \<in> set in_names" for n
    using that w by (intro input_last) (auto simp: well_ordered_def)
  then have set0: "set in_names = {n \<in> born g tensors in_names 0. int 0 \<le> snd (span_of g in_names out_names n)}" by (auto simp: born_def)
  have ls: "list_all2 (\<lambda>l i. distinct l \<and> set l = live_at g tensors in_names out_names (int i)) ?ls [0..<length (gnode g)]"
    using live_lists_at [OF t w _ d set0] by simp
  have start: "set in_names = live_at g tensors in_names out_names (- 1)" by (rule live_at_start [OF t w, symmetric])
  have each: "live_total tensors pick l = Inr (pick_sum tensors pick l)" if "l \<in> set ?ls" for l
    using ls that tot by (auto simp: list_all2_conv_all_nth in_set_conv_nth)
  have res: "foldl float_max (pick_sum tensors pick in_names) (map (pick_sum tensors pick) ?ls) = Some v"
    using pk by (simp add: peak_def tot [OF d start] peak_loop_lists rmap_Inr [OF each])
  have step: "\<exists>l \<in> set (in_names # ?ls). distinct l \<and> set l = live_at g tensors in_names out_names i" if "i \<in> {- 1..<int (length (gnode g))}" for i
  proof (cases "i = - 1")
    case False
    then have "nat i < length (gnode g)" "int (nat i) = i" using that by auto
    then show ?thesis
      using list_all2_nthD2 [OF ls, of "nat i"] list_all2_lengthD [OF ls] by (intro bexI [of _ "?ls ! nat i"]) auto
  qed (use d start in auto)
  show "\<exists>l u. distinct l \<and> set l = live_at g tensors in_names out_names i \<and> pick_sum tensors pick l = Some u \<and> u \<le> v"
    if "i \<in> {- 1..<int (length (gnode g))}" for i
    using step [OF that] float_max_fold(1) [OF res] by (metis image_eqI list.set_map list.simps(9))
  have "\<exists>i \<in> {- 1..<int (length (gnode g))}. distinct l \<and> set l = live_at g tensors in_names out_names i" if mem: "l \<in> set (in_names # ?ls)" for l
  proof (cases "l = in_names")
    case False
    then obtain j where "j < length (gnode g)" "?ls ! j = l" using mem list_all2_lengthD [OF ls] by (auto simp: in_set_conv_nth)
    then show ?thesis using ls by (intro bexI [of _ "int j"]) (auto simp: list_all2_conv_all_nth)
  qed (use d start in force)
  moreover obtain l where "l \<in> set (in_names # ?ls)" "pick_sum tensors pick l = Some v"
    using float_max_fold(2) [OF res] by (metis (no_types, lifting) image_iff list.set_map list.simps(9))
  ultimately show "\<exists>i \<in> {- 1..<int (length (gnode g))}. \<exists>l. distinct l \<and> set l = live_at g tensors in_names out_names i \<and> pick_sum tensors pick l = Some v"
    by blast
qed

lemma finite_live [simp]: "finite (live_at g tensors in_names out_names i)"
  by (simp add: live_at_def)

lemma live_at_activations: "live_at g tensors in_names out_names i \<subseteq> set (activation_names tensors)"
  by (auto simp: live_at_def)

lemma activation_entry: "n \<in> set (activation_names tensors) \<Longrightarrow> n \<in> set (dict_keys tensors)"
  by (auto simp: activation_names_def)

lemma run_peak_ge:
  "i \<in> {- 1..<int (length (gnode g))} \<Longrightarrow> (\<Sum>n \<in> live_at g tensors in_names out_names i. sz n) \<le> run_peak g tensors in_names out_names sz"
  unfolding run_peak_def by (rule Max_ge) auto

lemma run_peak_at: "\<exists>i \<in> {- 1..<int (length (gnode g))}. run_peak g tensors in_names out_names sz = (\<Sum>n \<in> live_at g tensors in_names out_names i. sz n)"
proof -
  have "run_peak g tensors in_names out_names sz \<in> (\<lambda>i. \<Sum>n \<in> live_at g tensors in_names out_names i. sz n) ` {- 1..<int (length (gnode g))}"
    unfolding run_peak_def by (rule Max_in) auto
  then show ?thesis by auto
qed

text \<open>A table with sizes inside its bounds, small enough for doubles to add exactly.\<close>

definition small_table :: "tensor_table \<Rightarrow> (string \<Rightarrow> int) \<Rightarrow> bool" where
  "small_table tensors sz \<longleftrightarrow>
     distinct (dict_keys tensors) \<and>
     (\<forall>n t. dict_get tensors n = Some t \<longrightarrow> 0 \<le> blo (tb_bytes t) \<and> bounded_by (tb_bytes t) (sz n)) \<and>
     (\<Sum>n\<leftarrow>activation_names tensors. cap_of tensors n) < 2 ^ 53"

lemma live_total_small:
  assumes s: "small_table tensors sz" and l: "distinct l" "set l = live_at g tensors in_names out_names i"
    and pick: "pick = bhi \<or> pick = (\<lambda>b. Some (blo b))"
  shows "live_total tensors pick l = Inr (pick_sum tensors pick l)"
proof -
  have sub: "set l \<subseteq> set (activation_names tensors)" using l(2) live_at_activations by simp
  have b: "0 \<le> blo (tb_bytes t) \<and> blo (tb_bytes t) \<le> sz n \<and> (\<forall>h. bhi (tb_bytes t) = Some h \<longrightarrow> sz n \<le> h)" if "dict_get tensors n = Some t" for n t
    using s that unfolding small_table_def bounded_by_def by blast
  have cap: "0 \<le> cap_of tensors n" for n
  proof (cases "dict_get tensors n")
    case (Some t)
    then show ?thesis using b [OF Some] by (auto simp: cap_of_def split: option.splits)
  qed (simp add: cap_of_def)
  have "distinct (activation_names tensors)" using s by (simp add: small_table_def activation_names_distinct)
  then have "(\<Sum>n\<leftarrow>l. cap_of tensors n) \<le> (\<Sum>n\<leftarrow>activation_names tensors. cap_of tensors n)"
    using l(1) sub cap by (simp add: sum_list_distinct_conv_sum_set sum_mono2)
  then have small: "(\<Sum>n\<leftarrow>l. cap_of tensors n) < 2 ^ 53" using s by (simp add: small_table_def)
  show ?thesis
  proof (rule live_total_exact(1) [where cap = "cap_of tensors"])
    show "set l \<subseteq> set (dict_keys tensors)" using sub activation_entry by blast
    show "0 \<le> v \<and> v \<le> cap_of tensors n" if "dict_get tensors n = Some t" "pick (tb_bytes t) = Some v" for n t v
      using pick b [OF that(1)] that by (fastforce simp: cap_of_def split: option.splits)
  qed (use cap small in simp_all)
qed

lemma peak_bounded:
  assumes t: "table_of g tensors ws in_names out_names" and w: "well_ordered g tensors in_names out_names" and d: "distinct in_names"
    and s: "small_table tensors sz"
  shows "peak g tensors ws in_names out_names (\<lambda>b. Some (blo b)) = Inr (Some v) \<Longrightarrow> v \<le> run_peak g tensors in_names out_names sz"
    and "peak g tensors ws in_names out_names bhi = Inr (Some v) \<Longrightarrow> run_peak g tensors in_names out_names sz \<le> v"
proof -
  have b: "blo (tb_bytes t) \<le> sz n \<and> (\<forall>h. bhi (tb_bytes t) = Some h \<longrightarrow> sz n \<le> h)" if "dict_get tensors n = Some t" for n t
    using s that unfolding small_table_def bounded_by_def by blast
  have tot: "\<forall>l i. distinct l \<longrightarrow> set l = live_at g tensors in_names out_names i \<longrightarrow> live_total tensors pick l = Inr (pick_sum tensors pick l)"
    if "pick = bhi \<or> pick = (\<lambda>b. Some (blo b))" for pick
    using live_total_small [OF s _ _ that] by blast
  have sum: "(\<Sum>n\<leftarrow>l. sz n) = (\<Sum>n \<in> live_at g tensors in_names out_names i. sz n)"
    if "distinct l" "set l = live_at g tensors in_names out_names i" for l i
    using that by (simp add: sum_list_distinct_conv_sum_set)
  show "v \<le> run_peak g tensors in_names out_names sz" if pk: "peak g tensors ws in_names out_names (\<lambda>b. Some (blo b)) = Inr (Some v)"
  proof -
    obtain i l where i: "i \<in> {- 1..<int (length (gnode g))}" and l: "distinct l" "set l = live_at g tensors in_names out_names i"
        and v: "pick_sum tensors (\<lambda>b. Some (blo b)) l = Some v"
      using peak_steps(2) [OF t w d tot [OF disjI2 [OF refl]] pk] by blast
    have "v \<le> (\<Sum>n\<leftarrow>l. sz n)" by (rule pick_sum_le(2) [OF v]) (use b in auto)
    then show ?thesis using run_peak_ge [OF i, where tensors = tensors and in_names = in_names and out_names = out_names and sz = sz] sum [OF l] by simp
  qed
  show "run_peak g tensors in_names out_names sz \<le> v" if pk: "peak g tensors ws in_names out_names bhi = Inr (Some v)"
  proof -
    obtain i where i: "i \<in> {- 1..<int (length (gnode g))}" and
        at: "run_peak g tensors in_names out_names sz = (\<Sum>n \<in> live_at g tensors in_names out_names i. sz n)"
      using run_peak_at by blast
    obtain l u where l: "distinct l" "set l = live_at g tensors in_names out_names i" and u: "pick_sum tensors bhi l = Some u" "u \<le> v"
      using peak_steps(1) [OF t w d tot [OF disjI1 [OF refl]] pk i] by blast
    have "(\<Sum>n\<leftarrow>l. sz n) \<le> u" by (rule pick_sum_le(1) [OF u(1)]) (use b in auto)
    then show ?thesis using u(2) sum [OF l] at by simp
  qed
qed

section \<open>Multiply-accumulates of a run\<close>

text \<open>The same counts on the dimensions of a run; a node whose ranks do not fit an operator counts nothing.\<close>

definition run_operand :: "(string \<Rightarrow> int list) \<Rightarrow> node \<Rightarrow> nat \<Rightarrow> int list" where
  "run_operand dims n i = (if i < length (ninput n) \<and> ninput n ! i \<noteq> '''' then dims (ninput n ! i) else [])"

definition attention_macs :: "node \<Rightarrow> int list \<Rightarrow> int list \<Rightarrow> int list \<Rightarrow> int" where
  "attention_macs n q k v =
     (if length q = 4 \<and> length k = 4 \<and> length v = 4 then q ! 0 * q ! 1 * q ! 2 * k ! 2 * (q ! 3 + v ! 3)
      else if length q = 3 \<and> length k = 3 \<and> length v = 3 \<and> 0 < attr_int n ''q_num_heads'' 0 \<and> 0 < attr_int n ''kv_num_heads'' 0 then
        q ! 0 * attr_int n ''q_num_heads'' 0 * q ! 1 * k ! 1 * (k ! 2 div attr_int n ''kv_num_heads'' 0 + v ! 2 div attr_int n ''kv_num_heads'' 0)
      else 0)"

definition run_macs :: "(string \<Rightarrow> int list) \<Rightarrow> node \<Rightarrow> int" where
  "run_macs dims n =
     (let x = run_operand dims n; out = dims (first_or_empty (noutput n)); t = op_type n in
      if t \<notin> set MAC_OPS \<or> \<not> is_std_domain n then 0
      else if t \<in> {''Conv'', ''ConvInteger'', ''QLinearConv''} then
        (let w = x (if t = ''QLinearConv'' then 3 else 1) in if length w < 2 then 0 else prod_list out * w ! 1 * prod_list (drop 2 w))
      else if t = ''ConvTranspose'' then (if length (x 1) < 2 then 0 else prod_list (x 0) * x 1 ! 1 * prod_list (drop 2 (x 1)))
      else if t = ''Gemm'' then
        (if length (x 0) \<noteq> 2 \<or> length (x 1) \<noteq> 2 then 0
         else (if attr_int n ''transA'' 0 \<noteq> 0 then x 0 ! 1 else x 0 ! 0) * (if attr_int n ''transB'' 0 \<noteq> 0 then x 1 ! 0 else x 1 ! 1) *
           (if attr_int n ''transA'' 0 \<noteq> 0 then x 0 ! 0 else x 0 ! 1))
      else if t \<in> {''MatMul'', ''MatMulInteger'', ''QLinearMatMul''} then (if x 0 = [] then 0 else prod_list out * last (x 0))
      else attention_macs n (x 0) (x 1) (x 2))"

lemma prod_dims_numel: "prod_dims = numel"
  by (simp add: fun_eq_iff prod_dims_def numel_def)

lemma rgives_dim: "rgives r (\<lambda>d. inside d v) \<Longrightarrow> rgives (rbind r (\<lambda>m. Inr (dim_bound m))) (\<lambda>b. bounded_by b v)"
  by (rule rgives_bind [where P = "\<lambda>d. inside d v"]) (simp_all add: bounded_by_dim)

lemma prod3_sound:
  assumes "inshape a xs" "inside d y" "inshape b zs"
  shows "rgives (prod3 a d b) (\<lambda>m. bounded_by m (prod_list xs * y * prod_list zs))"
  unfolding prod3_def prod_dims_numel
  by (rule rgives_bind [OF numel_sound [OF assms(1)]], rule rgives_bind [OF dim_mul_sound [OF _ assms(2)]], assumption,
      rule rgives_bind [OF numel_sound [OF assms(3)]], rule rgives_dim, rule dim_mul_sound)

lemma attention_total_sound:
  assumes "inside batch b" "inside heads h" "inside sq s" "inside skv k" "inside dq p" "inside dv q"
  shows "rgives (attention_total batch heads sq skv dq dv) (\<lambda>m. bounded_by m (b * h * s * k * (p + q)))"
proof -
  have "rgives (attention_total batch heads sq skv dq dv) (\<lambda>m. bounded_by m (b * h * s * k * p + b * h * s * k * q))"
    unfolding attention_total_def
    by (rule rgives_bind [OF dim_mul_sound [OF assms(1,2)]], rule rgives_bind [OF dim_mul_sound [OF _ assms(3)]], assumption,
        rule rgives_bind [OF dim_mul_sound [OF _ assms(4)]], assumption, rule rgives_bind [OF dim_mul_sound [OF _ assms(5)]], assumption,
        rule rgives_bind [OF dim_mul_sound [OF _ assms(6)]], assumption, rule rgives_dim, rule dim_add_sound)
  then show ?thesis by (simp add: distrib_left)
qed


lemma prod_list_nonneg: "\<forall>x \<in> set xs. 0 \<le> (x :: int) \<Longrightarrow> 0 \<le> prod_list xs"
  by (induction xs) auto

lemma attention_macs_nonneg:
  assumes "\<forall>x \<in> set q \<union> set k \<union> set v. 0 \<le> x"
  shows "0 \<le> attention_macs n q k v"
proof -
  have nn: "0 \<le> xs ! i" if "i < length xs" "xs = q \<or> xs = k \<or> xs = v" for i xs using assms that by (metis UnCI nth_mem)
  show ?thesis unfolding attention_macs_def by (auto intro!: mult_nonneg_nonneg add_nonneg_nonneg nn simp: pos_imp_zdiv_nonneg_iff)
qed

lemma macs_attention_sound:
  assumes q: "\<forall>s. qs = Some s \<longrightarrow> inshape s q" and k: "\<forall>s. ks = Some s \<longrightarrow> inshape s k" and v: "\<forall>s. vs = Some s \<longrightarrow> inshape s v"
    and nn: "\<forall>x \<in> set q \<union> set k \<union> set v. 0 \<le> x"
  shows "rgives (macs_attention n qs ks vs) (\<lambda>m. bounded_by m (attention_macs n q k v))"
proof (cases "\<exists>a b c. qs = Some a \<and> ks = Some b \<and> vs = Some c")
  case False
  then show ?thesis using attention_macs_nonneg [OF nn, of n] by (auto simp: macs_attention_def split: option.splits)
next
  case True
  then obtain a b c where abc: "qs = Some a" "ks = Some b" "vs = Some c" by blast
  have sh: "inshape a q" "inshape b k" "inshape c v" using q k v abc by auto
  note len = sh [THEN inshape_length]
  let ?qh = "attr_int n ''q_num_heads'' 0" and ?kvh = "attr_int n ''kv_num_heads'' 0"
  have "macs_attention n qs ks vs = Inr UNBOUNDED"
    if "\<not> (length q = 4 \<and> length k = 4 \<and> length v = 4)"
      "\<not> (length q = 3 \<and> length k = 3 \<and> length v = 3 \<and> 0 < ?qh \<and> 0 < ?kvh \<and> is_exact (b ! 2) \<and> is_exact (c ! 2))"
    using abc len that by (auto simp: macs_attention_def Let_def not_le)
  then consider (four) "length q = 4" "length k = 4" "length v = 4"
    | (three) "length q = 3" "length k = 3" "length v = 3" "0 < ?qh" "0 < ?kvh" "is_exact (b ! 2)" "is_exact (c ! 2)"
    | (none) "macs_attention n qs ks vs = Inr UNBOUNDED"
    by blast
  then show ?thesis
  proof cases
    case four
    then show ?thesis
      using attention_total_sound [OF inshape_nth [OF sh(1), of 0] inshape_nth [OF sh(1), of 1] inshape_nth [OF sh(1), of 2]
          inshape_nth [OF sh(2), of 2] inshape_nth [OF sh(1), of 3] inshape_nth [OF sh(3), of 3]] len abc
      by (simp add: macs_attention_def attention_macs_def)
  next
    case three
    have in2: "inside (b ! 2) (k ! 2)" "inside (c ! 2) (v ! 2)" using inshape_nth [OF sh(2), of 2] inshape_nth [OF sh(3), of 2] three by auto
    have pos: "0 \<le> k ! 2 div ?kvh" "0 \<le> v ! 2 div ?kvh"
      using in2 [THEN inside_nonneg] three(5) by (simp_all add: pos_imp_zdiv_nonneg_iff)
    have "rgives (rbind (exact ?qh) (\<lambda>heads. rbind (exact (k ! 2 div ?kvh)) (\<lambda>dq. rbind (exact (v ! 2 div ?kvh)) (\<lambda>dv.
        attention_total (a ! 0) heads (a ! 1) (b ! 1) dq dv)))) (\<lambda>m. bounded_by m (attention_macs n q k v))"
      using three inshape_nth [OF sh(1), of 0] inshape_nth [OF sh(1), of 1] inshape_nth [OF sh(2), of 1]
      by (intro rgives_bind [OF inside_exact] rgives_bind [OF inside_exact [OF pos(1)]] rgives_bind [OF inside_exact [OF pos(2)]])
        (auto simp: attention_macs_def intro!: attention_total_sound)
    then show ?thesis
      using three len abc in2 by (simp add: macs_attention_def Let_def exact_inside)
  next
    case none
    then show ?thesis using attention_macs_nonneg [OF nn, of n] by simp
  qed
qed

definition inputs_ok :: "(string \<Rightarrow> shape option res) \<Rightarrow> (string \<Rightarrow> int list) \<Rightarrow> bool" where
  "inputs_ok shp dims \<longleftrightarrow> (\<forall>n s. shp n = Inr (Some s) \<longrightarrow> inshape s (dims n)) \<and> (\<forall>n. \<forall>d \<in> set (dims n). 0 \<le> d)"

lemma operand_sound: "inputs_ok shp dims \<Longrightarrow> operand_shape shp n i = Inr (Some s) \<Longrightarrow> inshape s (run_operand dims n i)"
  by (auto simp: operand_shape_def run_operand_def inputs_ok_def split: if_splits)

lemma operand_nonneg: "inputs_ok shp dims \<Longrightarrow> x \<in> set (run_operand dims n i) \<Longrightarrow> 0 \<le> x"
  by (auto simp: run_operand_def inputs_ok_def split: if_splits)

lemma run_macs_nonneg:
  assumes ok: "inputs_ok shp dims"
  shows "0 \<le> run_macs dims n"
proof -
  have p: "0 \<le> prod_list (dims m)" "0 \<le> prod_list (run_operand dims n i)" "0 \<le> prod_list (drop k (run_operand dims n i))" for m i k
    using ok operand_nonneg [OF ok] by (auto intro!: prod_list_nonneg simp: inputs_ok_def dest: in_set_dropD)
  have e: "0 \<le> run_operand dims n i ! j" if "j < length (run_operand dims n i)" for i j using operand_nonneg [OF ok nth_mem [OF that]] .
  have l: "0 \<le> last (run_operand dims n i)" if "run_operand dims n i \<noteq> []" for i using operand_nonneg [OF ok last_in_set [OF that]] .
  have a: "0 \<le> attention_macs n (run_operand dims n 0) (run_operand dims n 1) (run_operand dims n 2)"
    using operand_nonneg [OF ok] by (intro attention_macs_nonneg) auto
  show ?thesis unfolding run_macs_def Let_def using a by (auto intro!: mult_nonneg_nonneg p e l)
qed

text \<open>What \<^verbatim>\<open>_node_macs\<close> computes in its \<^verbatim>\<open>try\<close>, per operator. A shape that is known contains the dimensions of the run.\<close>

definition shaped :: "shape option \<Rightarrow> int list \<Rightarrow> bool" where
  "shaped s ns \<longleftrightarrow> (\<forall>x. s = Some x \<longrightarrow> inshape x ns) \<and> (\<forall>n \<in> set ns. 0 \<le> n)"

lemma shaped_prod: "shaped s ns \<Longrightarrow> 0 \<le> prod_list ns" "shaped s ns \<Longrightarrow> 0 \<le> prod_list (drop k ns)"
  "shaped s ns \<Longrightarrow> i < length ns \<Longrightarrow> 0 \<le> ns ! i" "shaped s ns \<Longrightarrow> ns \<noteq> [] \<Longrightarrow> 0 \<le> last ns"
  by (auto simp: shaped_def intro!: prod_list_nonneg dest: in_set_dropD)

lemma prod3_case:
  assumes r: "(case (w, y) of (Some w, Some y) \<Rightarrow> if length w < 2 then Inr UNBOUNDED else prod3 y (w ! 1) (drop 2 w) | _ \<Rightarrow> Inr UNBOUNDED) = Inr b"
    and w: "shaped w ws" and y: "shaped y ys"
  shows "bounded_by b (if length ws < 2 then 0 else prod_list ys * ws ! 1 * prod_list (drop 2 ws))"
proof (cases "\<exists>a c. w = Some a \<and> y = Some c \<and> \<not> length a < 2")
  case True
  then obtain a c where s: "w = Some a" "y = Some c" "\<not> length a < 2" by blast
  have sh: "inshape a ws" "inshape c ys" using w y s by (auto simp: shaped_def)
  have l: "\<not> length ws < 2" using s(3) inshape_length [OF sh(1)] by simp
  have "rgives (prod3 c (a ! 1) (drop 2 a)) (\<lambda>m. bounded_by m (prod_list ys * ws ! 1 * prod_list (drop 2 ws)))"
    by (rule prod3_sound [OF sh(2) inshape_nth [OF sh(1)]]) (use l inshape_take_drop [OF sh(1)] in auto)
  then show ?thesis using r s l by simp
next
  case False
  then have "b = UNBOUNDED" using r by (auto split: option.splits if_splits)
  then show ?thesis using shaped_prod(3) [OF w, of 1] by (simp add: shaped_prod(1) [OF y] shaped_prod(2) [OF w])
qed

lemma mul3_sound:
  assumes "inside a x" "inside b y" "inside c z"
  shows "rgives (rbind (dim_mul a b) (\<lambda>mn. rbind (dim_mul mn c) (\<lambda>r. Inr (dim_bound r)))) (\<lambda>m. bounded_by m (x * y * z))"
  by (rule rgives_bind [OF dim_mul_sound [OF assms(1,2)]], rule rgives_dim, rule dim_mul_sound [OF _ assms(3)])

lemma gemm_case:
  assumes r: "(case (a, c) of (Some a, Some b) \<Rightarrow> if length a \<noteq> 2 \<or> length b \<noteq> 2 then Inr UNBOUNDED
      else (let (m, k) = (if ta then (a ! 1, a ! 0) else (a ! 0, a ! 1)); nn = (if tb then b ! 0 else b ! 1) in
        rbind (dim_mul m nn) (\<lambda>mn. rbind (dim_mul mn k) (\<lambda>r. Inr (dim_bound r)))) | _ \<Rightarrow> Inr UNBOUNDED) = Inr b"
    and a: "shaped a as" and c: "shaped c cs"
  shows "bounded_by b (if length as \<noteq> 2 \<or> length cs \<noteq> 2 then 0
    else (if ta then as ! 1 else as ! 0) * (if tb then cs ! 0 else cs ! 1) * (if ta then as ! 0 else as ! 1))"
proof (cases "\<exists>x y. a = Some x \<and> c = Some y \<and> length x = 2 \<and> length y = 2")
  case True
  then obtain x y where s: "a = Some x" "c = Some y" "length x = 2" "length y = 2" by blast
  have sh: "inshape x as" "inshape y cs" using a c s by (auto simp: shaped_def)
  have l: "length as = 2" "length cs = 2" using s inshape_length [OF sh(1)] inshape_length [OF sh(2)] by simp_all
  note nth = inshape_nth [OF sh(1), of 0] inshape_nth [OF sh(1), of 1] inshape_nth [OF sh(2), of 0] inshape_nth [OF sh(2), of 1]
  have "rgives (rbind (dim_mul (if ta then x ! 1 else x ! 0) (if tb then y ! 0 else y ! 1))
      (\<lambda>mn. rbind (dim_mul mn (if ta then x ! 0 else x ! 1)) (\<lambda>r. Inr (dim_bound r))))
      (\<lambda>m. bounded_by m ((if ta then as ! 1 else as ! 0) * (if tb then cs ! 0 else cs ! 1) * (if ta then as ! 0 else as ! 1)))"
    by (rule mul3_sound) (use l nth in simp_all)
  then show ?thesis using r s l by (auto split: if_splits)
next
  case False
  then have "b = UNBOUNDED" using r by (auto split: option.splits if_splits)
  moreover have "0 \<le> as ! i" "0 \<le> cs ! i" if "length as = 2" "length cs = 2" "i < 2" for i
    using shaped_prod(3) [OF a] shaped_prod(3) [OF c] that by auto
  ultimately show ?thesis by (auto intro!: mult_nonneg_nonneg)
qed

lemma matmul_case:
  assumes r: "(case (a, y) of (Some a, Some y) \<Rightarrow> if a = [] then Inr UNBOUNDED
      else rbind (prod_dims y) (\<lambda>x. rbind (dim_mul x (last a)) (\<lambda>r. Inr (dim_bound r))) | _ \<Rightarrow> Inr UNBOUNDED) = Inr b"
    and a: "shaped a as" and y: "shaped y ys"
  shows "bounded_by b (if as = [] then 0 else prod_list ys * last as)"
proof (cases "\<exists>x z. a = Some x \<and> y = Some z \<and> x \<noteq> []")
  case True
  then obtain x z where s: "a = Some x" "y = Some z" "x \<noteq> []" by blast
  have sh: "inshape x as" "inshape z ys" using a y s by (auto simp: shaped_def)
  have ne: "as \<noteq> []" using inshape_length [OF sh(1)] s(3) by auto
  have "rgives (rbind (prod_dims z) (\<lambda>m. rbind (dim_mul m (last x)) (\<lambda>r. Inr (dim_bound r)))) (\<lambda>m. bounded_by m (prod_list ys * last as))"
    unfolding prod_dims_numel by (rule rgives_bind [OF numel_sound [OF sh(2)]], rule rgives_dim, rule dim_mul_sound [OF _ inshape_last [OF sh(1) ne]])
  then show ?thesis using r s ne by simp
next
  case False
  then have "b = UNBOUNDED" using r by (auto split: option.splits if_splits)
  then show ?thesis by (simp add: shaped_prod(1) [OF y] shaped_prod(4) [OF a])
qed

lemma macs_try_sound:
  assumes ok: "inputs_ok shp dims" and y: "shaped out (dims (first_or_empty (noutput n)))"
    and op: "op_type n \<in> set MAC_OPS" "is_std_domain n" and tr: "macs_try shp n out = Inr b"
  shows "bounded_by b (run_macs dims n)"
proof -
  let ?x = "run_operand dims n" and ?o = "dims (first_or_empty (noutput n))"
  have sh: "shaped s (?x i)" if "operand_shape shp n i = Inr s" for s i
    using that operand_sound [OF ok] operand_nonneg [OF ok] by (auto simp: shaped_def)
  consider (conv) "op_type n \<in> {''Conv'', ''ConvInteger'', ''QLinearConv''}" | (convt) "op_type n = ''ConvTranspose''" | (gemm) "op_type n = ''Gemm''"
    | (mm) "op_type n \<in> {''MatMul'', ''MatMulInteger'', ''QLinearMatMul''}" | (att) "op_type n = ''Attention''"
    using op(1) by (auto simp: MAC_OPS_def)
  then show ?thesis
  proof cases
    case conv
    define i :: nat where "i = (if op_type n = ''QLinearConv'' then 3 else 1)"
    obtain w where w: "operand_shape shp n i = Inr w"
        and r: "(case (w, out) of (Some w, Some out) \<Rightarrow> if length w < 2 then Inr UNBOUNDED else prod3 out (w ! 1) (drop 2 w) | _ \<Rightarrow> Inr UNBOUNDED) = Inr b"
      using tr conv by (auto simp: macs_try_def i_def Let_def res_simps)
    have "run_macs dims n = (if length (?x i) < 2 then 0 else prod_list ?o * ?x i ! 1 * prod_list (drop 2 (?x i)))"
      using conv op by (auto simp: run_macs_def i_def Let_def)
    then show ?thesis using prod3_case [OF r sh [OF w] y] by simp
  next
    case convt
    obtain x w where w: "operand_shape shp n 0 = Inr x" "operand_shape shp n 1 = Inr w"
        and r: "(case (x, w) of (Some x, Some w) \<Rightarrow> if length w < 2 then Inr UNBOUNDED else prod3 x (w ! 1) (drop 2 w) | _ \<Rightarrow> Inr UNBOUNDED) = Inr b"
      using tr convt by (auto simp: macs_try_def Let_def res_simps)
    have r': "(case (w, x) of (Some w, Some x) \<Rightarrow> if length w < 2 then Inr UNBOUNDED else prod3 x (w ! 1) (drop 2 w) | _ \<Rightarrow> Inr UNBOUNDED) = Inr b"
      using r by (auto split: option.splits)
    show ?thesis using prod3_case [OF r' sh [OF w(2)] sh [OF w(1)]] convt op by (simp add: run_macs_def Let_def)
  next
    case gemm
    let ?ta = "attr_int n ''transA'' 0 \<noteq> 0" and ?tb = "attr_int n ''transB'' 0 \<noteq> 0"
    obtain a c where w: "operand_shape shp n 0 = Inr a" "operand_shape shp n 1 = Inr c"
        and r: "(case (a, c) of (Some a, Some b) \<Rightarrow> if length a \<noteq> 2 \<or> length b \<noteq> 2 then Inr UNBOUNDED
            else (let (m, k) = (if ?ta then (a ! 1, a ! 0) else (a ! 0, a ! 1)); nn = (if ?tb then b ! 0 else b ! 1) in
              rbind (dim_mul m nn) (\<lambda>mn. rbind (dim_mul mn k) (\<lambda>r. Inr (dim_bound r)))) | _ \<Rightarrow> Inr UNBOUNDED) = Inr b"
      using tr unfolding macs_try_def gemm by (auto simp: Let_def res_simps)
    show ?thesis using gemm_case [OF r sh [OF w(1)] sh [OF w(2)]] gemm op unfolding run_macs_def Let_def by simp
  next
    case mm
    obtain a where w: "operand_shape shp n 0 = Inr a"
        and r: "(case (a, out) of (Some a, Some out) \<Rightarrow> if a = [] then Inr UNBOUNDED
          else rbind (prod_dims out) (\<lambda>x. rbind (dim_mul x (last a)) (\<lambda>r. Inr (dim_bound r))) | _ \<Rightarrow> Inr UNBOUNDED) = Inr b"
      using tr mm by (auto simp: macs_try_def Let_def res_simps)
    have "run_macs dims n = (if ?x 0 = [] then 0 else prod_list ?o * last (?x 0))"
      using mm op unfolding run_macs_def Let_def by (elim insertE emptyE) simp_all
    then show ?thesis using matmul_case [OF r sh [OF w] y] by simp
  next
    case att
    obtain q k v where w: "operand_shape shp n 0 = Inr q" "operand_shape shp n 1 = Inr k" "operand_shape shp n 2 = Inr v"
        and r: "macs_attention n q k v = Inr b"
      using tr att by (auto simp: macs_try_def Let_def res_simps)
    have "rgives (macs_attention n q k v) (\<lambda>m. bounded_by m (attention_macs n (?x 0) (?x 1) (?x 2)))"
      by (rule macs_attention_sound) (use sh [OF w(1)] sh [OF w(2)] sh [OF w(3)] in \<open>auto simp: shaped_def\<close>)
    then show ?thesis using att op r by (simp add: run_macs_def Let_def)
  qed
qed

lemma node_macs_sound:
  assumes ok: "inputs_ok shp dims" and m: "node_macs shp n = Inr m"
  shows "case m of None \<Rightarrow> run_macs dims n = 0 | Some b \<Rightarrow> bounded_by b (run_macs dims n)"
proof (cases "op_type n \<notin> set MAC_OPS \<or> \<not> is_std_domain n")
  case True
  then show ?thesis using m by (auto simp: node_macs_def run_macs_def Let_def)
next
  case False
  then obtain out where out: "(if first_or_empty (noutput n) \<noteq> '''' then shp (first_or_empty (noutput n)) else Inr None) = Inr out"
      and b: "m = Some (case macs_try shp n out of Inr b \<Rightarrow> b | Inl _ \<Rightarrow> UNBOUNDED)"
    using m by (auto simp: node_macs_def res_simps)
  have "shaped out (dims (first_or_empty (noutput n)))" using ok out by (auto simp: shaped_def inputs_ok_def split: if_splits)
  then show ?thesis
    using macs_try_sound [OF ok] run_macs_nonneg [OF ok, of n] False b by (auto split: sum.splits)
qed

section \<open>Totals\<close>

definition run_access :: "(string \<Rightarrow> int) \<Rightarrow> node \<Rightarrow> int" where
  "run_access sz n = (\<Sum>x \<leftarrow> filter (\<lambda>x. x \<noteq> '''') (ninput n @ noutput n). sz x)"

lemma node_access_sound:
  assumes sz: "\<And>n t. dict_get tensors n = Some t \<Longrightarrow> bounded_by (tb_bytes t) (sz n)" "\<And>n. 0 \<le> sz n"
  shows "bounded_by (node_access tensors n) (run_access sz n)"
proof -
  have "bounded_by (foldl (\<lambda>acc x. if x = '''' then acc
        else case dict_get tensors x of Some t \<Rightarrow> bound_add acc (tb_bytes t) | None \<Rightarrow> bound_add acc UNBOUNDED) ZERO xs)
      (\<Sum>x \<leftarrow> filter (\<lambda>x. x \<noteq> '''') xs. sz x)" for xs
    by (induction xs rule: rev_induct) (auto intro!: bounded_by_add sz split: option.splits)
  then show ?thesis unfolding node_access_def run_access_def .
qed

lemma cost_fold_sound:
  assumes ok: "inputs_ok shp dims" and sz: "\<And>n t. dict_get tensors n = Some t \<Longrightarrow> bounded_by (tb_bytes t) (sz n)" "\<And>n. 0 \<le> sz n"
    and r: "rfold (cost_step shp tensors) ([], ZERO, ZERO) ns = Inr (nodes, macs, mem)"
  shows "bounded_by macs (\<Sum>n\<leftarrow>ns. run_macs dims n) \<and> bounded_by mem (\<Sum>n\<leftarrow>ns. run_access sz n)"
  using r
proof (induction ns arbitrary: nodes macs mem rule: rev_induct)
  case (snoc n ns)
  then obtain nodes' macs' mem' where prev: "rfold (cost_step shp tensors) ([], ZERO, ZERO) ns = Inr (nodes', macs', mem')"
      and st: "cost_step shp tensors (nodes', macs', mem') n = Inr (nodes, macs, mem)"
    by (auto simp: rfold_append res_simps)
  obtain m where m: "node_macs shp n = Inr m" "macs = (case m of None \<Rightarrow> macs' | Some b \<Rightarrow> bound_add macs' b)"
      "mem = bound_add mem' (node_access tensors n)"
    using st by (auto simp: cost_step_def Let_def res_simps)
  show ?case
    using snoc.IH [OF prev] node_macs_sound [OF ok m(1)] node_access_sound [OF sz, where n = n] m(2,3)
    by (cases m) (auto intro: bounded_by_add)
qed simp

text \<open>What the analysis takes as the shape of a tensor.\<close>

definition graph_shape :: "outside \<Rightarrow> graph \<Rightarrow> (string, spec_dim) dict \<Rightarrow> (string, spec_dim list) dict \<Rightarrow> string \<Rightarrow> shape option res" where
  "graph_shape ox g dim_ranges input_shapes =
     shape_of (init_table g) (ox_propagate ox g (fst (input_specs g dim_ranges input_shapes)))
       (onnx_static_dims (ox_infer ox) (ox_declare ox) g input_shapes)"

lemma bounds_parts:
  assumes "bounds ox g dim_ranges input_shapes plan_it = Inr cb"
  obtains pl ph nodes macs mem ub et where
    "rfold (add_tensor (graph_shape ox g dim_ranges input_shapes) (bits (ox_dtype ox)) et (producer_table g)) ([], [])
       (tensor_calls g (dict_keys (init_table g)) (graph_in_names g) (graph_out_names g)) = Inr (cb_tensors cb, ub)"
    "peak g (cb_tensors cb) (dict_keys (init_table g)) (graph_in_names g) (graph_out_names g) (\<lambda>b. Some (blo b)) = Inr pl"
    "(if cb_complete cb then peak g (cb_tensors cb) (dict_keys (init_table g)) (graph_in_names g) (graph_out_names g) bhi else Inr None) = Inr ph"
    "rfold (cost_step (graph_shape ox g dim_ranges input_shapes) (cb_tensors cb)) ([], ZERO, ZERO) (gnode g) = Inr (nodes, macs, mem)"
    "cb_peak_activation cb = \<lparr>blo = (case pl of None \<Rightarrow> 0 | Some v \<Rightarrow> v), bhi = ph\<rparr>"
    "cb_peak_live cb = \<lparr>blo = blo (cb_peak_activation cb) + cb_weight_bytes cb, bhi = map_option (\<lambda>h. h + cb_weight_bytes cb) ph\<rparr>"
    "weight_sum (cb_tensors cb) (dict_keys (init_table g)) = Inr (cb_weight_bytes cb)"
    "cb_macs cb = widen (cb_complete cb) macs" "cb_mem_access cb = widen (cb_complete cb) mem"
    "cb_arena cb = fst (if plan_it then plan_arena (ox_planner ox) g (cb_tensors cb) et (graph_in_names g) (graph_out_names g) (cb_complete cb) else (None, []))"
proof -
  let ?c = "\<not> (\<exists>n \<in> set (gnode g). has_subgraph n)" and ?shp = "graph_shape ox g dim_ranges input_shapes"
  obtain tu wb pl ph costs nts plan where
    tab: "rfold (add_tensor ?shp (bits (ox_dtype ox)) (elem_types (ox_infer ox) g) (producer_table g)) ([], [])
        (tensor_calls g (dict_keys (init_table g)) (graph_in_names g) (graph_out_names g)) = Inr tu"
    and pl: "peak g (fst tu) (dict_keys (init_table g)) (graph_in_names g) (graph_out_names g) (\<lambda>b. Some (blo b)) = Inr pl"
    and ph: "(if ?c then peak g (fst tu) (dict_keys (init_table g)) (graph_in_names g) (graph_out_names g) bhi else Inr None) = Inr ph"
    and cost: "rfold (cost_step ?shp (fst tu)) ([], ZERO, ZERO) (gnode g) = Inr costs"
    and plan: "plan = (if plan_it then plan_arena (ox_planner ox) g (fst tu) (elem_types (ox_infer ox) g) (graph_in_names g) (graph_out_names g) ?c else (None, []))"
    and wb: "weight_sum (fst tu) (dict_keys (init_table g)) = Inr wb"
    and cb: "cb = pack_bounds nts tu wb pl ph ?c costs plan"
    using assms unfolding bounds_def graph_shape_def Let_def rbind_Inr by blast
  show ?thesis
    by (rule that [of "elem_types (ox_infer ox) g" "snd tu" pl ph "fst costs" "fst (snd costs)" "snd (snd costs)"])
      (use tab pl ph cost plan wb in \<open>auto simp: cb pack_bounds_def Let_def split: if_split_asm\<close>)
qed

lemma table_calls:
  assumes "rfold (add_tensor shp b et pr) ([], []) (tensor_calls g ws in_names out_names) = Inr (tensors, ub)"
  shows "table_of g tensors ws in_names out_names"
proof -
  let ?calls = "map (\<lambda>n. (n, ''input'')) in_names @
     concat (map (\<lambda>n. map (\<lambda>out. (out, if out \<in> set out_names then ''output'' else ''activation'')) (filter (\<lambda>out. out \<noteq> '''') (noutput n))) (gnode g)) @
     map (\<lambda>n. (n, ''output'')) out_names"
  have "set (activation_names tensors) = fst ` set ?calls - insert '''' (set ws)"
    by (rule table_kinds [of shp b et pr ws ?calls]) (use assms in \<open>auto simp: tensor_calls_def split: if_split_asm\<close>)
  also have "fst ` set ?calls = set in_names \<union> ((\<Union>n \<in> set (gnode g). set (noutput n)) - {''''}) \<union> set out_names"
    by (auto simp: image_Un image_UN image_image)
  finally show ?thesis unfolding table_of_def by auto
qed

lemma blo_bytes_nonneg:
  assumes run: "run_ok shp tensors dims sz" and t: "dict_get tensors n = Some t" "entry_ok shp n t"
  shows "0 \<le> blo (tb_bytes t)"
proof -
  have "0 \<le> blo (tb_numel t)"
  proof (cases "tb_shape t")
    case (Some s)
    then have "inshape s (dims n)" using run t(2) by (auto simp: run_ok_def entry_ok_def)
    from numel_sound [OF this] obtain d where "numel s = Inr d" "0 \<le> lo d" by (auto simp: rgives_def inside_iff wf_dim_def)
    then have "tb_numel t = \<lparr>blo = lo d, bhi = hi d\<rparr>" using Some t(2) by (simp add: entry_ok_def numel_bound_def)
    then show ?thesis using \<open>0 \<le> lo d\<close> by simp
  next
    case None
    then have "tb_numel t = UNBOUNDED" using t(2) by (simp add: entry_ok_def numel_bound_def)
    then show ?thesis by (simp add: UNBOUNDED_def)
  qed
  then show ?thesis
    using run t by (cases "tb_bits t") (auto simp: entry_ok_def bytes_of_def UNBOUNDED_def run_ok_def pos_imp_zdiv_nonneg_iff)
qed

lemma bounds_sound:
  assumes cb: "bounds ox g dim_ranges input_shapes plan_it = Inr cb"
    and run: "run_ok (graph_shape ox g dim_ranges input_shapes) (cb_tensors cb) dims sz"
    and order: "well_ordered g (cb_tensors cb) (graph_in_names g) (graph_out_names g)"
    and small: "(\<Sum>n\<leftarrow>activation_names (cb_tensors cb). cap_of (cb_tensors cb) n) < 2 ^ 53"
  shows "bounded_by (cb_peak_activation cb) (run_peak g (cb_tensors cb) (graph_in_names g) (graph_out_names g) sz)"
    and "bounded_by (cb_macs cb) (\<Sum>n\<leftarrow>gnode g. run_macs dims n)"
    and "bounded_by (cb_mem_access cb) (\<Sum>n\<leftarrow>gnode g. run_access sz n)"
    and "\<And>n t. dict_get (cb_tensors cb) n = Some t \<Longrightarrow> bounded_by (tb_bytes t) (sz n)"
    and "distinct (dict_keys (cb_tensors cb))"
proof -
  let ?shp = "graph_shape ox g dim_ranges input_shapes" and ?t = "cb_tensors cb" and ?ws = "dict_keys (init_table g)"
  obtain pl ph nodes macs mem ub et where
    tab: "rfold (add_tensor ?shp (bits (ox_dtype ox)) et (producer_table g)) ([], []) (tensor_calls g ?ws (graph_in_names g) (graph_out_names g)) = Inr (?t, ub)"
    and pl: "peak g ?t ?ws (graph_in_names g) (graph_out_names g) (\<lambda>b. Some (blo b)) = Inr pl"
    and ph: "(if cb_complete cb then peak g ?t ?ws (graph_in_names g) (graph_out_names g) bhi else Inr None) = Inr ph"
    and cost: "rfold (cost_step ?shp ?t) ([], ZERO, ZERO) (gnode g) = Inr (nodes, macs, mem)"
    and act: "cb_peak_activation cb = \<lparr>blo = (case pl of None \<Rightarrow> 0 | Some v \<Rightarrow> v), bhi = ph\<rparr>"
    and mm: "cb_macs cb = widen (cb_complete cb) macs" "cb_mem_access cb = widen (cb_complete cb) mem"
    using bounds_parts [OF cb] by metis
  have entry: "entry_ok ?shp n t" if "dict_get ?t n = Some t" for n t by (rule table_ok(3) [OF tab that])
  have size: "bounded_by (tb_bytes t) (sz n)" if "dict_get ?t n = Some t" for n t by (rule size_bounded [OF run that entry [OF that]])
  then show "\<And>n t. dict_get ?t n = Some t \<Longrightarrow> bounded_by (tb_bytes t) (sz n)" .
  show d: "distinct (dict_keys ?t)" by (rule table_ok(1) [OF tab])
  have st: "small_table ?t sz"
    using d size small blo_bytes_nonneg [OF run _ entry] by (auto simp: small_table_def)
  have dn: "distinct (graph_in_names g)" by (simp add: graph_in_names_def)
  note pk = peak_bounded [OF table_calls [OF tab] order dn st]
  have "0 \<le> run_peak g ?t (graph_in_names g) (graph_out_names g) sz"
    using run_peak_at [of g ?t "graph_in_names g" "graph_out_names g" sz] run by (auto simp: run_ok_def intro!: sum_nonneg)
  then show "bounded_by (cb_peak_activation cb) (run_peak g ?t (graph_in_names g) (graph_out_names g) sz)"
    using pk(1) pk(2) pl ph act by (auto simp: bounded_by_def split: option.splits if_splits)
  have ok: "inputs_ok ?shp dims" using run by (auto simp: run_ok_def inputs_ok_def)
  have nn: "0 \<le> sz n" for n using run by (simp add: run_ok_def)
  note tot = cost_fold_sound [OF ok size nn cost]
  have wide: "bounded_by b v \<Longrightarrow> bounded_by (widen c b) v" for b c v by (simp add: bounded_by_def widen_def)
  show "bounded_by (cb_macs cb) (\<Sum>n\<leftarrow>gnode g. run_macs dims n)" unfolding mm(1) by (rule wide [OF tot [THEN conjunct1]])
  show "bounded_by (cb_mem_access cb) (\<Sum>n\<leftarrow>gnode g. run_access sz n)" unfolding mm(2) by (rule wide [OF tot [THEN conjunct2]])
qed

section \<open>Budgets\<close>

lemma judge_proved: "c \<in> set (judge_budget m lm b) \<Longrightarrow> bc_status c = Proved \<Longrightarrow> bounded_by b v \<Longrightarrow> lm = Some l \<Longrightarrow> v \<le> l"
  by (auto simp: judge_budget_def bounded_by_def split: option.splits if_splits)

lemma judge_exceeds: "c \<in> set (judge_budget m lm b) \<Longrightarrow> bc_status c = Exceeds \<Longrightarrow> blo b \<le> v \<Longrightarrow> \<exists>l. lm = Some l \<and> l < v"
  by (auto simp: judge_budget_def split: option.splits if_splits)

lemma judge_some: "lm = Some l \<Longrightarrow> \<exists>c. set (judge_budget m lm b) = {c}"
  by (simp add: judge_budget_def)

lemma fold_max: "foldl max (b :: int) bs \<in> set (b # bs)"
  by (induction bs rule: rev_induct) (auto simp: max_def)

lemma biggest_at:
  assumes "distinct (dict_keys tensors)"
  shows "biggest_activation tensors = 0 \<or> (\<exists>n \<in> set (activation_names tensors). \<exists>t. dict_get tensors n = Some t \<and> biggest_activation tensors = blo (tb_bytes t))"
proof (cases "map (\<lambda>(n, t). blo (tb_bytes t)) (filter (\<lambda>(n, t). tb_kind t \<noteq> ''weight'') tensors)")
  case (Cons b bs)
  then have "biggest_activation tensors = foldl max b bs" by (simp add: biggest_activation_def)
  then have "biggest_activation tensors \<in> set (map (\<lambda>(n, t). blo (tb_bytes t)) (filter (\<lambda>(n, t). tb_kind t \<noteq> ''weight'') tensors))"
    using fold_max [of b bs] Cons by simp
  then obtain n t where "(n, t) \<in> set tensors" "tb_kind t \<noteq> ''weight''" "biggest_activation tensors = blo (tb_bytes t)" by auto
  then show ?thesis using assms by (force simp: activation_names_def)
qed (simp add: biggest_activation_def)

lemma weight_sum_exact:
  assumes "\<And>n t. n \<in> set ws \<Longrightarrow> dict_get tensors n = Some t \<Longrightarrow> bhi (tb_bytes t) = Some (blo (tb_bytes t)) \<and> bounded_by (tb_bytes t) (sz n)"
    and "weight_sum tensors ws = Inr v"
  shows "v = (\<Sum>n\<leftarrow>ws. sz n)"
proof -
  obtain vs where vs: "rmap (\<lambda>n. case dict_get tensors n of None \<Rightarrow> Inl (KeyError n) | Some t \<Rightarrow> Inr (blo (tb_bytes t))) ws = Inr vs" "v = sum_list vs"
    using assms(2) by (auto simp: weight_sum_def res_simps)
  have "vs = map sz ws" using vs(1) assms(1)
  proof (induction ws arbitrary: vs)
    case (Cons n ws)
    then show ?case by (fastforce simp: res_simps bounded_by_def split: option.splits)
  qed simp
  then show ?thesis using vs(2) by simp
qed

text \<open>The plan that \<^verbatim>\<open>bounds\<close> returns has passed \<^verbatim>\<open>_verify_plan\<close>.\<close>

lemma plan_arena_verified:
  "fst (plan_arena planner g tensors et in_names out_names c) = Some p \<Longrightarrow>
     verify_plan g (ap_offsets p) (ap_arena p) tensors in_names out_names = PlanOk"
  by (auto simp: plan_arena_def split: if_splits option.splits sum.splits plan_verdict.splits)

lemma slots_inside:
  assumes "verify_plan g offsets arena tensors in_names out_names = PlanOk" "distinct (dict_keys tensors)"
    and "\<And>n t. dict_get tensors n = Some t \<Longrightarrow> bounded_by (tb_bytes t) (sz n)" "n \<in> set (activation_names tensors)"
  shows "0 \<le> fst (slot_of offsets n) \<and> fst (slot_of offsets n) + sz n \<le> arena"
proof -
  have "slot_fits offsets arena tensors n" using verify_plan_iff [OF assms(2)] assms(1,4) by blast
  then obtain off s t need where "dict_get offsets n = Some (off, s)" "dict_get tensors n = Some t" "bhi (tb_bytes t) = Some need" "need \<le> s" "0 \<le> off" "off + s \<le> arena"
    unfolding slot_fits_def by blast
  then show ?thesis using assms(3) [of n t] by (auto simp: slot_of_def get_default_def bounded_by_def)
qed

lemma live_bounded:
  assumes cb: "bounds ox g dim_ranges input_shapes plan_it = Inr cb"
    and peak: "bounded_by (cb_peak_activation cb) p" and w: "cb_weight_bytes cb = wt"
  shows "bounded_by (cb_peak_live cb) (p + wt)"
proof -
  obtain ph where "cb_peak_live cb = \<lparr>blo = blo (cb_peak_activation cb) + cb_weight_bytes cb, bhi = map_option (\<lambda>h. h + cb_weight_bytes cb) ph\<rparr>"
      "ph = bhi (cb_peak_activation cb)"
    using bounds_parts [OF cb] by (metis bound.select_convs(2))
  then show ?thesis using peak w by (auto simp: bounded_by_def)
qed

lemma proved_arena:
  assumes cb: "bounds ox g dim_ranges input_shapes True = Inr cb" and m: "lim_arena l = Some m"
    and pr: "\<forall>c \<in> set (judge_budget ''arena_bytes'' (lim_arena l) (arena_bound cb)). bc_status c = Proved"
    and order: "well_ordered g (cb_tensors cb) (graph_in_names g) (graph_out_names g)" and d: "distinct (dict_keys (cb_tensors cb))"
    and size: "\<And>n t. dict_get (cb_tensors cb) n = Some t \<Longrightarrow> bounded_by (tb_bytes t) (sz n)"
  shows "\<exists>p. cb_arena cb = Some p \<and>
    (\<forall>n \<in> set (activation_names (cb_tensors cb)). 0 \<le> fst (slot_of (ap_offsets p) n) \<and> fst (slot_of (ap_offsets p) n) + sz n \<le> m) \<and>
    (\<forall>i < length (gnode g). \<forall>x \<in> set (ninput (gnode g ! i)) \<inter> set (activation_names (cb_tensors cb)).
      intact (ap_offsets p) sz (arena_run (ap_offsets p) sz (cb_tensors cb) (graph_in_names g) (take i (gnode g))) x)"
proof -
  obtain p where p: "cb_arena cb = Some p" "ap_arena p \<le> m"
    using m pr by (fastforce simp: judge_budget_def arena_bound_def split: option.splits if_splits)
  have ok: "verify_plan g (ap_offsets p) (ap_arena p) (cb_tensors cb) (graph_in_names g) (graph_out_names g) = PlanOk"
    using bounds_parts [OF cb] p(1) plan_arena_verified by metis
  have "plan_run g (ap_offsets p) (ap_arena p) (cb_tensors cb) (graph_in_names g) (graph_out_names g) sz"
    using ok size d order by (auto simp: plan_run_def bounded_by_def)
  from plan_run_safe [OF this] slots_inside [OF ok d size] p show ?thesis by (intro exI [of _ p]) fastforce
qed

lemma exceeds_some:
  assumes c: "c \<in> set (budget_checks cb l)" "bc_status c = Exceeds" and d: "distinct (dict_keys (cb_tensors cb))"
    and size: "\<And>n t. dict_get (cb_tensors cb) n = Some t \<Longrightarrow> bounded_by (tb_bytes t) (sz n)"
    and b: "bounded_by (cb_peak_live cb) pk" "bounded_by (cb_macs cb) mc" "bounded_by (cb_mem_access cb) ac"
  shows "(\<exists>m. lim_memory l = Some m \<and> m < pk) \<or> (\<exists>m. lim_macs l = Some m \<and> m < mc) \<or> (\<exists>m. lim_access l = Some m \<and> m < ac) \<or>
    (\<exists>m. lim_arena l = Some m \<and> (m < 0 \<or> (\<exists>n \<in> set (activation_names (cb_tensors cb)). m < sz n)))"
proof -
  have lo: "blo (cb_peak_live cb) \<le> pk" "blo (cb_macs cb) \<le> mc" "blo (cb_mem_access cb) \<le> ac" using b by (auto simp: bounded_by_def)
  consider "c \<in> set (judge_budget ''peak_live_bytes'' (lim_memory l) (cb_peak_live cb))" | "c \<in> set (judge_budget ''arena_bytes'' (lim_arena l) (arena_bound cb))"
    | "c \<in> set (judge_budget ''macs'' (lim_macs l) (cb_macs cb))" | "c \<in> set (judge_budget ''mem_access_bytes'' (lim_access l) (cb_mem_access cb))"
    using c(1) by (auto simp: budget_checks_def)
  then show ?thesis
  proof cases
    case 2
    then obtain m where "lim_arena l = Some m" "m < biggest_activation (cb_tensors cb)"
      using judge_exceeds [OF 2 c(2), of "biggest_activation (cb_tensors cb)"] by (auto simp: arena_bound_def)
    then show ?thesis using biggest_at [OF d] size unfolding bounded_by_def by fastforce
  qed (use judge_exceeds [OF _ c(2)] lo in blast)+
qed

text \<open>
  C15. The bounds of \<^verbatim>\<open>bounds\<close> contain every run. For a graph in order, whatever dimensions the tensors of a run take inside the shapes the analysis has for them, the
  largest total of activations that are live at one step, the multiply-accumulates of the nodes and the bytes the nodes read and write are inside the bounds,
  as long as the activations add up to less than $2^{53}$ bytes, beyond which the code's sums of doubles round.
\<close>

theorem bounds_contain_every_run:
  assumes "bounds ox g dim_ranges input_shapes plan_it = Inr cb"
    and "run_ok (graph_shape ox g dim_ranges input_shapes) (cb_tensors cb) dims sz"
    and "well_ordered g (cb_tensors cb) (graph_in_names g) (graph_out_names g)"
    and "(\<Sum>n\<leftarrow>activation_names (cb_tensors cb). cap_of (cb_tensors cb) n) < 2 ^ 53"
  shows "bounded_by (cb_peak_activation cb) (run_peak g (cb_tensors cb) (graph_in_names g) (graph_out_names g) sz) \<and>
    bounded_by (cb_macs cb) (\<Sum>n\<leftarrow>gnode g. run_macs dims n) \<and> bounded_by (cb_mem_access cb) (\<Sum>n\<leftarrow>gnode g. run_access sz n)"
  using bounds_sound [OF assms] by simp


text \<open>A matrix product of a batch of one to four rows, then an activation in place.\<close>

definition wit_outside :: outside where
  "wit_outside =
     \<lparr>ox_propagate = (\<lambda>g specs. \<lparr>intervals = [], ranged =
        map (\<lambda>n. (n, \<lparr>rt_shape = [\<lparr>lo = 1, hi = Some 4, dsym = None\<rparr>, \<lparr>lo = 2, hi = Some 2, dsym = None\<rparr>], rt_hull = (NInf, PInf)\<rparr>)) [''x'', ''y'', ''z'']\<rparr>),
      ox_infer = (\<lambda>p g. None), ox_declare = (\<lambda>g ov. g), ox_dtype = (\<lambda>t. if t = FLOAT then Some (CHR ''f'', 4) else None),
      ox_planner = Some (\<lambda>g. Inr \<lparr>pl_offsets = [(''x'', (0, 32)), (''y'', (32, 32)), (''z'', (32, 32))], pl_arena = 64, pl_naive = 96, pl_unplanned = []\<rparr>)\<rparr>"

definition wit_info :: "string \<Rightarrow> value_info" where
  "wit_info n = \<lparr>vname = n, elem_type_of = FLOAT, vshape = Some [DimParam ''batch'', DimValue 2]\<rparr>"

definition wit_model :: graph where
  "wit_model = Graph [simple_node ''MatMul'' [''x'', ''w''] [''y''], simple_node ''Relu'' [''y''] [''z'']]
     [wit_info ''x''] [wit_info ''z''] [wit_info ''y''] [inline_tensor ''w'' FLOAT [2, 2] []]"

definition wit_ranges :: "(string, spec_dim) dict" where
  "wit_ranges = [(''batch'', SRange 1 (Some 4))]"

definition wit_bounds :: "string \<Rightarrow> string \<Rightarrow> int \<Rightarrow> int \<Rightarrow> int \<Rightarrow> string \<times> tensor_bound" where
  "wit_bounds n k a b c =
     (n, \<lparr>tb_name = n, tb_kind = k, tb_shape = Some [\<lparr>lo = a, hi = Some b, dsym = None\<rparr>, \<lparr>lo = c, hi = Some c, dsym = None\<rparr>], tb_bits = Some 32,
        tb_numel = \<lparr>blo = a * c, bhi = Some (b * c)\<rparr>, tb_bytes = \<lparr>blo = a * c * 4, bhi = Some (b * c * 4)\<rparr>, tb_note = ''''\<rparr>)"

definition wit_table :: tensor_table where
  "wit_table = [wit_bounds ''w'' ''weight'' 2 2 2, wit_bounds ''x'' ''input'' 1 4 2, wit_bounds ''y'' ''activation'' 1 4 2, wit_bounds ''z'' ''output'' 1 4 2]"

definition wit_cost :: cost_bounds where
  "wit_cost =
     \<lparr>cb_tensors = wit_table,
      cb_nodes = [\<lparr>nc_name = ''y'', nc_op_type = ''MatMul'', nc_macs = Some \<lparr>blo = 4, bhi = Some 16\<rparr>, nc_access = \<lparr>blo = 32, bhi = Some 80\<rparr>\<rparr>,
        \<lparr>nc_name = ''z'', nc_op_type = ''Relu'', nc_macs = None, nc_access = \<lparr>blo = 16, bhi = Some 64\<rparr>\<rparr>],
      cb_weight_bytes = 16, cb_peak_live = \<lparr>blo = 32, bhi = Some 80\<rparr>, cb_peak_activation = \<lparr>blo = 16, bhi = Some 64\<rparr>,
      cb_macs = \<lparr>blo = 4, bhi = Some 16\<rparr>, cb_mem_access = \<lparr>blo = 48, bhi = Some 144\<rparr>,
      cb_arena = Some \<lparr>ap_arena = 64, ap_naive = 96, ap_offsets = [(''x'', (0, 32)), (''y'', (32, 32)), (''z'', (32, 32))], ap_verified = True\<rparr>,
      cb_unbounded = [], cb_notes = [], cb_complete = True\<rparr>"

definition wit_dims :: "string \<Rightarrow> int list" where
  "wit_dims n = (if n = ''w'' then [2, 2] else [3, 2])"

definition wit_sizes :: "string \<Rightarrow> int" where
  "wit_sizes n = (if n = ''w'' then 16 else 24)"

definition wit_limits :: limits where
  "wit_limits = \<lparr>lim_memory = Some 80, lim_macs = Some 16, lim_arena = Some 64, lim_access = Some 144\<rparr>"

lemma wit_cost_bounds: "bounds wit_outside wit_model wit_ranges [] True = Inr wit_cost"
  by code_simp

lemma wit_cost_budget:
  "map_sum id bv_fits (check_budget wit_outside wit_model wit_ranges [] wit_limits) = Inr (Some True)"
  by code_simp

lemma wit_names: "graph_in_names wit_model = [''x'']" "graph_out_names wit_model = [''z'']" "activation_names wit_table = [''x'', ''y'', ''z'']"
  by code_simp+

lemma wit_cost_order: "well_ordered wit_model (cb_tensors wit_cost) (graph_in_names wit_model) (graph_out_names wit_model)"
  unfolding well_ordered_def wit_names
  by (auto simp: wit_names wit_cost_def wit_model_def simple_node_def written_def inline_tensor_def less_Suc_eq nth_Cons take_Cons split: nat.splits)

lemma wit_shape: "graph_shape wit_outside wit_model wit_ranges [] n =
    Inr (if n = ''w'' then Some [\<lparr>lo = 2, hi = Some 2, dsym = None\<rparr>, \<lparr>lo = 2, hi = Some 2, dsym = None\<rparr>]
      else if n \<in> {''x'', ''y'', ''z''} then Some [\<lparr>lo = 1, hi = Some 4, dsym = None\<rparr>, \<lparr>lo = 2, hi = Some 2, dsym = None\<rparr>] else None)"
  by (auto simp: graph_shape_def shape_of_def wit_model_def wit_outside_def init_table_def inline_tensor_def onnx_static_dims_def tighten_def
      from_ints_def exact_def Dim_def rmap_opt_def)

lemma wit_cost_run: "run_ok (graph_shape wit_outside wit_model wit_ranges []) (cb_tensors wit_cost) wit_dims wit_sizes"
  unfolding run_ok_def wit_shape
  by (auto simp: wit_cost_def wit_table_def wit_bounds_def wit_dims_def wit_sizes_def inshape_def inside_def stored_bytes_def ceil_div_def split: if_splits)

lemma wit_cost_small: "(\<Sum>n\<leftarrow>activation_names (cb_tensors wit_cost). cap_of (cb_tensors wit_cost) n) < 2 ^ 53"
  by code_simp

theorem bounds_contain_every_run_witness:
  "bounds wit_outside wit_model wit_ranges [] True = Inr wit_cost \<and>
   run_peak wit_model wit_table [''x''] [''z''] wit_sizes \<le> 64 \<and> (\<Sum>n\<leftarrow>gnode wit_model. run_macs wit_dims n) \<le> 16"
  using wit_cost_bounds bounds_contain_every_run [OF wit_cost_bounds wit_cost_run wit_cost_order wit_cost_small]
  by (simp add: bounded_by_def wit_cost_def wit_names)


text \<open>Models that are one weight.\<close>

definition four_bit_model :: graph where
  "four_bit_model = Graph [] [] [] [] [inline_tensor ''w'' (OtherType 22) [3] []]"

definition string_model :: graph where
  "string_model = Graph [] [] [] [] [inline_tensor ''s'' STRING [1000] []]"


text \<open>Beyond $2^{53}$ bytes the sums round: two live activations of $2^{53}$ and one bytes add up to $2^{53}$.\<close>

lemma round53_tie: "round53 9007199254740993 = 9007199254740992" "round53 9007199254740992 = 9007199254740992"
  by (simp_all add: round53_def bit_len.simps Let_def)

lemma peak_rounds:
  "live_total [wit_bounds ''a'' ''input'' 0 (2 ^ 51) 1,
     (''b'', (snd (wit_bounds ''b'' ''input'' 0 0 1))\<lparr>tb_bytes := \<lparr>blo = 0, bhi = Some 1\<rparr>\<rparr>)] bhi [''a'', ''b''] = Inr (Some (2 ^ 53))"
  by (simp add: live_total_def wit_bounds_def pv_def float_of_def float_add_def round53_tie)

end
