(* ===== verification/Cost_Rules.thy ===== *)
theory Cost_Rules
  imports Arena_Plan
begin

text \<open>
  The interval shape rules of \<^verbatim>\<open>onnxsim/shape_cost.py\<close> (\<^verbatim>\<open>_r_*\<close> and \<^verbatim>\<open>shape_fallback\<close>): for a node and ranges of the dimensions of its operands, ranges of
  the dimensions of its outputs. A rule returns one entry per output, \<^verbatim>\<open>None\<close> where it cannot say; what it raises is an error value, which
  the caller in \<^verbatim>\<open>onnxsim/interval.py\<close> turns into unknown outputs. \<open>iv\<close> holds the interval of each operand whose shape is static.
\<close>

section \<open>Attributes and constant operands\<close>

definition attr_find :: "node \<Rightarrow> string \<Rightarrow> attribute option" where
  "attr_find n name = dict_get (rev (map (\<lambda>a. (attr_name a, a)) (nattr n))) name"

definition attr_ints_or :: "node \<Rightarrow> string \<Rightarrow> int list \<Rightarrow> int list" where
  "attr_ints_or n name d = (case attr_find n name of None \<Rightarrow> d | Some a \<Rightarrow> attr_ints a)"

definition attr_str_or :: "node \<Rightarrow> string \<Rightarrow> string \<Rightarrow> string" where
  "attr_str_or n name d = (case attr_find n name of None \<Rightarrow> d | Some a \<Rightarrow> attr_s a)"

definition attr_get_ints :: "node \<Rightarrow> string \<Rightarrow> int list res" where
  "attr_get_ints n name = (case attr_find n name of None \<Rightarrow> Inl (KeyError name) | Some a \<Rightarrow> Inr (attr_ints a))"

definition attr_get_int :: "node \<Rightarrow> string \<Rightarrow> int res" where
  "attr_get_int n name = (case attr_find n name of None \<Rightarrow> Inl (KeyError name) | Some a \<Rightarrow> Inr (attr_i a))"

definition const_operand :: "(string, interval_box) dict \<Rightarrow> node \<Rightarrow> nat \<Rightarrow> fl list option" where
  "const_operand iv n idx =
     (if idx \<ge> length (ninput n) \<or> ninput n ! idx = '''' then None
      else case dict_get iv (ninput n ! idx) of None \<Rightarrow> None
        | Some b \<Rightarrow> if list_all2 fl_eq (box_lo b) (box_hi b) then Some (box_lo b) else None)"

fun fl_trunc :: "fl \<Rightarrow> int option" where
  "fl_trunc (Fin q) = Some (if 0 \<le> q then \<lfloor>q\<rfloor> else \<lceil>q\<rceil>)"
| "fl_trunc _ = None"

definition to_ints :: "fl list option \<Rightarrow> int list option" where
  "to_ints a = (case a of None \<Rightarrow> None | Some xs \<Rightarrow> those (map fl_trunc xs))"

definition mono_dim :: "dim \<Rightarrow> (int \<Rightarrow> int) \<Rightarrow> dim res" where
  "mono_dim d f = Dim (max 0 (f (lo d))) (map_option (\<lambda>h. max 0 (f h)) (hi d)) None"

definition div_range :: "dim \<Rightarrow> int \<Rightarrow> dim res" where
  "div_range d k =
     (if k = 0 then Inl (OtherError ''ZeroDivisionError'') else Dim (lo d div k) (map_option (\<lambda>h. ceil_div h k) (hi d)) None)"

section \<open>Rules\<close>

type_synonym shapes = "shape option list"

definition unknown_outputs :: "node \<Rightarrow> shapes" where
  "unknown_outputs n = replicate (length (noutput n)) None"

text \<open>\<^verbatim>\<open>ins[i]\<close>, and \<^verbatim>\<open>ins[i] if len(ins) > i else None\<close>.\<close>

definition operand :: "shapes \<Rightarrow> nat \<Rightarrow> shape option res" where
  "operand ins i = (if i < length ins then Inr (ins ! i) else Inl (IndexError ''ins''))"

definition operand_or :: "shapes \<Rightarrow> nat \<Rightarrow> shape option" where
  "operand_or ins i = (if i < length ins then ins ! i else None)"

definition SAME_SHAPE_UNARY :: "string list" where
  "SAME_SHAPE_UNARY =
    [''Relu'', ''LeakyRelu'', ''PRelu'', ''Elu'', ''Selu'', ''Celu'', ''Gelu'', ''Sigmoid'', ''Tanh'', ''Softplus'', ''Softsign'', ''HardSigmoid'', ''HardSwish'',
     ''Mish'', ''Swish'', ''Erf'', ''Exp'', ''Log'', ''Sqrt'', ''Reciprocal'', ''Neg'', ''Abs'', ''Sign'', ''Ceil'', ''Floor'', ''Round'', ''Sin'', ''Cos'', ''Tan'', ''Asin'', ''Acos'',
     ''Atan'', ''Sinh'', ''Cosh'', ''Asinh'', ''Acosh'', ''Atanh'', ''Not'', ''IsNaN'', ''IsInf'', ''Shrink'', ''ThresholdedRelu'', ''Clip'', ''Cast'', ''CastLike'',
     ''Identity'', ''Softmax'', ''LogSoftmax'', ''Hardmax'', ''BatchNormalization'', ''InstanceNormalization'',
     ''GroupNormalization'', ''LpNormalization'', ''LRN'', ''MeanVarianceNormalization'', ''QuantizeLinear'',
     ''DequantizeLinear'', ''CumSum'', ''Trilu'', ''Bernoulli'', ''RandomNormalLike'', ''RandomUniformLike'',
     ''SimplifiedLayerNormalization'', ''RMSNormalization'', ''BiasGelu'', ''FastGelu'']"

definition BROADCAST_OPS :: "string list" where
  "BROADCAST_OPS =
    [''Pow'', ''Mod'', ''BitShift'', ''BitwiseAnd'', ''BitwiseOr'', ''BitwiseXor'', ''Xor'', ''And'', ''Or'', ''Equal'', ''Greater'', ''Less'', ''GreaterOrEqual'',
     ''LessOrEqual'', ''Sum'', ''Mean'', ''Where'']"

definition REDUCE_OPS :: "string list" where
  "REDUCE_OPS =
    [''ReduceProd'', ''ReduceL1'', ''ReduceL2'', ''ReduceLogSum'', ''ReduceLogSumExp'', ''ReduceSumSquare'', ''ReduceSum'', ''ReduceMean'', ''ReduceMax'', ''ReduceMin'']"

definition r_same :: "node \<Rightarrow> shapes \<Rightarrow> shapes res" where
  "r_same n ins = rbind (operand ins 0) (\<lambda>x. Inr (x # replicate (length (noutput n) - 1) None))"

definition r_dropout :: "node \<Rightarrow> shapes \<Rightarrow> shapes res" where
  "r_dropout n ins = rbind (operand ins 0) (\<lambda>x. Inr (x # replicate (length (noutput n) - 1) x))"

definition r_dql :: "node \<Rightarrow> shapes \<Rightarrow> shapes res" where
  "r_dql n ins = rbind (operand ins 0) (\<lambda>x. Inr [x, Some [], Some []])"

definition r_layernorm :: "node \<Rightarrow> shapes \<Rightarrow> shapes res" where
  "r_layernorm n ins =
     rbind (operand ins 0) (\<lambda>x. case x of None \<Rightarrow> Inr (unknown_outputs n)
       | Some x \<Rightarrow>
           (let a = attr_int n ''axis'' (- 1); axis = (if a < 0 then a + int (length x) else a) in
            rbind (exact 1) (\<lambda>one.
              let stat = py_upto x axis @ replicate (length (py_from x axis)) one in
              Inr (take (length (noutput n)) [Some x, Some stat, Some stat]))))"

text \<open>The shapes of the operands that are given, \<^verbatim>\<open>None\<close> when one is unknown or there is none.\<close>

definition present_shapes :: "node \<Rightarrow> shapes \<Rightarrow> shape list option" where
  "present_shapes n ins =
     (let present = map fst (filter (\<lambda>(s, name). name \<noteq> '''') (zip ins (ninput n))) in
      if present = [] then None else those present)"

definition r_broadcast :: "node \<Rightarrow> shapes \<Rightarrow> shapes res" where
  "r_broadcast n ins =
     (case present_shapes n ins of None \<Rightarrow> Inr [None] | Some shs \<Rightarrow> rbind (broadcast shs) (\<lambda>s. Inr [s]))"

definition out_size :: "int \<Rightarrow> int \<Rightarrow> bool \<Rightarrow> bool \<Rightarrow> int \<Rightarrow> int" where
  "out_size offset stride ceil same n =
     (if same then ceil_div n stride else if ceil then ceil_div (n + offset) stride + 1 else (n + offset) div stride + 1)"

text \<open>One spatial dimension; an index past a list of parameters raises.\<close>

definition int_nth :: "int list \<Rightarrow> nat \<Rightarrow> int res" where
  "int_nth xs i = (if i < length xs then Inr (xs ! i) else Inl (IndexError ''list''))"

definition spatial_dim ::
    "nat \<Rightarrow> int list \<Rightarrow> int list \<Rightarrow> int list \<Rightarrow> int list \<Rightarrow> string \<Rightarrow> bool \<Rightarrow> nat \<times> dim \<Rightarrow> dim res" where
  "spatial_dim n kern strides dil pads auto_pad ceil_mode = (\<lambda>(i, d).
     rbind (int_nth dil i) (\<lambda>dl. rbind (int_nth kern i) (\<lambda>k. rbind (int_nth strides i) (\<lambda>st.
       let k_eff = dl * (k - 1) + 1; s = max 1 st in
       if auto_pad \<in> {''SAME_UPPER'', ''SAME_LOWER''} then mono_dim d (out_size 0 s True True)
       else rbind (if auto_pad = ''VALID'' then Inr 0 else rbind (int_nth pads i) (\<lambda>p. rbind (int_nth pads (i + n)) (\<lambda>q. Inr (p + q)))) (\<lambda>tot.
         mono_dim d (out_size (tot - k_eff) s ceil_mode False))))))"

definition spatial_out ::
    "shape \<Rightarrow> int list \<Rightarrow> int list \<Rightarrow> int list \<Rightarrow> int list \<Rightarrow> string \<Rightarrow> bool \<Rightarrow> shape res" where
  "spatial_out ds kern strides dil pads auto_pad ceil_mode =
     rmap (spatial_dim (length ds) kern strides dil pads auto_pad ceil_mode) (enumerate_py ds)"

definition conv_strides :: "node \<Rightarrow> nat \<Rightarrow> int list" where
  "conv_strides n k = attr_ints_or n ''strides'' (replicate k 1)"

definition conv_dilations :: "node \<Rightarrow> nat \<Rightarrow> int list" where
  "conv_dilations n k = attr_ints_or n ''dilations'' (replicate k 1)"

definition conv_pads :: "node \<Rightarrow> nat \<Rightarrow> int list" where
  "conv_pads n k = attr_ints_or n ''pads'' (replicate (2 * k) 0)"

definition conv_auto_pad :: "node \<Rightarrow> string" where
  "conv_auto_pad n = attr_str_or n ''auto_pad'' ''NOTSET''"

text \<open>The checks that \<^verbatim>\<open>_r_conv\<close> and \<^verbatim>\<open>_r_convt\<close> share.\<close>

definition conv_operands :: "shape option \<Rightarrow> shape option \<Rightarrow> (shape \<times> shape) option" where
  "conv_operands x w =
     (case (x, w) of
        (Some x, Some w) \<Rightarrow> if length x < 3 \<or> length w \<noteq> length x \<or> \<not> is_static (drop 2 w) then None else Some (x, w)
      | _ \<Rightarrow> None)"

definition r_conv :: "node \<Rightarrow> shapes \<Rightarrow> shapes res" where
  "r_conv n ins =
     rbind (operand ins 0) (\<lambda>x.
       case conv_operands x (operand_or ins (if op_type n = ''QLinearConv'' then 3 else 1)) of None \<Rightarrow> Inr [None]
       | Some (x, w) \<Rightarrow>
           (let k = length x - 2 in
            rbind (static_dims (drop 2 w)) (\<lambda>kern.
            rbind (spatial_out (drop 2 x) kern (conv_strides n k) (conv_dilations n k) (conv_pads n k) (conv_auto_pad n) False) (\<lambda>sp.
              Inr [Some (x ! 0 # w ! 0 # sp)]))))"

definition convt_dim :: "nat \<Rightarrow> int list \<Rightarrow> int list \<Rightarrow> int list \<Rightarrow> int list \<Rightarrow> int list \<Rightarrow> nat \<times> dim \<Rightarrow> dim res" where
  "convt_dim n kern strides dil pads opad = (\<lambda>(i, d).
     rbind (int_nth strides i) (\<lambda>s. rbind (int_nth opad i) (\<lambda>op. rbind (int_nth kern i) (\<lambda>k. rbind (int_nth dil i) (\<lambda>dl.
     rbind (int_nth pads i) (\<lambda>p. rbind (int_nth pads (i + n)) (\<lambda>q.
       mono_dim d (\<lambda>v. s * (v - 1) + op + (k - 1) * dl + 1 - p - q))))))))"

definition r_convt :: "node \<Rightarrow> shapes \<Rightarrow> shapes res" where
  "r_convt n ins =
     rbind (operand ins 0) (\<lambda>x.
       case conv_operands x (operand_or ins 1) of None \<Rightarrow> Inr [None]
       | Some (x, w) \<Rightarrow>
           (let k = length x - 2 in
            rbind (static_dims (drop 2 w)) (\<lambda>kern.
            rbind (case attr_find n ''output_shape'' of
                Some a \<Rightarrow> rmap exact (attr_ints a)
              | None \<Rightarrow> rmap (convt_dim k kern (conv_strides n k) (conv_dilations n k) (conv_pads n k)
                    (attr_ints_or n ''output_padding'' (replicate k 0))) (enumerate_py (drop 2 x))) (\<lambda>sp.
            if \<not> is_exact (w ! 1) then Inr [None]
            else rbind (dim_value (w ! 1)) (\<lambda>m. rbind (exact (m * attr_int n ''group'' 1)) (\<lambda>c. Inr [Some (x ! 0 # c # sp)]))))))"

definition r_pool :: "node \<Rightarrow> shapes \<Rightarrow> shapes res" where
  "r_pool n ins =
     rbind (operand ins 0) (\<lambda>x.
       case x of None \<Rightarrow> Inr (unknown_outputs n)
       | Some x \<Rightarrow>
           if length x < 3 then Inr (unknown_outputs n)
           else (let k = length x - 2 in
             rbind (attr_get_ints n ''kernel_shape'') (\<lambda>kern.
             rbind (spatial_out (drop 2 x) kern (conv_strides n k) (conv_dilations n k) (conv_pads n k) (conv_auto_pad n) (attr_int n ''ceil_mode'' 0 \<noteq> 0)) (\<lambda>sp.
               let y = Some (x ! 0 # x ! 1 # sp) in Inr (y # replicate (length (noutput n) - 1) y)))))"

definition r_gpool :: "node \<Rightarrow> shapes \<Rightarrow> shapes res" where
  "r_gpool n ins =
     rbind (operand ins 0) (\<lambda>x.
       case x of None \<Rightarrow> Inr [None]
       | Some x \<Rightarrow> if length x < 2 then Inr [None]
           else rbind (exact 1) (\<lambda>one. Inr [Some (take 2 x @ replicate (length (drop 2 x)) one)]))"

definition r_gemm :: "node \<Rightarrow> shapes \<Rightarrow> shapes res" where
  "r_gemm n ins =
     rbind (operand ins 0) (\<lambda>a.
       case (a, operand_or ins 1) of
         (Some a, Some b) \<Rightarrow>
           if length a \<noteq> 2 \<or> length b \<noteq> 2 then Inr [None]
           else Inr [Some [if attr_int n ''transA'' 0 \<noteq> 0 then a ! 1 else a ! 0, if attr_int n ''transB'' 0 \<noteq> 0 then b ! 0 else b ! 1]]
       | _ \<Rightarrow> Inr [None])"

definition r_matmul :: "shape option \<Rightarrow> shape option \<Rightarrow> shapes res" where
  "r_matmul a b = (case (a, b) of (Some a, Some b) \<Rightarrow> rbind (matmul_shape a b) (\<lambda>s. Inr [s]) | _ \<Rightarrow> Inr [None])"

definition r_matmulint :: "node \<Rightarrow> shapes \<Rightarrow> shapes res" where
  "r_matmulint n ins = rbind (operand ins 0) (\<lambda>a. case a of None \<Rightarrow> Inr [None] | Some _ \<Rightarrow> rbind (operand ins 1) (\<lambda>b. r_matmul a b))"

definition r_qlmm :: "node \<Rightarrow> shapes \<Rightarrow> shapes res" where
  "r_qlmm n ins = rbind (operand ins 0) (\<lambda>a. r_matmul a (operand_or ins 3))"

definition r_gather :: "node \<Rightarrow> shapes \<Rightarrow> shapes res" where
  "r_gather n ins =
     rbind (operand ins 0) (\<lambda>a. case (a, operand_or ins 1) of
         (Some d, Some i) \<Rightarrow> rbind (gather d i (attr_int n ''axis'' 0)) (\<lambda>s. Inr [Some s]) | _ \<Rightarrow> Inr [None])"

definition r_gather_nd :: "node \<Rightarrow> shapes \<Rightarrow> shapes res" where
  "r_gather_nd n ins =
     rbind (operand ins 0) (\<lambda>a. case (a, operand_or ins 1) of
         (Some d, Some i) \<Rightarrow> rbind (gather_nd d i (attr_int n ''batch_dims'' 0)) (\<lambda>s. Inr [s]) | _ \<Rightarrow> Inr [None])"

definition r_transpose :: "node \<Rightarrow> shapes \<Rightarrow> shapes res" where
  "r_transpose n ins =
     rbind (operand ins 0) (\<lambda>a. case a of None \<Rightarrow> Inr [None]
       | Some x \<Rightarrow> rbind (transpose_shape x (map_option attr_ints (attr_find n ''perm''))) (\<lambda>s. Inr [Some s]))"

definition r_concat :: "node \<Rightarrow> shapes \<Rightarrow> shapes res" where
  "r_concat n ins =
     (case present_shapes n ins of None \<Rightarrow> Inr [None]
      | Some shs \<Rightarrow> rbind (attr_get_int n ''axis'') (\<lambda>axis. rbind (concat_shapes shs axis) (\<lambda>s. Inr [s])))"

definition r_flatten :: "node \<Rightarrow> shapes \<Rightarrow> shapes res" where
  "r_flatten n ins =
     rbind (operand ins 0) (\<lambda>a. case a of None \<Rightarrow> Inr [None] | Some x \<Rightarrow> rbind (flatten x (attr_int n ''axis'' 1)) (\<lambda>s. Inr [Some s]))"

definition squeeze_axes :: "(string, interval_box) dict \<Rightarrow> node \<Rightarrow> int list option" where
  "squeeze_axes iv n =
     (case to_ints (const_operand iv n 1) of Some as \<Rightarrow> Some as
      | None \<Rightarrow> map_option attr_ints (attr_find n ''axes''))"

definition r_squeeze :: "(string, interval_box) dict \<Rightarrow> node \<Rightarrow> shapes \<Rightarrow> shapes res" where
  "r_squeeze iv n ins =
     rbind (operand ins 0) (\<lambda>a. case a of None \<Rightarrow> Inr [None]
       | Some x \<Rightarrow>
           if op_type n = ''Unsqueeze'' then
             (case squeeze_axes iv n of None \<Rightarrow> Inr [None] | Some as \<Rightarrow> rbind (unsqueeze x as) (\<lambda>s. Inr [Some s]))
           else rbind (squeeze x (squeeze_axes iv n)) (\<lambda>s. Inr [s]))"

text \<open>\<open>rnd\<close> is the rounding of a product of doubles.\<close>

definition scaled_dim :: "(rat \<Rightarrow> rat) \<Rightarrow> dim \<Rightarrow> fl \<Rightarrow> dim option res" where
  "scaled_dim rnd d s =
     (case s of
        Fin q \<Rightarrow>
          if q < 0 then Inr None
          else if q = of_int \<lfloor>q\<rfloor> then rmap_opt (mono_dim d (\<lambda>v. v * \<lfloor>q\<rfloor>))
          else rmap_opt (Dim (max 0 (\<lfloor>rnd (of_int (lo d) * q)\<rfloor> - 1)) (map_option (\<lambda>h. \<lfloor>rnd (of_int h * q)\<rfloor> + 1) (hi d)) None)
      | _ \<Rightarrow> Inr None)"

fun scaled_dims :: "(rat \<Rightarrow> rat) \<Rightarrow> (dim \<times> fl) list \<Rightarrow> shape option res" where
  "scaled_dims rnd [] = Inr (Some [])"
| "scaled_dims rnd ((d, s) # r) = bind_opt (scaled_dim rnd d s) (\<lambda>x. bind_opt (scaled_dims rnd r) (\<lambda>xs. Inr (Some (x # xs))))"

definition r_resize :: "(rat \<Rightarrow> rat) \<Rightarrow> (string, interval_box) dict \<Rightarrow> node \<Rightarrow> shapes \<Rightarrow> shapes res" where
  "r_resize rnd iv n ins =
     rbind (operand ins 0) (\<lambda>x.
       case x of None \<Rightarrow> Inr [None]
       | Some x \<Rightarrow>
           if attr_find n ''axes'' \<noteq> None then Inr [None]
           else case (case to_ints (const_operand iv n 3) of Some sizes \<Rightarrow> if length sizes = length x then Some sizes else None | None \<Rightarrow> None) of
             Some sizes \<Rightarrow> rbind (rmap exact sizes) (\<lambda>s. Inr [Some s])
           | None \<Rightarrow>
               (case const_operand iv n (if op_type n = ''Upsample'' \<or> length (ninput n) = 2 then 1 else 2) of
                  None \<Rightarrow> Inr [None]
                | Some sc \<Rightarrow> if length sc \<noteq> length x then Inr [None] else rbind (scaled_dims rnd (zip x sc)) (\<lambda>s. Inr [s])))"

definition axis_of :: "int \<Rightarrow> 'a list \<Rightarrow> int" where
  "axis_of a x = (if a < 0 then a + int (length x) else a)"

definition with_axis :: "shape \<Rightarrow> int \<Rightarrow> dim \<Rightarrow> shape" where
  "with_axis x axis d = py_upto x axis @ d # py_from x (axis + 1)"

definition split_sizes :: "(string, interval_box) dict \<Rightarrow> node \<Rightarrow> int list option" where
  "split_sizes iv n =
     (case to_ints (const_operand iv n 1) of Some s \<Rightarrow> Some s | None \<Rightarrow> map_option attr_ints (attr_find n ''split''))"

definition r_split :: "(string, interval_box) dict \<Rightarrow> node \<Rightarrow> shapes \<Rightarrow> shapes res" where
  "r_split iv n ins =
     rbind (operand ins 0) (\<lambda>x.
       case x of None \<Rightarrow> Inr (unknown_outputs n)
       | Some x \<Rightarrow>
           (let nout = length (noutput n); axis = axis_of (attr_int n ''axis'' 0) x in
            case (case split_sizes iv n of Some s \<Rightarrow> if length s = nout then Some s else None | None \<Rightarrow> None) of
              Some sizes \<Rightarrow> rmap (\<lambda>s. rbind (exact s) (\<lambda>d. Inr (Some (with_axis x axis d)))) sizes
            | None \<Rightarrow>
                rbind (py_nth x axis) (\<lambda>d. rbind (div_range d (attr_int n ''num_outputs'' (int nout))) (\<lambda>each.
                  Inr (replicate nout (Some (with_axis x axis each)))))))"

text \<open>\<^verbatim>\<open>Some None\<close>: no axes are given, so all are reduced; \<^verbatim>\<open>None\<close>: they are not known.\<close>

definition reduce_axes :: "(string, interval_box) dict \<Rightarrow> node \<Rightarrow> int list option option" where
  "reduce_axes iv n =
     (if length (ninput n) > 1 \<and> ninput n ! 1 \<noteq> '''' then map_option Some (to_ints (const_operand iv n 1))
      else Some (map_option attr_ints (attr_find n ''axes'')))"

definition r_reduce :: "(string, interval_box) dict \<Rightarrow> node \<Rightarrow> shapes \<Rightarrow> shapes res" where
  "r_reduce iv n ins =
     rbind (operand ins 0) (\<lambda>x.
       case x of None \<Rightarrow> Inr [None]
       | Some x \<Rightarrow>
           (case reduce_axes iv n of None \<Rightarrow> Inr [None]
            | Some axes \<Rightarrow>
                if axes = Some [] \<and> attr_int n ''noop_with_empty_axes'' 0 \<noteq> 0 then Inr [Some x]
                else rbind (reduce_shape x axes (attr_int n ''keepdims'' 1 \<noteq> 0)) (\<lambda>s. Inr [Some s])))"

definition r_argmax :: "node \<Rightarrow> shapes \<Rightarrow> shapes res" where
  "r_argmax n ins =
     rbind (operand ins 0) (\<lambda>x. case x of None \<Rightarrow> Inr [None]
       | Some x \<Rightarrow> rbind (reduce_shape x (Some [attr_int n ''axis'' 0]) (attr_int n ''keepdims'' 1 \<noteq> 0)) (\<lambda>s. Inr [Some s]))"

definition r_scatter :: "node \<Rightarrow> shapes \<Rightarrow> shapes res" where
  "r_scatter n ins = rbind (operand ins 0) (\<lambda>x. Inr [x])"

definition r_gather_elements :: "node \<Rightarrow> shapes \<Rightarrow> shapes res" where
  "r_gather_elements n ins = Inr [operand_or ins 1]"

definition r_d2s :: "node \<Rightarrow> shapes \<Rightarrow> shapes res" where
  "r_d2s n ins =
     rbind (operand ins 0) (\<lambda>x. case x of None \<Rightarrow> Inr [None]
       | Some x \<Rightarrow> if length x \<noteq> 4 then Inr [None]
           else rbind (attr_get_int n ''blocksize'') (\<lambda>b. rbind (div_range (x ! 1) (b * b)) (\<lambda>c.
             rbind (mono_dim (x ! 2) (\<lambda>v. v * b)) (\<lambda>h. rbind (mono_dim (x ! 3) (\<lambda>v. v * b)) (\<lambda>w. Inr [Some [x ! 0, c, h, w]])))))"

definition r_s2d :: "node \<Rightarrow> shapes \<Rightarrow> shapes res" where
  "r_s2d n ins =
     rbind (operand ins 0) (\<lambda>x. case x of None \<Rightarrow> Inr [None]
       | Some x \<Rightarrow> if length x \<noteq> 4 then Inr [None]
           else rbind (attr_get_int n ''blocksize'') (\<lambda>b. rbind (mono_dim (x ! 1) (\<lambda>v. v * b * b)) (\<lambda>c.
             rbind (div_range (x ! 2) b) (\<lambda>h. rbind (div_range (x ! 3) b) (\<lambda>w. Inr [Some [x ! 0, c, h, w]])))))"

definition r_onehot :: "(string, interval_box) dict \<Rightarrow> node \<Rightarrow> shapes \<Rightarrow> shapes res" where
  "r_onehot iv n ins =
     rbind (operand ins 0) (\<lambda>x.
       case (x, to_ints (const_operand iv n 1)) of
         (Some idx, Some [depth]) \<Rightarrow>
           (let axis = attr_int n ''axis'' (- 1); pos = (if axis < 0 then axis + int (length idx) + 1 else axis) in
            rbind (exact depth) (\<lambda>d. Inr [Some (py_upto idx pos @ d # py_from idx pos)]))
       | _ \<Rightarrow> Inr [None])"

definition r_gridsample :: "node \<Rightarrow> shapes \<Rightarrow> shapes res" where
  "r_gridsample n ins =
     rbind (operand ins 0) (\<lambda>x. case (x, operand_or ins 1) of
         (Some x, Some g) \<Rightarrow> if length x \<noteq> 4 \<or> length g \<noteq> 4 then Inr [None] else Inr [Some [x ! 0, x ! 1, g ! 1, g ! 2]]
       | _ \<Rightarrow> Inr [None])"

definition r_roialign :: "node \<Rightarrow> shapes \<Rightarrow> shapes res" where
  "r_roialign n ins =
     rbind (operand ins 0) (\<lambda>x. case (x, operand_or ins 1) of
         (Some x, Some rois) \<Rightarrow> if length x \<noteq> 4 \<or> length rois \<noteq> 2 then Inr [None]
           else rbind (exact (attr_int n ''output_height'' 1)) (\<lambda>h. rbind (exact (attr_int n ''output_width'' 1)) (\<lambda>w. Inr [Some [rois ! 0, x ! 1, h, w]]))
       | _ \<Rightarrow> Inr [None])"

text \<open>\<^verbatim>\<open>s.split(c)\<close>, and \<^verbatim>\<open>s.partition('->')\<close>, whose last part is empty when there is no arrow.\<close>

fun split_char :: "char \<Rightarrow> string \<Rightarrow> string list" where
  "split_char c [] = [[]]"
| "split_char c (x # xs) =
     (if x = c then [] # split_char c xs else (case split_char c xs of [] \<Rightarrow> [[x]] | p # ps \<Rightarrow> (x # p) # ps))"

fun split_arrow :: "string \<Rightarrow> string \<times> string" where
  "split_arrow [] = ([], [])"
| "split_arrow [x] = ([x], [])"
| "split_arrow (x # y # s) = (if x = CHR ''-'' \<and> y = CHR ''>'' then ([], s) else (case split_arrow (y # s) of (l, r) \<Rightarrow> (x # l, r)))"

fun has_dots :: "string \<Rightarrow> bool" where
  "has_dots (x # y # z # s) = (x = CHR ''.'' \<and> y = CHR ''.'' \<and> z = CHR ''.'' \<or> has_dots (y # z # s))"
| "has_dots _ = False"

fun label_dims :: "(char, dim) dict \<Rightarrow> (char \<times> dim) list \<Rightarrow> (char, dim) dict res" where
  "label_dims lab [] = Inr lab"
| "label_dims lab ((ch, d) # r) =
     rbind (case dict_get lab ch of None \<Rightarrow> Inr d | Some e \<Rightarrow> dim_hull e d) (\<lambda>x. label_dims (dict_set ch x lab) r)"

fun term_dims :: "(char, dim) dict \<Rightarrow> (string \<times> shape) list \<Rightarrow> (char, dim) dict option res" where
  "term_dims lab [] = Inr (Some lab)"
| "term_dims lab ((tm, shp) # r) =
     (if length tm \<noteq> length shp then Inr None else rbind (label_dims lab (zip tm shp)) (\<lambda>lab2. term_dims lab2 r))"

definition label_size :: "(char, dim) dict \<Rightarrow> char \<Rightarrow> dim res" where
  "label_size lab ch = (case dict_get lab ch of None \<Rightarrow> Inl (KeyError [ch]) | Some d \<Rightarrow> Inr d)"

definition einsum_terms :: "node \<Rightarrow> string list \<times> string" where
  "einsum_terms n = (let eq = filter (\<lambda>c. c \<noteq> CHR '' '') (attr_str_or n ''equation'' ''''); (l, r) = split_arrow eq in (split_char (CHR '','') l, r))"

definition r_einsum :: "node \<Rightarrow> shapes \<Rightarrow> shapes res" where
  "r_einsum n ins =
     (let eq = filter (\<lambda>c. c \<noteq> CHR '' '') (attr_str_or n ''equation'' ''''); (terms, rhs) = einsum_terms n in
      if has_dots eq \<or> None \<in> set (take (length (ninput n)) ins) then Inr [None]
      else if length terms \<noteq> length ins \<or> rhs = '''' then Inr [None]
      else case those ins of None \<Rightarrow> Inr [None]
      | Some shs \<Rightarrow> rbind (term_dims [] (zip terms shs)) (\<lambda>sz.
          case sz of None \<Rightarrow> Inr [None] | Some lab \<Rightarrow> rbind (rmap (label_size lab) rhs) (\<lambda>s. Inr [Some s])))"

section \<open>The table of rules\<close>

definition apply_rule :: "(rat \<Rightarrow> rat) \<Rightarrow> (string, interval_box) dict \<Rightarrow> node \<Rightarrow> shapes \<Rightarrow> shapes res option" where
  "apply_rule rnd iv n ins =
     (let t = op_type n in
      if t \<in> set SAME_SHAPE_UNARY then Some (r_same n ins)
      else if t = ''Dropout'' then Some (r_dropout n ins)
      else if t = ''DynamicQuantizeLinear'' then Some (r_dql n ins)
      else if t = ''LayerNormalization'' then Some (r_layernorm n ins)
      else if t \<in> set BROADCAST_OPS then Some (r_broadcast n ins)
      else if t \<in> {''Conv'', ''ConvInteger'', ''QLinearConv''} then Some (r_conv n ins)
      else if t = ''ConvTranspose'' then Some (r_convt n ins)
      else if t \<in> {''MaxPool'', ''AveragePool'', ''LpPool''} then Some (r_pool n ins)
      else if t \<in> {''GlobalAveragePool'', ''GlobalMaxPool'', ''GlobalLpPool''} then Some (r_gpool n ins)
      else if t = ''Gemm'' then Some (r_gemm n ins)
      else if t \<in> {''MatMul'', ''MatMulInteger''} then Some (r_matmulint n ins)
      else if t = ''Gather'' then Some (r_gather n ins)
      else if t = ''GatherND'' then Some (r_gather_nd n ins)
      else if t = ''Transpose'' then Some (r_transpose n ins)
      else if t = ''Concat'' then Some (r_concat n ins)
      else if t = ''Flatten'' then Some (r_flatten n ins)
      else if t \<in> {''Squeeze'', ''Unsqueeze''} then Some (r_squeeze iv n ins)
      else if t = ''QLinearMatMul'' then Some (r_qlmm n ins)
      else if t \<in> {''Resize'', ''Upsample''} then Some (r_resize rnd iv n ins)
      else if t = ''Split'' then Some (r_split iv n ins)
      else if t \<in> set REDUCE_OPS then Some (r_reduce iv n ins)
      else if t \<in> {''ArgMax'', ''ArgMin''} then Some (r_argmax n ins)
      else if t \<in> {''ScatterND'', ''ScatterElements'', ''Scatter''} then Some (r_scatter n ins)
      else if t = ''GatherElements'' then Some (r_gather_elements n ins)
      else if t = ''DepthToSpace'' then Some (r_d2s n ins)
      else if t = ''SpaceToDepth'' then Some (r_s2d n ins)
      else if t = ''OneHot'' then Some (r_onehot iv n ins)
      else if t = ''GridSample'' then Some (r_gridsample n ins)
      else if t = ''RoiAlign'' then Some (r_roialign n ins)
      else if t = ''Einsum'' then Some (r_einsum n ins)
      else None)"

definition shape_fallback :: "(rat \<Rightarrow> rat) \<Rightarrow> (string, interval_box) dict \<Rightarrow> node \<Rightarrow> shapes \<Rightarrow> shapes res" where
  "shape_fallback rnd iv n ins =
     (if \<not> is_std_domain n then Inr (unknown_outputs n)
      else case apply_rule rnd iv n ins of
        None \<Rightarrow> Inr (unknown_outputs n)
      | Some r \<Rightarrow> rbind r (\<lambda>out. Inr (out @ replicate (length (noutput n) - length out) None)))"

text \<open>
  \<^verbatim>\<open>_apply_shape_fallback\<close> of \<^verbatim>\<open>onnxsim/interval.py\<close>: outputs of the node that are still unknown get the shapes the rule states, with an unbounded
  value hull; a rule that raises changes nothing.
\<close>

definition known_shape :: "interval_result \<Rightarrow> string \<Rightarrow> shape option res" where
  "known_shape r x =
     (if x = [] then Inr None
      else case dict_get (ranged r) x of Some t \<Rightarrow> Inr (Some (rt_shape t))
        | None \<Rightarrow> (case dict_get (intervals r) x of Some b \<Rightarrow> rmap_opt (from_ints (box_shape b)) | None \<Rightarrow> Inr None))"

definition record_shape :: "interval_result \<Rightarrow> string \<times> shape option \<Rightarrow> interval_result" where
  "record_shape r = (\<lambda>(out, sh).
     case sh of None \<Rightarrow> r
     | Some s \<Rightarrow> if out = [] \<or> dict_get (intervals r) out \<noteq> None \<or> dict_get (ranged r) out \<noteq> None then r
         else r\<lparr>ranged := dict_set out \<lparr>rt_shape = s, rt_hull = (NInf, PInf)\<rparr> (ranged r)\<rparr>)"

definition apply_shape_fallback :: "(rat \<Rightarrow> rat) \<Rightarrow> node \<Rightarrow> interval_result \<Rightarrow> interval_result res" where
  "apply_shape_fallback rnd n r =
     rbind (rmap (known_shape r) (ninput n)) (\<lambda>ins.
       Inr (case shape_fallback rnd (intervals r) n ins of
          Inl _ \<Rightarrow> r
        | Inr outs \<Rightarrow> foldl record_shape r (zip (noutput n) outs)))"

end
