(* ===== verification/Cost_Rules_Sound.thy ===== *)
theory Cost_Rules_Sound
  imports Cost_Rules
begin

text \<open>
  The shape rules against the operators' shapes. \<open>onnx_shape\<close> says, from the ONNX operator documentation, which shapes the outputs of a node have when its
  operands have given dimensions and, where the shape depends on them, given values; it is undefined where a node is not valid. The contract of a rule in
  \<^verbatim>\<open>onnxsim/interval.py\<close> is that the dimensions it returns contain those of every valid execution.
\<close>

section \<open>Runs of a node\<close>

definition shape_in :: "shape option \<Rightarrow> int list \<Rightarrow> bool" where
  "shape_in s d \<longleftrightarrow> (\<forall>sh. s = Some sh \<longrightarrow> inshape sh d)"

text \<open>Every shape that is stated holds; a rule may state fewer or more outputs than the specification.\<close>

fun covers_all :: "shapes \<Rightarrow> int list list \<Rightarrow> bool" where
  "covers_all (s # ss) (y # ys) \<longleftrightarrow> shape_in s y \<and> covers_all ss ys"
| "covers_all _ _ \<longleftrightarrow> True"

text \<open>The values of an operand, truncated to integers where the operator reads integers.\<close>

definition trunc_rat :: "rat \<Rightarrow> int" where
  "trunc_rat q = (if 0 \<le> q then \<lfloor>q\<rfloor> else \<lceil>q\<rceil>)"

definition int_values :: "(nat \<Rightarrow> rat list) \<Rightarrow> nat \<Rightarrow> int list" where
  "int_values vals i = map trunc_rat (vals i)"

definition values_in :: "(string, interval_box) dict \<Rightarrow> node \<Rightarrow> (nat \<Rightarrow> rat list) \<Rightarrow> bool" where
  "values_in iv n vals \<longleftrightarrow> (\<forall>i c. const_operand iv n i = Some c \<longrightarrow> c = map Fin (vals i))"

definition given :: "node \<Rightarrow> nat \<Rightarrow> bool" where
  "given n i \<longleftrightarrow> i < length (ninput n) \<and> ninput n ! i \<noteq> ''''"

definition dims_at :: "int list list \<Rightarrow> nat \<Rightarrow> int list" where
  "dims_at xs i = (if i < length xs then xs ! i else [])"

abbreviation operands_in :: "shapes \<Rightarrow> int list list \<Rightarrow> bool" where
  "operands_in \<equiv> list_all2 shape_in"

lemma shape_in_simps [simp]: "shape_in None d" "shape_in (Some sh) d \<longleftrightarrow> inshape sh d"
  by (auto simp: shape_in_def)

lemma covers_simps [simp]: "covers_all [] ys" "covers_all ss []"
  by (cases ss; simp)+

lemma covers_iff: "covers_all ss ys \<longleftrightarrow> (\<forall>(s, y) \<in> set (zip ss ys). shape_in s y)"
  by (induction ss ys rule: covers_all.induct) auto

lemma covers_nth: "covers_all ss ys \<longleftrightarrow> (\<forall>i < length ss. i < length ys \<longrightarrow> shape_in (ss ! i) (ys ! i))"
  by (force simp: covers_iff set_zip)

lemma covers_pad: "covers_all out ys \<Longrightarrow> covers_all (out @ replicate k None) ys"
  by (auto simp: covers_nth nth_append)

lemma covers_same: "shape_in s y \<Longrightarrow> \<forall>z \<in> set ys. z = y \<Longrightarrow> covers_all (replicate k s) ys"
  by (auto simp: covers_nth)

lemma operand_in: "operands_in ins xs \<Longrightarrow> operand ins i = Inr s \<Longrightarrow> shape_in s (dims_at xs i)"
  by (auto simp: operand_def dims_at_def list_all2_conv_all_nth split: if_splits)

lemma operand_or_in: "operands_in ins xs \<Longrightarrow> shape_in (operand_or ins i) (dims_at xs i)"
  by (auto simp: operand_or_def dims_at_def list_all2_conv_all_nth)

lemma rgivesD: "rgives r P \<Longrightarrow> r = Inr x \<Longrightarrow> P x"
  by (simp add: rgives_def)

lemma rsomeD: "rsome r P \<Longrightarrow> r = Inr s \<Longrightarrow> \<exists>x. s = Some x \<and> P x"
  by (auto simp: rsome_def)

lemma rmaybeD: "rmaybe r P \<Longrightarrow> r = Inr (Some x) \<Longrightarrow> P x"
  by (auto simp: rmaybe_def)

lemma to_ints_values: "values_in iv n vals \<Longrightarrow> to_ints (const_operand iv n i) = Some is \<Longrightarrow> is = int_values vals i \<and> given n i"
proof -
  assume v: "values_in iv n vals" and t: "to_ints (const_operand iv n i) = Some is"
  obtain c where c: "const_operand iv n i = Some c" using t by (auto simp: to_ints_def split: option.splits)
  then have "c = map Fin (vals i)" using v by (auto simp: values_in_def)
  moreover have "those (map fl_trunc (map Fin qs)) = Some (map trunc_rat qs)" for qs by (induction qs) (auto simp: trunc_rat_def)
  ultimately show ?thesis using t c by (auto simp: to_ints_def int_values_def given_def const_operand_def split: if_splits)
qed

text \<open>A non-decreasing size function on a range, and division by a factor.\<close>

lemma mono_dim_sound:
  assumes "inside d n" "\<And>a b. a \<le> b \<Longrightarrow> f a \<le> f b" "0 \<le> f n"
  shows "rgives (mono_dim d f) (\<lambda>e. inside e (f n))"
  unfolding mono_dim_def by (rule inside_Dim) (use assms in \<open>auto simp: inside_def le_max_iff_disj\<close>)


lemma ceil_div_exact: "0 < k \<Longrightarrow> ceil_div (m * k) k = m"
  by (simp add: ceil_div_def minus_mult_left del: mult_minus_left)

lemma div_range_sound:
  assumes "inside d n" "0 < k" "n = m * k"
  shows "rgives (div_range d k) (\<lambda>e. inside e m)"
proof -
  have m: "0 \<le> m" using assms inside_nonneg [OF assms(1)] by (simp add: zero_le_mult_iff)
  have "lo d div k \<le> m" using assms zdiv_mono1 [of "lo d" n k] by (auto simp: inside_def)
  moreover have "m \<le> ceil_div h k" if "hi d = Some h" for h
  proof -
    show ?thesis using ceil_div_mono [of k n h] ceil_div_exact assms that by (auto simp: inside_def)
  qed
  ultimately have "rgives (Dim (lo d div k) (map_option (\<lambda>h. ceil_div h k) (hi d)) None) (\<lambda>e. inside e m)"
    using m by (intro inside_Dim) auto
  then show ?thesis using assms(2) by (simp add: div_range_def)
qed

definition rule_sound :: "shapes res \<Rightarrow> int list list option \<Rightarrow> bool" where
  "rule_sound r y \<longleftrightarrow> (\<forall>out ys. r = Inr out \<longrightarrow> y = Some ys \<longrightarrow> (\<forall>z \<in> set ys. \<forall>v \<in> set z. 0 \<le> v) \<longrightarrow> covers_all out ys)"

lemma rule_soundI: "(\<And>out ys. r = Inr out \<Longrightarrow> y = Some ys \<Longrightarrow> \<forall>z \<in> set ys. \<forall>v \<in> set z. 0 \<le> v \<Longrightarrow> covers_all out ys) \<Longrightarrow> rule_sound r y"
  by (auto simp: rule_sound_def)

lemma rule_sound_None [simp]: "rule_sound r None" "rule_sound (Inr [None]) y" "rule_sound (Inr (unknown_outputs n)) y"
  by (auto simp: rule_sound_def unknown_outputs_def covers_iff dest: set_zip_leftD)

text \<open>The first operand of most rules.\<close>

lemma rule_sound_first:
  assumes ins: "operands_in ins xs" and "\<And>x. inshape x (dims_at xs 0) \<Longrightarrow> rule_sound (f (Some x)) y" "rule_sound (f None) y"
  shows "rule_sound (rbind (operand ins 0) f) y"
  using operand_in [OF ins] assms(2,3) by (cases "operand ins 0"; cases "projr (operand ins 0)") (fastforce simp: rule_sound_def)+

text \<open>Two operands.\<close>

lemma rule_sound_both:
  assumes ins: "operands_in ins xs"
    and "\<And>x w. inshape x (dims_at xs 0) \<Longrightarrow> inshape w (dims_at xs i) \<Longrightarrow> rule_sound (f x w) y"
  shows "rule_sound (rbind (operand ins 0) (\<lambda>a. case (a, operand_or ins i) of (Some x, Some w) \<Rightarrow> f x w | _ \<Rightarrow> Inr [None])) y"
  by (rule rule_sound_first [OF ins]) (use assms(2) operand_or_in [OF ins, of i] in \<open>auto split: option.splits\<close>)

lemma rule_sound_gives: "rgives r (\<lambda>s. inshape s z) \<Longrightarrow> rule_sound (rbind r (\<lambda>s. Inr [Some s])) (Some [z])"
  by (auto simp: rule_sound_def rgives_def)

lemma rule_sound_some: "rsome r (\<lambda>s. inshape s z) \<Longrightarrow> rule_sound (rbind r (\<lambda>s. Inr [s])) (Some [z])"
  by (auto simp: rule_sound_def rsome_def rgives_def)

lemma rule_sound_maybe: "rmaybe r (\<lambda>s. inshape s z) \<Longrightarrow> rule_sound (rbind r (\<lambda>s. Inr [s])) (Some [z])"
  by (auto simp: rule_sound_def rmaybe_def rgives_def)

section \<open>Shapes kept and broadcast\<close>

lemma r_same_sound: "operands_in ins xs \<Longrightarrow> rule_sound (r_same n ins) (Some [dims_at xs 0])"
  unfolding r_same_def by (rule rule_sound_first) (auto simp: rule_sound_def)

lemma r_dropout_sound: "operands_in ins xs \<Longrightarrow> rule_sound (r_dropout n ins) (Some [dims_at xs 0, dims_at xs 0])"
  unfolding r_dropout_def by (rule rule_sound_first) (auto simp: rule_sound_def intro!: covers_same)

lemma r_dql_sound: "operands_in ins xs \<Longrightarrow> rule_sound (r_dql n ins) (Some [dims_at xs 0, [], []])"
  unfolding r_dql_def by (rule rule_sound_first) (auto simp: rule_sound_def inshape_def)

lemma r_scatter_sound: "operands_in ins xs \<Longrightarrow> rule_sound (r_scatter n ins) (Some [dims_at xs 0])"
  unfolding r_scatter_def by (rule rule_sound_first) (auto simp: rule_sound_def)

lemma r_gather_elements_sound: "operands_in ins xs \<Longrightarrow> rule_sound (r_gather_elements n ins) (Some [dims_at xs 1])"
  using operand_or_in [of ins xs 1] by (auto simp: r_gather_elements_def rule_sound_def)

text \<open>Statistics of a layer normalization: size one from the axis on.\<close>

definition spec_layernorm :: "node \<Rightarrow> int list list \<Rightarrow> int list list option" where
  "spec_layernorm n xs =
     (let x = dims_at xs 0; stat = py_upto x (axis_of (attr_int n ''axis'' (- 1)) x) @ replicate (length (py_from x (axis_of (attr_int n ''axis'' (- 1)) x))) 1 in
      Some [x, stat, stat])"

lemma inshape_cut: "inshape s d \<Longrightarrow> inshape (py_upto s k) (py_upto d k)" "inshape s d \<Longrightarrow> inshape (py_from s k) (py_from d k)"
  by (simp_all add: py_upto_def py_from_def inshape_length inshape_take_drop)

lemma inshape_ones: "inside one 1 \<Longrightarrow> inshape s d \<Longrightarrow> inshape (replicate (length s) one) (replicate (length d) 1)"
  by (simp add: inshape_length inshape_def inside_replicate)

lemma r_layernorm_sound:
  assumes "operands_in ins xs"
  shows "rule_sound (r_layernorm n ins) (spec_layernorm n xs)"
  unfolding r_layernorm_def
proof (rule rule_sound_first [OF assms])
  fix x assume x: "inshape x (dims_at xs 0)"
  let ?a = "axis_of (attr_int n ''axis'' (- 1)) x"
  have ax: "axis_of (attr_int n ''axis'' (- 1)) (dims_at xs 0) = ?a" using inshape_length [OF x] by (simp add: axis_of_def)
  have "inshape (py_upto x ?a @ replicate (length (py_from x ?a)) \<lparr>lo = 1, hi = Some 1, dsym = None\<rparr>)
      (py_upto (dims_at xs 0) ?a @ replicate (length (py_from (dims_at xs 0) ?a)) 1)"
    by (intro inshape_append inshape_cut(1) [OF x] inshape_ones [OF _ inshape_cut(2) [OF x]]) (simp add: inside_one)
  then have "covers_all (take k [Some x, Some s, Some s]) [dims_at xs 0, z, z]"
    if "s = py_upto x ?a @ replicate (length (py_from x ?a)) \<lparr>lo = 1, hi = Some 1, dsym = None\<rparr>"
      "z = py_upto (dims_at xs 0) ?a @ replicate (length (py_from (dims_at xs 0) ?a)) 1" for s z k
    using x that by (cases k; cases "k - 1"; cases "k - 2") (auto simp: numeral_2_eq_2)
  then show "rule_sound (case Some x of None \<Rightarrow> Inr (unknown_outputs n)
       | Some x \<Rightarrow> (let a = attr_int n ''axis'' (- 1); axis = (if a < 0 then a + int (length x) else a) in
            rbind (exact 1) (\<lambda>one. let stat = py_upto x axis @ replicate (length (py_from x axis)) one in
              Inr (take (length (noutput n)) [Some x, Some stat, Some stat])))) (spec_layernorm n xs)"
    unfolding spec_layernorm_def Let_def ax axis_of_def [symmetric] by (auto simp: rule_sound_def exact_one axis_of_def)
qed simp

definition given_dims :: "node \<Rightarrow> int list list \<Rightarrow> int list list" where
  "given_dims n xs = map fst (filter (\<lambda>(x, name). name \<noteq> '''') (zip xs (ninput n)))"

definition np_broadcast_all :: "int list list \<Rightarrow> int list option" where
  "np_broadcast_all ds =
     (case ds of [] \<Rightarrow> None | d # r \<Rightarrow> foldl (\<lambda>a x. Option.bind a (\<lambda>z. np_broadcast z x)) (Some d) r)"

lemma present_in:
  assumes "operands_in ins xs" "present_shapes n ins = Some shs"
  shows "list_all2 inshape shs (given_dims n xs)" "shs \<noteq> []"
proof -
  have zip: "list_all2 shape_in (map fst (filter (\<lambda>(s, name). name \<noteq> '''') (zip ins names))) (map fst (filter (\<lambda>(x, name). name \<noteq> '''') (zip xs names)))"
    for names using assms(1) by (induction ins xs arbitrary: names rule: list_all2_induct) (auto, case_tac names, auto)
  have those: "list_all2 inshape shs ds" if "those ss = Some shs" "list_all2 shape_in ss ds" for ss shs ds
    using that(2,1) by (induction ss ds arbitrary: shs rule: list_all2_induct) (auto split: option.splits)
  show "list_all2 inshape shs (given_dims n xs)"
    using assms(2) those zip [of "ninput n"] by (auto simp: present_shapes_def given_dims_def Let_def split: if_splits)
  have "those ss = Some [] \<Longrightarrow> ss = []" for ss :: shapes by (cases ss) (auto split: option.splits)
  then show "shs \<noteq> []" using assms(2) by (auto simp: present_shapes_def Let_def split: if_splits)
qed

lemma broadcast_sound:
  assumes "list_all2 inshape shs ds" "np_broadcast_all ds = Some z"
  shows "rsome (broadcast shs) (\<lambda>s. inshape s z)"
proof -
  obtain s ss d r where s: "shs = s # ss" "ds = d # r" "inshape s d" "list_all2 inshape ss r"
    using assms by (cases shs; cases ds) (auto simp: np_broadcast_all_def)
  have none: "foldl (\<lambda>a x. Option.bind a (\<lambda>z. np_broadcast z x)) None r = None" for r by (induction r) auto
  have "rsome (rfold (\<lambda>out s. case out of None \<Rightarrow> Inr None | Some x \<Rightarrow> broadcast2 x s) (Some s) ss) (\<lambda>c. inshape c z)"
    if "foldl (\<lambda>a x. Option.bind a (\<lambda>z. np_broadcast z x)) (Some d) r = Some z" "inshape s d"
    using s(4) that
  proof (induction ss r arbitrary: s d rule: list_all2_induct)
    case (Cons t ts y ys)
    obtain e where e: "np_broadcast d y = Some e" using Cons.prems none by (cases "np_broadcast d y") auto
    obtain c where "broadcast2 s t = Inr (Some c)" "inshape c e"
      using broadcast2_sound [OF Cons.prems(2) Cons.hyps(1) e] by (auto simp: rsome_def rgives_def)
    then show ?case using Cons.IH [of e c] Cons.prems(1) e by simp
  qed (simp add: rsome_def)
  then show ?thesis using s assms(2) by (simp add: broadcast_def np_broadcast_all_def)
qed

lemma r_broadcast_sound:
  assumes "operands_in ins xs"
  shows "rule_sound (r_broadcast n ins) (map_option (\<lambda>z. [z]) (np_broadcast_all (given_dims n xs)))"
proof (cases "present_shapes n ins")
  case (Some shs)
  then show ?thesis
    using broadcast_sound [OF present_in(1) [OF assms Some]] rule_sound_some by (cases "np_broadcast_all (given_dims n xs)") (auto simp: r_broadcast_def)
qed (simp add: r_broadcast_def)

section \<open>Windows\<close>

text \<open>
  One spatial dimension of a convolution or a pooling, as the operators document it: with \<^verbatim>\<open>VALID\<close> padding \<^verbatim>\<open>ceil_mode\<close> does not matter, since
  \<^verbatim>\<open>ceil((room + 1) / stride)\<close> is \<^verbatim>\<open>floor(room / stride) + 1\<close>.
\<close>

definition window_size :: "string \<Rightarrow> bool \<Rightarrow> int \<Rightarrow> int \<Rightarrow> int \<Rightarrow> int \<Rightarrow> int \<Rightarrow> int \<Rightarrow> int" where
  "window_size auto ceil k dl s p q v =
     (if auto \<in> {''SAME_UPPER'', ''SAME_LOWER''} then ceil_div v s
      else if auto = ''VALID'' then (v - ((k - 1) * dl + 1)) div s + 1
      else let room = v + p + q - ((k - 1) * dl + 1) in (if ceil then ceil_div room s else room div s) + 1)"

definition spec_spatial :: "node \<Rightarrow> int list \<Rightarrow> bool \<Rightarrow> int list \<Rightarrow> int list option" where
  "spec_spatial n kern ceil x =
     (let k = length x; st = conv_strides n k; dl = conv_dilations n k; p = conv_pads n k in
      if length kern = k \<and> length st = k \<and> length dl = k \<and> length p = 2 * k \<and> (\<forall>s \<in> set st. 1 \<le> s)
      then Some (map (\<lambda>i. window_size (conv_auto_pad n) ceil (kern ! i) (dl ! i) (st ! i) (p ! i) (p ! (i + k)) (x ! i)) [0..<k])
      else None)"

lemma nth_enum_from: "i < length xs \<Longrightarrow> enum_from k xs ! i = (k + i, xs ! i)"
  by (induction xs arbitrary: k i) (auto simp: nth_Cons split: nat.splits)

lemma rmap_enum_sound:
  assumes "length ds = length zs" "\<And>i. i < length ds \<Longrightarrow> rgives (f (i, ds ! i)) (\<lambda>d. inside d (zs ! i))"
  shows "rgives (rmap f (enumerate_py ds)) (\<lambda>s. inshape s zs)"
  unfolding inshape_def by (rule rgives_rmap) (use assms in \<open>simp add: list_all2_conv_all_nth nth_enum_from\<close>)

lemma out_size_mono: "0 < s \<Longrightarrow> a \<le> b \<Longrightarrow> out_size f s c m a \<le> out_size f s c m b"
  by (auto simp: out_size_def intro!: ceil_div_mono zdiv_mono1)

lemma spatial_sound:
  assumes x: "inshape ds vs" and sp: "spec_spatial n kern ceil vs = Some zs" and nn: "\<forall>z \<in> set zs. 0 \<le> z" and k: "length ds = k"
    and valid: "ceil \<longrightarrow> conv_auto_pad n \<noteq> ''VALID''"
  shows "rgives (spatial_out ds kern (conv_strides n k) (conv_dilations n k) (conv_pads n k) (conv_auto_pad n) ceil) (\<lambda>s. inshape s zs)"
  unfolding spatial_out_def
proof (rule rmap_enum_sound)
  have len: "length vs = k" using inshape_length [OF x] k by simp
  let ?st = "conv_strides n k" and ?dl = "conv_dilations n k" and ?p = "conv_pads n k" and ?a = "conv_auto_pad n"
  have ok: "length kern = k" "length ?st = k" "length ?dl = k" "length ?p = 2 * k" "\<forall>s \<in> set ?st. 1 \<le> s"
    and zs: "zs = map (\<lambda>i. window_size ?a ceil (kern ! i) (?dl ! i) (?st ! i) (?p ! i) (?p ! (i + k)) (vs ! i)) [0..<k]"
    using sp len by (auto simp: spec_spatial_def Let_def split: if_splits)
  show "length ds = length zs" using zs k by simp
  fix i assume "i < length ds"
  then have i: "i < k" using k by simp
  define off where "off = (if ?a = ''VALID'' then 0 else ?p ! i + ?p ! (i + k)) - (?dl ! i * (kern ! i - 1) + 1)"
  define same where "same = (?a \<in> {''SAME_UPPER'', ''SAME_LOWER''})"
  have s: "1 \<le> ?st ! i" using ok(2,5) i by simp
  have z: "zs ! i = out_size (if same then 0 else off) (?st ! i) (same \<or> ceil) same (vs ! i)"
    using zs i valid by (auto simp: window_size_def out_size_def off_def same_def Let_def algebra_simps)
  have "0 \<le> zs ! i" using nn zs i by simp
  then have "rgives (mono_dim (ds ! i) (out_size (if same then 0 else off) (?st ! i) (same \<or> ceil) same)) (\<lambda>d. inside d (zs ! i))"
    unfolding z using s inshape_nth [OF x, of i] i len by (intro mono_dim_sound out_size_mono) auto
  then show "rgives (spatial_dim (length ds) kern ?st ?dl ?p ?a ceil (i, ds ! i)) (\<lambda>d. inside d (zs ! i))"
    using ok i k s by (auto simp: spatial_dim_def int_nth_def off_def same_def Let_def max_absorb2 split: if_splits)
qed

definition spec_conv :: "node \<Rightarrow> int list list \<Rightarrow> int list list option" where
  "spec_conv n xs =
     (let x = dims_at xs 0; w = dims_at xs (if op_type n = ''QLinearConv'' then 3 else 1) in
      if length x < 3 \<or> length w \<noteq> length x then None
      else map_option (\<lambda>sp. [x ! 0 # w ! 0 # sp]) (spec_spatial n (drop 2 w) False (drop 2 x)))"

lemma static_dims_in: "is_static s \<Longrightarrow> inshape s d \<Longrightarrow> static_dims s = Inr d"
proof (induction s arbitrary: d)
  case (Cons a s)
  then obtain v r where "d = v # r" by (cases d) (auto simp: inshape_def)
  then show ?case using Cons by (auto simp: is_static_def static_dims_def inshape_def dim_value_def is_exact_def inside_def)
qed (simp add: inshape_def static_dims_def)

text \<open>The operands of a convolution that pass its checks.\<close>

lemma conv_operands_in:
  assumes "conv_operands x w = Some (a, b)" "shape_in x xs" "shape_in w ws"
  shows "inshape a xs" "inshape b ws" "3 \<le> length xs" "length ws = length xs" "static_dims (drop 2 b) = Inr (drop 2 ws)"
proof -
  have ab: "x = Some a" "w = Some b" "\<not> length a < 3" "length b = length a" "is_static (drop 2 b)"
    using assms(1) by (auto simp: conv_operands_def split: option.splits if_splits)
  then show "inshape a xs" "inshape b ws" using assms by auto
  then show "3 \<le> length xs" "length ws = length xs" "static_dims (drop 2 b) = Inr (drop 2 ws)"
    using ab static_dims_in [OF ab(5) inshape_take_drop(2)] by (auto simp: inshape_length)
qed

lemma inshape_cons: "inside a x \<Longrightarrow> inshape s d \<Longrightarrow> inshape (a # s) (x # d)"
  by (simp add: inshape_def)

lemma rule_sound_conv:
  assumes ins: "operands_in ins xs"
    and f: "\<And>a w. inshape a (dims_at xs 0) \<Longrightarrow> inshape w (dims_at xs i) \<Longrightarrow> 3 \<le> length (dims_at xs 0) \<Longrightarrow>
      length (dims_at xs i) = length (dims_at xs 0) \<Longrightarrow> static_dims (drop 2 w) = Inr (drop 2 (dims_at xs i)) \<Longrightarrow> rule_sound (f a w) y"
  shows "rule_sound (rbind (operand ins 0) (\<lambda>x. case conv_operands x (operand_or ins i) of None \<Rightarrow> Inr [None] | Some (a, w) \<Rightarrow> f a w)) y"
proof (rule rule_sound_first [OF ins])
  fix x assume x: "inshape x (dims_at xs 0)"
  show "rule_sound (case conv_operands (Some x) (operand_or ins i) of None \<Rightarrow> Inr [None] | Some (a, w) \<Rightarrow> f a w) y"
  proof (cases "conv_operands (Some x) (operand_or ins i)")
    case (Some p)
    obtain a w where p: "p = (a, w)" by (cases p)
    show ?thesis
      unfolding Some p option.case prod.case
      by (rule f) (use conv_operands_in [OF Some [unfolded p], of "dims_at xs 0" "dims_at xs i"] x operand_or_in [OF ins, of i] in auto)
  qed simp
qed (simp add: conv_operands_def)

text \<open>The batch and channel dimensions in front of the spatial ones.\<close>

lemma spatial_result:
  assumes "rgives r (\<lambda>s. inshape s zs)" "inside b x" "inside c y"
  shows "rule_sound (rbind r (\<lambda>sp. Inr (Some (b # c # sp) # replicate k (Some (b # c # sp))))) (Some (replicate m (x # y # zs)))"
proof -
  obtain sp where "r = Inr sp" "inshape (b # c # sp) (x # y # zs)" using assms by (auto simp: rgives_def inshape_cons)
  then show ?thesis using covers_same [of "Some (b # c # sp)" "x # y # zs" "replicate m (x # y # zs)" "Suc k"] by (simp add: rule_sound_def)
qed

lemma r_conv_sound:
  assumes ins: "operands_in ins xs"
  shows "rule_sound (r_conv n ins) (spec_conv n xs)"
proof -
  define wi :: nat where "wi = (if op_type n = ''QLinearConv'' then 3 else 1)"
  show ?thesis
    unfolding r_conv_def wi_def [symmetric] Let_def
  proof (rule rule_sound_conv [OF ins])
    fix a w
    assume a: "inshape a (dims_at xs 0)" and w: "inshape w (dims_at xs wi)" and len: "3 \<le> length (dims_at xs 0)" "length (dims_at xs wi) = length (dims_at xs 0)"
      and st: "static_dims (drop 2 w) = Inr (drop 2 (dims_at xs wi))"
    let ?r = "spatial_out (drop 2 a) (drop 2 (dims_at xs wi)) (conv_strides n (length a - 2)) (conv_dilations n (length a - 2))
            (conv_pads n (length a - 2)) (conv_auto_pad n) False"
    have "rule_sound (rbind ?r (\<lambda>sp. Inr [Some (a ! 0 # w ! 0 # sp)])) (spec_conv n xs)"
    proof (cases "spec_spatial n (drop 2 (dims_at xs wi)) False (drop 2 (dims_at xs 0))")
      case (Some zs)
      have y: "spec_conv n xs = Some [dims_at xs 0 ! 0 # dims_at xs wi ! 0 # zs]"
        using Some len by (simp add: spec_conv_def wi_def [symmetric] Let_def)
      have "rule_sound (rbind ?r (\<lambda>sp. Inr [Some (a ! 0 # w ! 0 # sp)])) (spec_conv n xs)" if "\<forall>z \<in> set zs. 0 \<le> z"
      proof -
        have in0: "inside (a ! 0) (dims_at xs 0 ! 0)" "inside (w ! 0) (dims_at xs wi ! 0)"
          by (rule inshape_nth [OF a], use len in linarith) (rule inshape_nth [OF w], use len in linarith)
        show ?thesis
          using spatial_result [OF spatial_sound [OF inshape_take_drop(2) [OF a] Some that length_drop] in0, of 0 1] unfolding y by simp
      qed
      then show ?thesis by (auto simp: rule_sound_def y)
    qed (use len in \<open>simp add: spec_conv_def wi_def [symmetric] Let_def\<close>)
    then show "rule_sound (rbind (static_dims (drop 2 w)) (\<lambda>kern. rbind (spatial_out (drop 2 a) kern (conv_strides n (length a - 2)) (conv_dilations n (length a - 2))
            (conv_pads n (length a - 2)) (conv_auto_pad n) False) (\<lambda>sp. Inr [Some (a ! 0 # w ! 0 # sp)]))) (spec_conv n xs)"
      by (simp add: st)
  qed
qed

definition spec_pool :: "node \<Rightarrow> int list list \<Rightarrow> int list list option" where
  "spec_pool n xs =
     (let x = dims_at xs 0 in
      case attr_find n ''kernel_shape'' of None \<Rightarrow> None
      | Some a \<Rightarrow> if length x < 3 then None
          else map_option (\<lambda>sp. replicate (length (noutput n)) (x ! 0 # x ! 1 # sp)) (spec_spatial n (attr_ints a) (attr_int n ''ceil_mode'' 0 \<noteq> 0) (drop 2 x)))"

lemma r_pool_sound:
  assumes ins: "operands_in ins xs" and valid: "attr_int n ''ceil_mode'' 0 \<noteq> 0 \<longrightarrow> conv_auto_pad n \<noteq> ''VALID''"
  shows "rule_sound (r_pool n ins) (spec_pool n xs)"
  unfolding r_pool_def
proof (rule rule_sound_first [OF ins])
  fix x assume x: "inshape x (dims_at xs 0)"
  let ?c = "attr_int n ''ceil_mode'' 0 \<noteq> 0" and ?k = "length x - 2"
  show "rule_sound (case Some x of None \<Rightarrow> Inr (unknown_outputs n)
       | Some x \<Rightarrow> if length x < 3 then Inr (unknown_outputs n)
           else (let k = length x - 2 in rbind (attr_get_ints n ''kernel_shape'') (\<lambda>kern.
             rbind (spatial_out (drop 2 x) kern (conv_strides n k) (conv_dilations n k) (conv_pads n k) (conv_auto_pad n) ?c) (\<lambda>sp.
               let y = Some (x ! 0 # x ! 1 # sp) in Inr (y # replicate (length (noutput n) - 1) y))))) (spec_pool n xs)"
  proof (cases "length x < 3 \<or> spec_pool n xs = None")
    case False
    then obtain a zs where a: "attr_find n ''kernel_shape'' = Some a" and zs: "spec_spatial n (attr_ints a) ?c (drop 2 (dims_at xs 0)) = Some zs"
        "spec_pool n xs = Some (replicate (length (noutput n)) (dims_at xs 0 ! 0 # dims_at xs 0 ! 1 # zs))"
      by (auto simp: spec_pool_def Let_def split: option.splits if_splits)
    have len: "3 \<le> length (dims_at xs 0)" using False inshape_length [OF x] by simp
    let ?r = "rbind (spatial_out (drop 2 x) (attr_ints a) (conv_strides n ?k) (conv_dilations n ?k) (conv_pads n ?k) (conv_auto_pad n) ?c) (\<lambda>sp.
        Inr (Some (x ! 0 # x ! 1 # sp) # replicate (length (noutput n) - 1) (Some (x ! 0 # x ! 1 # sp))))"
    have pos: "rule_sound ?r (spec_pool n xs)" if "\<forall>z \<in> set zs. 0 \<le> z"
    proof -
      have in0: "inside (x ! 0) (dims_at xs 0 ! 0)" "inside (x ! 1) (dims_at xs 0 ! 1)" by (rule inshape_nth [OF x], use len in linarith)+
      show ?thesis
        unfolding zs(2) by (rule spatial_result [OF spatial_sound [OF inshape_take_drop(2) [OF x] zs(1) that length_drop valid] in0])
    qed
    have "rule_sound ?r (spec_pool n xs)"
    proof (cases "noutput n")
      case (Cons a list)
      then show ?thesis using pos by (auto simp: rule_sound_def zs(2))
    qed (simp add: rule_sound_def zs(2))
    then show ?thesis using False a by (simp add: attr_get_ints_def Let_def)
  qed auto
qed simp

text \<open>A transposed convolution; with \<^verbatim>\<open>SAME\<close> padding its output is the input times the stride.\<close>

definition convt_size :: "string \<Rightarrow> int \<Rightarrow> int \<Rightarrow> int \<Rightarrow> int \<Rightarrow> int \<Rightarrow> int \<Rightarrow> int \<Rightarrow> int" where
  "convt_size auto k dl s op p q v =
     (if auto \<in> {''SAME_UPPER'', ''SAME_LOWER''} then v * s
      else s * (v - 1) + op + ((k - 1) * dl + 1) - (if auto = ''VALID'' then 0 else p + q))"

definition spec_convt :: "node \<Rightarrow> int list list \<Rightarrow> int list list option" where
  "spec_convt n xs =
     (let x = dims_at xs 0; w = dims_at xs 1; k = length x - 2; kern = drop 2 w; op = attr_ints_or n ''output_padding'' (replicate k 0);
          st = conv_strides n k; dl = conv_dilations n k; p = conv_pads n k in
      if length x < 3 \<or> length w \<noteq> length x then None
      else map_option (\<lambda>sp. [x ! 0 # (w ! 1 * attr_int n ''group'' 1) # sp])
        (case attr_find n ''output_shape'' of
           Some a \<Rightarrow> Some (attr_ints a)
         | None \<Rightarrow> if length st = k \<and> length dl = k \<and> length op = k \<and> length p = 2 * k \<and> (\<forall>s \<in> set st. 1 \<le> s)
             then Some (map (\<lambda>i. convt_size (conv_auto_pad n) (kern ! i) (dl ! i) (st ! i) (op ! i) (p ! i) (p ! (i + k)) (drop 2 x ! i)) [0..<k])
             else None))"

lemma rmap_exact_sound: "\<forall>z \<in> set zs. 0 \<le> z \<Longrightarrow> rgives (rmap exact zs) (\<lambda>s. inshape s zs)"
  unfolding inshape_def by (rule rgives_rmap) (simp add: list_all2_same inside_exact)

lemma convt_spatial_sound:
  assumes x: "inshape ds vs" and k: "length ds = k" and auto: "conv_auto_pad n = ''NOTSET''"
    and ok: "length kern = k" "length st = k" "length dl = k" "length op = k" "length p = 2 * k" "\<forall>s \<in> set st. 1 \<le> s"
    and zs: "zs = map (\<lambda>i. convt_size ''NOTSET'' (kern ! i) (dl ! i) (st ! i) (op ! i) (p ! i) (p ! (i + k)) (vs ! i)) [0..<k]" and nn: "\<forall>z \<in> set zs. 0 \<le> z"
  shows "rgives (rmap (convt_dim k kern st dl p op) (enumerate_py ds)) (\<lambda>s. inshape s zs)"
proof (rule rmap_enum_sound)
  show "length ds = length zs" using zs k by simp
  fix i assume "i < length ds"
  then have i: "i < k" using k by simp
  let ?f = "\<lambda>v. st ! i * (v - 1) + op ! i + (kern ! i - 1) * dl ! i + 1 - p ! i - p ! (i + k)"
  have z: "zs ! i = ?f (vs ! i)" using zs i by (simp add: convt_size_def)
  have s: "1 \<le> st ! i" using ok(2,6) i by simp
  have "0 \<le> zs ! i" using nn zs i by simp
  then have "rgives (mono_dim (ds ! i) ?f) (\<lambda>d. inside d (zs ! i))"
    unfolding z using s inshape_nth [OF x, of i] i inshape_length [OF x] k by (intro mono_dim_sound) (auto intro: mult_left_mono)
  then show "rgives (convt_dim k kern st dl p op (i, ds ! i)) (\<lambda>d. inside d (zs ! i))"
    using ok i by (simp add: convt_dim_def int_nth_def)
qed

lemma r_convt_sound:
  assumes ins: "operands_in ins xs" and plain: "attr_find n ''output_shape'' \<noteq> None \<or> conv_auto_pad n = ''NOTSET''"
  shows "rule_sound (r_convt n ins) (spec_convt n xs)"
  unfolding r_convt_def
proof (rule rule_sound_conv [OF ins])
  fix a w
  assume a: "inshape a (dims_at xs 0)" and w: "inshape w (dims_at xs 1)" and len: "3 \<le> length (dims_at xs 0)" "length (dims_at xs 1) = length (dims_at xs 0)"
    and st: "static_dims (drop 2 w) = Inr (drop 2 (dims_at xs 1))"
  let ?k = "length a - 2" and ?op = "attr_ints_or n ''output_padding'' (replicate (length a - 2) 0)"
  let ?sp = "case attr_find n ''output_shape'' of Some a \<Rightarrow> rmap exact (attr_ints a)
    | None \<Rightarrow> rmap (convt_dim ?k (drop 2 (dims_at xs 1)) (conv_strides n ?k) (conv_dilations n ?k) (conv_pads n ?k) ?op) (enumerate_py (drop 2 a))"
  have la: "length a = length (dims_at xs 0)" by (rule inshape_length [OF a])
  have in0: "inside (a ! 0) (dims_at xs 0 ! 0)" "inside (w ! 1) (dims_at xs 1 ! 1)"
    by (rule inshape_nth [OF a], use len in linarith) (rule inshape_nth [OF w], use len in linarith)
  have "covers_all out ys" if r: "rbind ?sp (\<lambda>sp. if \<not> is_exact (w ! 1) then Inr [None]
        else rbind (dim_value (w ! 1)) (\<lambda>m. rbind (exact (m * attr_int n ''group'' 1)) (\<lambda>c. Inr [Some (a ! 0 # c # sp)]))) = Inr out"
      and y: "spec_convt n xs = Some ys" and nn: "\<forall>z \<in> set ys. \<forall>v \<in> set z. 0 \<le> v" for out ys
  proof -
    obtain zs where zs: "ys = [dims_at xs 0 ! 0 # (dims_at xs 1 ! 1 * attr_int n ''group'' 1) # zs]"
      using y by (auto simp: spec_convt_def Let_def split: if_splits)
    have "rgives ?sp (\<lambda>s. inshape s zs)"
    proof (cases "attr_find n ''output_shape''")
      case (Some at)
      then show ?thesis using y zs nn by (auto simp: spec_convt_def Let_def split: if_splits intro!: rmap_exact_sound)
    next
      case None
      have "rgives (rmap (convt_dim ?k (drop 2 (dims_at xs 1)) (conv_strides n ?k) (conv_dilations n ?k) (conv_pads n ?k) ?op) (enumerate_py (drop 2 a))) (\<lambda>s. inshape s zs)"
        by (rule convt_spatial_sound [OF inshape_take_drop(2) [OF a] length_drop, where n = n])
          (use None plain y zs nn len la in \<open>auto simp: spec_convt_def Let_def split: if_splits\<close>)
      then show ?thesis using None by simp
    qed
    then show ?thesis
      using r zs nn in0 by (auto simp: rgives_def exact_inside rgivesD [OF inside_exact] res_simps split: if_splits intro!: inshape_cons)
  qed
  then show "rule_sound (let k = length a - 2 in rbind (static_dims (drop 2 w)) (\<lambda>kern.
            rbind (case attr_find n ''output_shape'' of Some a \<Rightarrow> rmap exact (attr_ints a)
              | None \<Rightarrow> rmap (convt_dim k kern (conv_strides n k) (conv_dilations n k) (conv_pads n k)
                    (attr_ints_or n ''output_padding'' (replicate k 0))) (enumerate_py (drop 2 a))) (\<lambda>sp.
            if \<not> is_exact (w ! 1) then Inr [None]
            else rbind (dim_value (w ! 1)) (\<lambda>m. rbind (exact (m * attr_int n ''group'' 1)) (\<lambda>c. Inr [Some (a ! 0 # c # sp)])))) ) (spec_convt n xs)"
    unfolding Let_def st rbind.simps by (rule rule_soundI)
qed

section \<open>Products, indexing and layout\<close>

definition spec_gpool :: "int list list \<Rightarrow> int list list option" where
  "spec_gpool xs = (let x = dims_at xs 0 in if length x < 2 then None else Some [take 2 x @ replicate (length (drop 2 x)) 1])"

lemma r_gpool_sound:
  assumes ins: "operands_in ins xs"
  shows "rule_sound (r_gpool n ins) (spec_gpool xs)"
  unfolding r_gpool_def
proof (rule rule_sound_first [OF ins])
  fix x assume x: "inshape x (dims_at xs 0)"
  have "inshape (take 2 x @ replicate (length (drop 2 x)) \<lparr>lo = 1, hi = Some 1, dsym = None\<rparr>) (take 2 (dims_at xs 0) @ replicate (length (drop 2 (dims_at xs 0))) 1)"
    by (intro inshape_append inshape_take_drop [OF x] inshape_ones [OF _ inshape_take_drop(2) [OF x]]) (simp add: inside_one)
  then show "rule_sound (case Some x of None \<Rightarrow> Inr [None] | Some x \<Rightarrow> if length x < 2 then Inr [None]
           else rbind (exact 1) (\<lambda>one. Inr [Some (take 2 x @ replicate (length (drop 2 x)) one)])) (spec_gpool xs)"
    by (auto simp: rule_sound_def spec_gpool_def exact_one Let_def split: if_splits)
qed simp

definition spec_gemm :: "node \<Rightarrow> int list list \<Rightarrow> int list list option" where
  "spec_gemm n xs =
     (let a = dims_at xs 0; b = dims_at xs 1 in
      if length a \<noteq> 2 \<or> length b \<noteq> 2 then None
      else Some [[if attr_int n ''transA'' 0 \<noteq> 0 then a ! 1 else a ! 0, if attr_int n ''transB'' 0 \<noteq> 0 then b ! 0 else b ! 1]])"

lemma r_gemm_sound:
  assumes ins: "operands_in ins xs"
  shows "rule_sound (r_gemm n ins) (spec_gemm n xs)"
  unfolding r_gemm_def
proof (rule rule_sound_both [OF ins])
  fix a b assume a: "inshape a (dims_at xs 0)" and b: "inshape b (dims_at xs 1)"
  have nth: "inside (a ! i) (dims_at xs 0 ! i)" "inside (b ! i) (dims_at xs 1 ! i)" if "length a = 2" "length b = 2" "i < 2" for i
    using inshape_nth [OF a, of i] inshape_nth [OF b, of i] inshape_length [OF a] inshape_length [OF b] that by auto
  show "rule_sound (if length a \<noteq> 2 \<or> length b \<noteq> 2 then Inr [None]
      else Inr [Some [if attr_int n ''transA'' 0 \<noteq> 0 then a ! 1 else a ! 0, if attr_int n ''transB'' 0 \<noteq> 0 then b ! 0 else b ! 1]]) (spec_gemm n xs)"
    using nth [of 0] nth [of 1] by (auto simp: rule_sound_def spec_gemm_def Let_def inshape_def split: if_splits)
qed

definition spec_matmul :: "int list \<Rightarrow> int list \<Rightarrow> int list list option" where
  "spec_matmul a b = (if a = [] \<or> b = [] then None else map_option (\<lambda>z. [z]) (np_matmul a b))"

lemma r_matmul_sound: "shape_in a xs \<Longrightarrow> shape_in b ys \<Longrightarrow> rule_sound (r_matmul a b) (spec_matmul xs ys)"
  by (cases a; cases b; cases "np_matmul xs ys") (auto simp: r_matmul_def spec_matmul_def intro: rule_sound_some matmul_sound)

lemma r_matmulint_sound:
  assumes ins: "operands_in ins xs"
  shows "rule_sound (r_matmulint n ins) (spec_matmul (dims_at xs 0) (dims_at xs 1))"
  unfolding r_matmulint_def
proof (rule rule_sound_first [OF ins])
  fix x assume x: "inshape x (dims_at xs 0)"
  show "rule_sound (case Some x of None \<Rightarrow> Inr [None] | Some _ \<Rightarrow> rbind (operand ins 1) (\<lambda>b. r_matmul (Some x) b)) (spec_matmul (dims_at xs 0) (dims_at xs 1))"
    using r_matmul_sound [of "Some x"] x operand_in [OF ins, of 1] by (cases "operand ins 1") (auto simp: rule_sound_def)
qed simp

lemma r_qlmm_sound:
  assumes ins: "operands_in ins xs"
  shows "rule_sound (r_qlmm n ins) (spec_matmul (dims_at xs 0) (dims_at xs 3))"
  unfolding r_qlmm_def
  by (rule rule_sound_first [OF ins]) (rule r_matmul_sound, simp, rule operand_or_in [OF ins], simp add: r_matmul_def)

definition spec_gather :: "node \<Rightarrow> int list list \<Rightarrow> int list list option" where
  "spec_gather n xs =
     (case norm_axis (attr_int n ''axis'' 0) (length (dims_at xs 0)) of Inl _ \<Rightarrow> None
      | Inr ax \<Rightarrow> Some [take ax (dims_at xs 0) @ dims_at xs 1 @ drop (Suc ax) (dims_at xs 0)])"

lemma r_gather_sound:
  assumes ins: "operands_in ins xs"
  shows "rule_sound (r_gather n ins) (spec_gather n xs)"
  unfolding r_gather_def spec_gather_def
  by (rule rule_sound_both [OF ins]) (auto split: sum.splits intro: rule_sound_gives gather_sound)

definition spec_gather_nd :: "node \<Rightarrow> int list list \<Rightarrow> int list list option" where
  "spec_gather_nd n xs =
     (if attr_int n ''batch_dims'' 0 \<noteq> 0 \<or> dims_at xs 1 = [] then None
      else Some [butlast (dims_at xs 1) @ drop (nat (last (dims_at xs 1))) (dims_at xs 0)])"

lemma r_gather_nd_sound:
  assumes ins: "operands_in ins xs"
  shows "rule_sound (r_gather_nd n ins) (spec_gather_nd n xs)"
  unfolding r_gather_nd_def spec_gather_nd_def
  by (rule rule_sound_both [OF ins]) (auto intro: rule_sound_maybe gather_nd_sound)

definition spec_transpose :: "node \<Rightarrow> int list list \<Rightarrow> int list list option" where
  "spec_transpose n xs =
     (let x = dims_at xs 0 in
      case rmap (py_nth x) (case map_option attr_ints (attr_find n ''perm'') of None \<Rightarrow> map int (rev [0..<length x])
        | Some p \<Rightarrow> if p = [] then map int (rev [0..<length x]) else p) of Inl _ \<Rightarrow> None | Inr z \<Rightarrow> Some [z])"

lemma r_transpose_sound:
  assumes ins: "operands_in ins xs"
  shows "rule_sound (r_transpose n ins) (spec_transpose n xs)"
  unfolding r_transpose_def spec_transpose_def Let_def
proof (rule rule_sound_first [OF ins])
  fix x assume x: "inshape x (dims_at xs 0)"
  show "rule_sound (case Some x of None \<Rightarrow> Inr [None] | Some x \<Rightarrow> rbind (transpose_shape x (map_option attr_ints (attr_find n ''perm''))) (\<lambda>s. Inr [Some s]))
    (case rmap (py_nth (dims_at xs 0)) (case map_option attr_ints (attr_find n ''perm'') of None \<Rightarrow> map int (rev [0..<length (dims_at xs 0)])
        | Some p \<Rightarrow> if p = [] then map int (rev [0..<length (dims_at xs 0)]) else p) of Inl _ \<Rightarrow> None | Inr z \<Rightarrow> Some [z])"
    using transpose_sound [OF x] by (auto split: sum.splits intro!: rule_sound_gives)
qed simp

definition spec_concat :: "node \<Rightarrow> int list list \<Rightarrow> int list list option" where
  "spec_concat n xs =
     (let ds = given_dims n xs in
      case attr_find n ''axis'' of None \<Rightarrow> None
      | Some a \<Rightarrow> if ds = [] then None
          else (case norm_axis (attr_i a) (length (hd ds)) of Inl _ \<Rightarrow> None | Inr ax \<Rightarrow> if concat_ok ds ax then Some [concat_result ds ax] else None))"

lemma r_concat_sound:
  assumes ins: "operands_in ins xs"
  shows "rule_sound (r_concat n ins) (spec_concat n xs)"
proof (cases "present_shapes n ins")
  case (Some shs)
  show ?thesis
  proof (cases "spec_concat n xs")
    case (Some z)
    then obtain a ax where a: "attr_find n ''axis'' = Some a" "norm_axis (attr_i a) (length (hd (given_dims n xs))) = Inr ax" "concat_ok (given_dims n xs) ax"
        "z = [concat_result (given_dims n xs) ax]"
      by (auto simp: spec_concat_def Let_def split: option.splits if_splits sum.splits)
    then show ?thesis
      using \<open>present_shapes n ins = Some shs\<close> concat_sound [OF present_in(1) [OF ins \<open>present_shapes n ins = Some shs\<close>] a(3,2)] Some
      by (auto simp: r_concat_def attr_get_int_def intro: rule_sound_some)
  qed simp
qed (simp add: r_concat_def)

definition spec_flatten :: "node \<Rightarrow> int list list \<Rightarrow> int list list option" where
  "spec_flatten n xs =
     (let x = dims_at xs 0; ax = axis_of (attr_int n ''axis'' 1) x in Some [[prod_list (py_upto x ax), prod_list (py_from x ax)]])"

lemma r_flatten_sound:
  assumes ins: "operands_in ins xs"
  shows "rule_sound (r_flatten n ins) (spec_flatten n xs)"
  unfolding r_flatten_def spec_flatten_def Let_def axis_of_def
  by (rule rule_sound_first [OF ins]) (simp_all only: option.simps rule_sound_gives [OF flatten_sound] rule_sound_None)

end
