(* ===== verification/Cost_Rules_Onnx.thy ===== *)
theory Cost_Rules_Onnx
  imports Cost_Rules_Sound
begin

text \<open>
  The shape rules whose output depends on attributes and operand values (axes, sizes, scales, labels), the table of the operators' shapes, and the contract of
  \<^verbatim>\<open>shape_fallback\<close>: the dimensions it returns contain those of every valid execution, on the nodes the rules are written for. The
  nodes on which a rule breaks that contract are the exceptions in \<open>rule_covers\<close>, each shown to be one.
\<close>

section \<open>Axes\<close>

text \<open>An optional operand: its values when it is given, an attribute otherwise.\<close>

definition spec_ints :: "node \<Rightarrow> (nat \<Rightarrow> rat list) \<Rightarrow> string \<Rightarrow> int list option" where
  "spec_ints n vals name = (if given n 1 then Some (int_values vals 1) else map_option attr_ints (attr_find n name))"

definition known_operand :: "(string, interval_box) dict \<Rightarrow> node \<Rightarrow> bool" where
  "known_operand iv n \<longleftrightarrow> (given n 1 \<longrightarrow> to_ints (const_operand iv n 1) \<noteq> None)"

definition res_option :: "'a res \<Rightarrow> 'a option" where
  "res_option r = (case r of Inl _ \<Rightarrow> None | Inr x \<Rightarrow> Some x)"

lemma res_option_simps [simp]: "res_option r = Some x \<longleftrightarrow> r = Inr x" "res_option (Inr x) = Some x" "res_option (Inl e) = None"
  by (simp_all add: res_option_def split: sum.splits)

lemma operand_ints:
  assumes "values_in iv n vals" "known_operand iv n"
  shows "(case to_ints (const_operand iv n 1) of Some as \<Rightarrow> Some as | None \<Rightarrow> map_option attr_ints (attr_find n name)) = spec_ints n vals name"
  using to_ints_values [OF assms(1), of 1] assms(2) by (auto simp: spec_ints_def known_operand_def split: option.splits)

definition spec_squeeze :: "node \<Rightarrow> int list list \<Rightarrow> (nat \<Rightarrow> rat list) \<Rightarrow> int list list option" where
  "spec_squeeze n xs vals =
     (let x = dims_at xs 0 in
      map_option (\<lambda>z. [z])
        (if op_type n = ''Unsqueeze'' then
           Option.bind (spec_ints n vals ''axes'') (\<lambda>as. let rank = length x + length as in
             Option.bind (res_option (rmap (\<lambda>a. norm_axis a rank) as)) (\<lambda>ax. res_option (weave ax 1 [0..<rank] x)))
         else case spec_ints n vals ''axes'' of
             None \<Rightarrow> Some (filter (\<lambda>d. d \<noteq> 1) x)
           | Some as \<Rightarrow> Option.bind (res_option (rmap (\<lambda>a. norm_axis a (length x)) as)) (\<lambda>ax.
               if \<forall>i \<in> set ax. x ! i = 1 then Some (drop_axes ax x) else None)))"

lemma r_squeeze_sound:
  assumes ins: "operands_in ins xs" and v: "values_in iv n vals" "known_operand iv n"
  shows "rule_sound (r_squeeze iv n ins) (spec_squeeze n xs vals)"
  unfolding r_squeeze_def squeeze_axes_def operand_ints [OF v]
proof (rule rule_sound_first [OF ins])
  fix x assume x: "inshape x (dims_at xs 0)"
  let ?r = "\<lambda>x. if op_type n = ''Unsqueeze''
    then (case spec_ints n vals ''axes'' of None \<Rightarrow> Inr [None] | Some as \<Rightarrow> rbind (unsqueeze x as) (\<lambda>s. Inr [Some s]))
    else rbind (squeeze x (spec_ints n vals ''axes'')) (\<lambda>s. Inr [s])"
  have "rule_sound (?r x) (Some [z])" if spec: "spec_squeeze n xs vals = Some [z]" for z
  proof (cases "op_type n = ''Unsqueeze''")
    case True
    then obtain as ax where "spec_ints n vals ''axes'' = Some as" "rmap (\<lambda>a. norm_axis a (length (dims_at xs 0) + length as)) as = Inr ax"
        "weave ax 1 [0..<length (dims_at xs 0) + length as] (dims_at xs 0) = Inr z"
      using spec by (auto simp: spec_squeeze_def Let_def split: bind_splits)
    then show ?thesis using rule_sound_gives [OF unsqueeze_sound [OF x]] True by simp
  next
    case False
    then show ?thesis
    proof (cases "spec_ints n vals ''axes''")
      case None
      then show ?thesis using rule_sound_maybe [OF squeeze_all_sound [OF x]] False that by (simp add: spec_squeeze_def Let_def)
    next
      case (Some as)
      then obtain ax where "rmap (\<lambda>a. norm_axis a (length (dims_at xs 0))) as = Inr ax" "z = drop_axes ax (dims_at xs 0)"
        using False spec by (auto simp: spec_squeeze_def Let_def split: bind_splits if_splits)
      then show ?thesis using rule_sound_some [OF squeeze_axes_sound [OF x]] False Some by simp
    qed
  qed
  then show "rule_sound (case Some x of None \<Rightarrow> Inr [None] | Some x \<Rightarrow> ?r x) (spec_squeeze n xs vals)"
    by (cases "spec_squeeze n xs vals") (auto simp: spec_squeeze_def Let_def)
qed simp

text \<open>
  Reductions: no axes, or an empty list of them, reduce every axis, or none with \<^verbatim>\<open>noop_with_empty_axes\<close>.
\<close>

definition reduced_dims :: "int list \<Rightarrow> bool \<Rightarrow> nat list \<Rightarrow> int list" where
  "reduced_dims x keep red = (if keep then map (\<lambda>(i, d). if i \<in> set red then 1 else d) (enumerate_py x) else drop_axes red x)"

definition spec_reduce :: "node \<Rightarrow> int list list \<Rightarrow> (nat \<Rightarrow> rat list) \<Rightarrow> int list list option" where
  "spec_reduce n xs vals =
     (let x = dims_at xs 0; keep = attr_int n ''keepdims'' 1 \<noteq> 0; axes = spec_ints n vals ''axes'' in
      if axes = None \<or> axes = Some [] then
        Some [if attr_int n ''noop_with_empty_axes'' 0 \<noteq> 0 then x else reduced_dims x keep [0..<length x]]
      else Option.bind axes (\<lambda>as. map_option (\<lambda>red. [reduced_dims x keep red]) (res_option (rmap (\<lambda>a. norm_axis a (length x)) as))))"

lemma rule_sound_reduce:
  assumes x: "inshape x d" and red: "(case axes of None \<Rightarrow> Inr [0..<length d] | Some as \<Rightarrow> rmap (\<lambda>a. norm_axis a (length d)) as) = Inr red"
  shows "rule_sound (rbind (reduce_shape x axes keep) (\<lambda>s. Inr [Some s])) (Some [reduced_dims d keep red])"
  unfolding reduced_dims_def by (rule rule_sound_gives [OF reduce_sound [OF x]]) (simp add: reduced_axes_eq [OF x] red)

definition empty_axes_agree :: "node \<Rightarrow> int list option \<Rightarrow> bool" where
  "empty_axes_agree n axes \<longleftrightarrow>
     (axes = None \<longrightarrow> attr_int n ''noop_with_empty_axes'' 0 = 0) \<and> (axes = Some [] \<longrightarrow> attr_int n ''noop_with_empty_axes'' 0 \<noteq> 0)"

lemma reduce_axes_spec:
  "values_in iv n vals \<Longrightarrow> reduce_axes iv n = Some axes \<Longrightarrow> axes = spec_ints n vals ''axes''"
  using to_ints_values [of iv n vals 1] by (auto simp: reduce_axes_def spec_ints_def given_def split: if_splits)

lemma r_reduce_sound:
  assumes ins: "operands_in ins xs" and v: "values_in iv n vals" and agree: "empty_axes_agree n (spec_ints n vals ''axes'')"
  shows "rule_sound (r_reduce iv n ins) (spec_reduce n xs vals)"
  unfolding r_reduce_def
proof (rule rule_sound_first [OF ins])
  fix x assume x: "inshape x (dims_at xs 0)"
  let ?keep = "attr_int n ''keepdims'' 1 \<noteq> 0"
  let ?r = "\<lambda>axes. if axes = Some [] \<and> attr_int n ''noop_with_empty_axes'' 0 \<noteq> 0 then Inr [Some x] else rbind (reduce_shape x axes ?keep) (\<lambda>s. Inr [Some s])"
  have main: "rule_sound (?r axes) (spec_reduce n xs vals)" if axes: "axes = spec_ints n vals ''axes''" for axes
  proof (cases "axes = None \<or> axes = Some []")
    case True
    have "rule_sound (rbind (reduce_shape x None ?keep) (\<lambda>s. Inr [Some s])) (Some [reduced_dims (dims_at xs 0) ?keep [0..<length (dims_at xs 0)]])"
      by (rule rule_sound_reduce [OF x]) simp
    then show ?thesis
      using True agree x unfolding axes [symmetric] spec_reduce_def empty_axes_agree_def Let_def by (auto simp: rule_sound_def)
  next
    case False
    then obtain as where "axes = Some as" "as \<noteq> []" by auto
    then show ?thesis
      using rule_sound_reduce [OF x, of axes _ ?keep] unfolding axes [symmetric] spec_reduce_def Let_def
      by (cases "res_option (rmap (\<lambda>a. norm_axis a (length (dims_at xs 0))) as)") auto
  qed
  show "rule_sound (case Some x of None \<Rightarrow> Inr [None] | Some x \<Rightarrow> (case reduce_axes iv n of None \<Rightarrow> Inr [None]
      | Some axes \<Rightarrow> if axes = Some [] \<and> attr_int n ''noop_with_empty_axes'' 0 \<noteq> 0 then Inr [Some x]
          else rbind (reduce_shape x axes ?keep) (\<lambda>s. Inr [Some s]))) (spec_reduce n xs vals)"
    using main reduce_axes_spec [OF v] by (cases "reduce_axes iv n") auto
qed simp

definition spec_argmax :: "node \<Rightarrow> int list list \<Rightarrow> int list list option" where
  "spec_argmax n xs =
     (let x = dims_at xs 0 in
      map_option (\<lambda>ax. [reduced_dims x (attr_int n ''keepdims'' 1 \<noteq> 0) [ax]]) (res_option (norm_axis (attr_int n ''axis'' 0) (length x))))"

lemma r_argmax_sound:
  assumes ins: "operands_in ins xs"
  shows "rule_sound (r_argmax n ins) (spec_argmax n xs)"
  unfolding r_argmax_def spec_argmax_def Let_def
proof (rule rule_sound_first [OF ins])
  fix x assume x: "inshape x (dims_at xs 0)"
  show "rule_sound (case Some x of None \<Rightarrow> Inr [None] | Some x \<Rightarrow> rbind (reduce_shape x (Some [attr_int n ''axis'' 0]) (attr_int n ''keepdims'' 1 \<noteq> 0)) (\<lambda>s. Inr [Some s]))
    (map_option (\<lambda>ax. [reduced_dims (dims_at xs 0) (attr_int n ''keepdims'' 1 \<noteq> 0) [ax]]) (res_option (norm_axis (attr_int n ''axis'' 0) (length (dims_at xs 0)))))"
    using rule_sound_reduce [OF x, of "Some [attr_int n ''axis'' 0]"] by (cases "norm_axis (attr_int n ''axis'' 0) (length (dims_at xs 0))") (auto simp: res_option_def)
qed simp

section \<open>Splitting, blocks and sampling\<close>

text \<open>
  \<^verbatim>\<open>Split\<close>: stated sizes that add up to the dimension, equal parts, or with \<^verbatim>\<open>num_outputs\<close> parts of the rounded-up size and a smaller last one.
\<close>

definition split_parts :: "int \<Rightarrow> nat \<Rightarrow> node \<Rightarrow> int list option" where
  "split_parts d nout n =
     (case attr_find n ''num_outputs'' of
        None \<Rightarrow> if nout \<noteq> 0 \<and> int nout dvd d then Some (replicate nout (d div int nout)) else None
      | Some a \<Rightarrow> (let k = nat (attr_i a); c = ceil_div d (int k) in
          if k \<noteq> 0 \<and> k = nout then Some (replicate (k - 1) c @ [d - c * (int k - 1)]) else None))"

definition spec_split :: "node \<Rightarrow> int list list \<Rightarrow> (nat \<Rightarrow> rat list) \<Rightarrow> int list list option" where
  "spec_split n xs vals =
     (let x = dims_at xs 0 in
      Option.bind (res_option (norm_axis (attr_int n ''axis'' 0) (length x))) (\<lambda>ax.
        map_option (map (\<lambda>s. x[ax := s]))
          (case spec_ints n vals ''split'' of
             Some sizes \<Rightarrow> if length sizes = length (noutput n) \<and> sum_list sizes = x ! ax then Some sizes else None
           | None \<Rightarrow> split_parts (x ! ax) (length (noutput n)) n)))"

lemma axis_cut:
  assumes "norm_axis a (length x) = Inr ax"
  shows "axis_of a x = int ax" "ax < length x" "with_axis (x :: shape) (int ax) d = x[ax := d]"
proof -
  show ax: "axis_of a x = int ax" "ax < length x" using assms by (auto simp: norm_axis_Inr axis_of_def)
  have "py_cut (length x) (int ax) = ax" "py_cut (length x) (int ax + 1) = Suc ax" using ax(2) by (auto simp: py_cut_def)
  then show "with_axis x (int ax) d = x[ax := d]" using ax(2) by (simp add: with_axis_def py_upto_def py_from_def upd_conv_take_nth_drop)
qed

lemma attr_int_find: "attr_int n name d = (case attr_find n name of None \<Rightarrow> d | Some a \<Rightarrow> attr_i a)"
proof -
  have "dict_get (map (\<lambda>a. (attr_name a, attr_i a)) as) name = map_option attr_i (dict_get (map (\<lambda>a. (attr_name a, a)) as) name)" for as
    by (induction as) auto
  then show ?thesis
    by (simp add: attr_int_def attr_find_def get_default_def rev_map split: option.splits)
qed

text \<open>Where the parts are equal, the rule divides by the number the operator divides by.\<close>

lemma split_parts_equal:
  assumes "split_parts d nout n = Some ps" "attr_find n ''num_outputs'' \<noteq> None \<longrightarrow> int nout dvd d"
  shows "attr_int n ''num_outputs'' (int nout) = int nout" "nout \<noteq> 0" "int nout dvd d" "ps = replicate nout (d div int nout)"
proof -
  show "attr_int n ''num_outputs'' (int nout) = int nout" "nout \<noteq> 0" "int nout dvd d"
    using assms by (auto simp: split_parts_def attr_int_find Let_def split: option.splits if_splits)
  then have "ceil_div d (int nout) = d div int nout" "d - d div int nout * (int nout - 1) = d div int nout"
    using ceil_div_exact [of "int nout" "d div int nout"] by (simp_all add: right_diff_distrib)
  moreover have "replicate (nout - 1) c @ [c] = replicate nout c" for c :: int
    using \<open>nout \<noteq> 0\<close> by (cases nout) (simp_all add: replicate_append_same)
  ultimately show "ps = replicate nout (d div int nout)"
    using assms(1) by (auto simp: split_parts_def Let_def split: option.splits if_splits)
qed

lemma covers_map:
  "rmap f zs = Inr out \<Longrightarrow> (\<And>z s. z \<in> set zs \<Longrightarrow> f z = Inr s \<Longrightarrow> shape_in s (g z)) \<Longrightarrow> covers_all out (map g zs)"
  by (induction zs arbitrary: out) (auto simp: res_simps)

lemma r_split_sound:
  assumes ins: "operands_in ins xs" and v: "values_in iv n vals" "known_operand iv n"
    and parts: "attr_find n ''num_outputs'' \<noteq> None \<longrightarrow> int (length (noutput n)) dvd dims_at xs 0 ! nat (axis_of (attr_int n ''axis'' 0) (dims_at xs 0))"
  shows "rule_sound (r_split iv n ins) (spec_split n xs vals)"
  unfolding r_split_def split_sizes_def operand_ints [OF v] Let_def
proof (rule rule_sound_first [OF ins])
  fix x assume x: "inshape x (dims_at xs 0)"
  let ?d = "dims_at xs 0" and ?axis = "axis_of (attr_int n ''axis'' 0) x" and ?nout = "length (noutput n)"
  let ?eq = "rbind (py_nth x ?axis) (\<lambda>d. rbind (div_range d (attr_int n ''num_outputs'' (int ?nout))) (\<lambda>each. Inr (replicate ?nout (Some (with_axis x ?axis each)))))"
  let ?r = "case (case spec_ints n vals ''split'' of Some s \<Rightarrow> if length s = ?nout then Some s else None | None \<Rightarrow> None) of
      Some sizes \<Rightarrow> rmap (\<lambda>s. rbind (exact s) (\<lambda>d. Inr (Some (with_axis x ?axis d)))) sizes | None \<Rightarrow> ?eq"
  have "covers_all out ys" if r: "?r = Inr out" and y: "spec_split n xs vals = Some ys" and nn: "\<forall>z \<in> set ys. \<forall>v \<in> set z. 0 \<le> v" for out ys
  proof -
    obtain ax where ax: "norm_axis (attr_int n ''axis'' 0) (length ?d) = Inr ax"
      using y by (auto simp: spec_split_def Let_def split: bind_splits)
    then have axx: "norm_axis (attr_int n ''axis'' 0) (length x) = Inr ax" using inshape_length [OF x] by simp
    note cut = axis_cut [OF axx]
    have lt: "ax < length ?d" using cut(2) inshape_length [OF x] by simp
    have nat: "nat (axis_of (attr_int n ''axis'' 0) ?d) = ax" using cut(1) inshape_length [OF x] by (simp add: axis_of_def split: if_splits)
    have upd: "inshape (x[ax := e]) (?d[ax := s])" if "inside e s" for e s by (rule inshape_update [OF x that])
    show ?thesis
    proof (cases "spec_ints n vals ''split''")
      case (Some sizes)
      then have ys: "length sizes = ?nout" "ys = map (\<lambda>s. ?d[ax := s]) sizes"
        using y ax by (auto simp: spec_split_def Let_def split: if_splits)
      then have "\<forall>s \<in> set sizes. 0 \<le> s" using nn lt set_update_memI [OF lt] by fastforce
      then show ?thesis
        unfolding ys(2) using r Some ys(1) cut(1,3)
        by (intro covers_map [where f = "\<lambda>s. rbind (exact s) (\<lambda>d. Inr (Some (with_axis x ?axis d)))"])
          (auto simp: res_simps intro!: upd rgivesD [OF inside_exact])
    next
      case None
      obtain ps where ps: "split_parts (?d ! ax) ?nout n = Some ps" "ys = map (\<lambda>s. ?d[ax := s]) ps"
        using y ax None by (auto simp: spec_split_def Let_def)
      note k = split_parts_equal [OF ps(1) parts [unfolded nat]]
      obtain d where d: "py_nth x ?axis = Inr d" "inside d (?d ! ax)"
        using inshape_nth [OF x lt] cut by (auto simp: py_nth_def)
      have "rgives (div_range d (int ?nout)) (\<lambda>e. inside e (?d ! ax div int ?nout))"
        by (rule div_range_sound [OF d(2)]) (use k in auto)
      then obtain e where "div_range d (int ?nout) = Inr e" "inside e (?d ! ax div int ?nout)" by (auto simp: rgives_def)
      then have "out = replicate ?nout (Some (x[ax := e]))" "inshape (x[ax := e]) (?d[ax := ?d ! ax div int ?nout])"
        using r None d k(1) cut(1,3) upd by auto
      then show ?thesis unfolding ps(2) k(4) by (simp add: covers_same)
    qed
  qed
  then show "rule_sound (case Some x of None \<Rightarrow> Inr (unknown_outputs n) | Some x \<Rightarrow> (case (case spec_ints n vals ''split'' of Some s \<Rightarrow> if length s = ?nout then Some s else None | None \<Rightarrow> None) of
      Some sizes \<Rightarrow> rmap (\<lambda>s. rbind (exact s) (\<lambda>d. Inr (Some (with_axis x (axis_of (attr_int n ''axis'' 0) x) d)))) sizes
    | None \<Rightarrow> rbind (py_nth x (axis_of (attr_int n ''axis'' 0) x)) (\<lambda>d. rbind (div_range d (attr_int n ''num_outputs'' (int ?nout))) (\<lambda>each.
        Inr (replicate ?nout (Some (with_axis x (axis_of (attr_int n ''axis'' 0) x) each))))))) (spec_split n xs vals)"
    unfolding option.simps by (rule rule_soundI)
qed simp

text \<open>Blocks moved between depth and space, for a block size that divides them.\<close>

definition spec_d2s :: "node \<Rightarrow> int list list \<Rightarrow> int list list option" where
  "spec_d2s n xs =
     (let x = dims_at xs 0 in
      Option.bind (attr_find n ''blocksize'') (\<lambda>a. let b = attr_i a in
        if length x = 4 \<and> 0 < b \<and> b * b dvd x ! 1 then Some [[x ! 0, x ! 1 div (b * b), x ! 2 * b, x ! 3 * b]] else None))"

definition spec_s2d :: "node \<Rightarrow> int list list \<Rightarrow> int list list option" where
  "spec_s2d n xs =
     (let x = dims_at xs 0 in
      Option.bind (attr_find n ''blocksize'') (\<lambda>a. let b = attr_i a in
        if length x = 4 \<and> 0 < b \<and> b dvd x ! 2 \<and> b dvd x ! 3 then Some [[x ! 0, x ! 1 * b * b, x ! 2 div b, x ! 3 div b]] else None))"

lemma mono_dim_scale: "inside d v \<Longrightarrow> 0 \<le> k \<Longrightarrow> rgives (mono_dim d (\<lambda>w. w * k)) (\<lambda>e. inside e (v * k))"
  by (rule mono_dim_sound) (auto intro: mult_right_mono dest: inside_nonneg)

lemma div_range_dvd: "inside d v \<Longrightarrow> 0 < k \<Longrightarrow> k dvd v \<Longrightarrow> rgives (div_range d k) (\<lambda>e. inside e (v div k))"
  by (rule div_range_sound) auto

lemma exact_gives: "exact v = Inr d \<Longrightarrow> 0 \<le> v \<Longrightarrow> inside d v"
  using rgivesD [OF inside_exact] by blast

lemma four_dims:
  assumes "inshape x d" "length d = 4"
  shows "inside (x ! 0) (d ! 0)" "inside (x ! 1) (d ! 1)" "inside (x ! 2) (d ! 2)" "inside (x ! 3) (d ! 3)"
  using inshape_nth [OF assms(1)] assms(2) by auto

lemma rule_sound_four:
  assumes "inside a v" "rgives r (\<lambda>e. inside e w)" "rgives s (\<lambda>e. inside e y)" "rgives t (\<lambda>e. inside e z)"
  shows "rule_sound (rbind r (\<lambda>b. rbind s (\<lambda>c. rbind t (\<lambda>d. Inr [Some [a, b, c, d]])))) (Some [[v, w, y, z]])"
  using assms by (auto simp: rule_sound_def rgives_def inshape_def)

lemma r_d2s_sound:
  assumes ins: "operands_in ins xs"
  shows "rule_sound (r_d2s n ins) (spec_d2s n xs)"
  unfolding r_d2s_def
proof (rule rule_sound_first [OF ins])
  fix x assume x: "inshape x (dims_at xs 0)"
  let ?r = "\<lambda>x b. rbind (div_range (x ! 1) (b * b)) (\<lambda>c. rbind (mono_dim (x ! 2) (\<lambda>v. v * b)) (\<lambda>h. rbind (mono_dim (x ! 3) (\<lambda>v. v * b)) (\<lambda>w. Inr [Some [x ! 0, c, h, w]])))"
  have "rule_sound (?r x (attr_i a)) (spec_d2s n xs)" if "attr_find n ''blocksize'' = Some a" "length (dims_at xs 0) = 4" for a
    using that rule_sound_four [OF four_dims(1) [OF x that(2)] div_range_dvd [OF four_dims(2) [OF x that(2)]]
        mono_dim_scale [OF four_dims(3) [OF x that(2)]] mono_dim_scale [OF four_dims(4) [OF x that(2)]]]
    by (auto simp: spec_d2s_def Let_def)
  then show "rule_sound (case Some x of None \<Rightarrow> Inr [None] | Some x \<Rightarrow> if length x \<noteq> 4 then Inr [None] else rbind (attr_get_int n ''blocksize'') (?r x)) (spec_d2s n xs)"
    using inshape_length [OF x] by (cases "attr_find n ''blocksize''") (auto simp: attr_get_int_def spec_d2s_def Let_def)
qed simp

lemma r_s2d_sound:
  assumes ins: "operands_in ins xs"
  shows "rule_sound (r_s2d n ins) (spec_s2d n xs)"
  unfolding r_s2d_def
proof (rule rule_sound_first [OF ins])
  fix x assume x: "inshape x (dims_at xs 0)"
  let ?r = "\<lambda>x b. rbind (mono_dim (x ! 1) (\<lambda>v. v * b * b)) (\<lambda>c. rbind (div_range (x ! 2) b) (\<lambda>h. rbind (div_range (x ! 3) b) (\<lambda>w. Inr [Some [x ! 0, c, h, w]])))"
  have "rule_sound (?r x (attr_i a)) (spec_s2d n xs)" if "attr_find n ''blocksize'' = Some a" "length (dims_at xs 0) = 4" for a
    using that rule_sound_four [OF four_dims(1) [OF x that(2)] mono_dim_scale [OF four_dims(2) [OF x that(2)], of "attr_i a * attr_i a"]
        div_range_dvd [OF four_dims(3) [OF x that(2)]] div_range_dvd [OF four_dims(4) [OF x that(2)]]]
    by (auto simp: spec_s2d_def Let_def mult.assoc)
  then show "rule_sound (case Some x of None \<Rightarrow> Inr [None] | Some x \<Rightarrow> if length x \<noteq> 4 then Inr [None] else rbind (attr_get_int n ''blocksize'') (?r x)) (spec_s2d n xs)"
    using inshape_length [OF x] by (cases "attr_find n ''blocksize''") (auto simp: attr_get_int_def spec_s2d_def Let_def)
qed simp

definition spec_onehot :: "node \<Rightarrow> int list list \<Rightarrow> (nat \<Rightarrow> rat list) \<Rightarrow> int list list option" where
  "spec_onehot n xs vals =
     (let x = dims_at xs 0; a = attr_int n ''axis'' (- 1); pos = (if a < 0 then a + int (length x) + 1 else a) in
      case int_values vals 1 of
        [depth] \<Rightarrow> if 0 \<le> pos \<and> pos \<le> int (length x) then Some [take (nat pos) x @ depth # drop (nat pos) x] else None
      | _ \<Rightarrow> None)"

lemma r_onehot_sound:
  assumes ins: "operands_in ins xs" and v: "values_in iv n vals"
  shows "rule_sound (r_onehot iv n ins) (spec_onehot n xs vals)"
  unfolding r_onehot_def
proof (rule rule_sound_first [OF ins])
  fix x assume x: "inshape x (dims_at xs 0)"
  define pos where "pos = (if attr_int n ''axis'' (- 1) < 0 then attr_int n ''axis'' (- 1) + int (length x) + 1 else attr_int n ''axis'' (- 1))"
  have cut: "inshape (py_upto x pos @ d # py_from x pos) (take (nat pos) (dims_at xs 0) @ v # drop (nat pos) (dims_at xs 0))"
    if "0 \<le> pos" "pos \<le> int (length x)" "inside d v" for d v
    using that inshape_append [OF inshape_take_drop(1) [OF x] inshape_cons [OF _ inshape_take_drop(2) [OF x]]] by (simp add: py_upto_def py_from_def py_cut_def)
  show "rule_sound (case (Some x, to_ints (const_operand iv n 1)) of
         (Some idx, Some [depth]) \<Rightarrow>
           (let axis = attr_int n ''axis'' (- 1); pos = (if axis < 0 then axis + int (length idx) + 1 else axis) in
            rbind (exact depth) (\<lambda>d. Inr [Some (py_upto idx pos @ d # py_from idx pos)]))
       | _ \<Rightarrow> Inr [None]) (spec_onehot n xs vals)"
  proof (cases "\<exists>depth. to_ints (const_operand iv n 1) = Some [depth]")
    case True
    then obtain depth where depth: "to_ints (const_operand iv n 1) = Some [depth]" "int_values vals 1 = [depth]" using to_ints_values [OF v] by metis
    have "spec_onehot n xs vals =
        (if 0 \<le> pos \<and> pos \<le> int (length x) then Some [take (nat pos) (dims_at xs 0) @ depth # drop (nat pos) (dims_at xs 0)] else None)"
      unfolding spec_onehot_def depth(2) Let_def pos_def inshape_length [OF x] by simp
    then show ?thesis
      unfolding depth(1) Let_def option.simps list.simps prod.case pos_def [symmetric]
      by (auto simp: rule_sound_def res_simps intro!: cut exact_gives)
  qed (auto split: option.splits list.splits)
qed auto

definition spec_gridsample :: "int list list \<Rightarrow> int list list option" where
  "spec_gridsample xs =
     (let x = dims_at xs 0; g = dims_at xs 1 in if length x = 4 \<and> length g = 4 then Some [[x ! 0, x ! 1, g ! 1, g ! 2]] else None)"

lemma r_gridsample_sound:
  assumes ins: "operands_in ins xs"
  shows "rule_sound (r_gridsample n ins) (spec_gridsample xs)"
  unfolding r_gridsample_def
proof (rule rule_sound_both [OF ins])
  fix x g assume x: "inshape x (dims_at xs 0)" and g: "inshape g (dims_at xs 1)"
  show "rule_sound (if length x \<noteq> 4 \<or> length g \<noteq> 4 then Inr [None] else Inr [Some [x ! 0, x ! 1, g ! 1, g ! 2]]) (spec_gridsample xs)"
    using four_dims [OF x] four_dims [OF g] by (simp add: rule_sound_def spec_gridsample_def Let_def inshape_def)
qed

definition spec_roialign :: "node \<Rightarrow> int list list \<Rightarrow> int list list option" where
  "spec_roialign n xs =
     (let x = dims_at xs 0; r = dims_at xs 1 in
      if length x = 4 \<and> length r = 2 then Some [[r ! 0, x ! 1, attr_int n ''output_height'' 1, attr_int n ''output_width'' 1]] else None)"

lemma r_roialign_sound:
  assumes ins: "operands_in ins xs"
  shows "rule_sound (r_roialign n ins) (spec_roialign n xs)"
  unfolding r_roialign_def
proof (rule rule_sound_both [OF ins])
  fix x w assume x: "inshape x (dims_at xs 0)" and w: "inshape w (dims_at xs 1)"
  have w0: "inside (w ! 0) (dims_at xs 1 ! 0)" if "length (dims_at xs 1) = 2" by (rule inshape_nth [OF w], use that in linarith)
  show "rule_sound (if length x \<noteq> 4 \<or> length w \<noteq> 2 then Inr [None]
       else rbind (exact (attr_int n ''output_height'' 1)) (\<lambda>h. rbind (exact (attr_int n ''output_width'' 1)) (\<lambda>v. Inr [Some [w ! 0, x ! 1, h, v]]))) (spec_roialign n xs)"
    using four_dims(2) [OF x] w0 inshape_length [OF x] inshape_length [OF w] exact_gives
    by (auto simp: rule_sound_def spec_roialign_def Let_def res_simps inshape_def split: if_splits)
qed

section \<open>Resizing\<close>

text \<open>
  The documented output of \<^verbatim>\<open>Resize\<close>: \<open>floor(in * scale)\<close>, with the extent of the region of interest as a further factor for \<^verbatim>\<open>tf_crop_and_resize\<close>;
  the stated sizes, or with an aspect-ratio policy one scale for all axes, rounded to the nearest integer.
\<close>

definition resize_mode :: "node \<Rightarrow> string" where
  "resize_mode n = attr_str_or n ''coordinate_transformation_mode'' ''half_pixel''"

definition resize_policy :: "node \<Rightarrow> string" where
  "resize_policy n = attr_str_or n ''keep_aspect_ratio_policy'' ''stretch''"

definition scales_at :: "node \<Rightarrow> nat" where
  "scales_at n = (if op_type n = ''Upsample'' \<or> length (ninput n) = 2 then 1 else 2)"

definition scaled_size :: "node \<Rightarrow> rat list \<Rightarrow> nat \<Rightarrow> nat \<Rightarrow> int \<Rightarrow> rat \<Rightarrow> int" where
  "scaled_size n roi k i v q =
     \<lfloor>of_int v * (if resize_mode n = ''tf_crop_and_resize'' \<and> length roi = 2 * k then roi ! (i + k) - roi ! i else 1) * q\<rfloor>"

definition policy_sizes :: "string \<Rightarrow> int list \<Rightarrow> int list \<Rightarrow> int list" where
  "policy_sizes policy x sizes =
     (let ratios = map2 (\<lambda>s v. of_int s / of_int v :: rat) sizes x;
          f = (if policy = ''not_larger'' then Min (set ratios) else Max (set ratios)) in
      if policy = ''stretch'' then sizes else map (\<lambda>v. \<lfloor>f * of_int v + 1 / 2\<rfloor>) x)"

definition spec_resize :: "node \<Rightarrow> int list list \<Rightarrow> (nat \<Rightarrow> rat list) \<Rightarrow> int list list option" where
  "spec_resize n xs vals =
     (let x = dims_at xs 0; k = length x; sc = vals (scales_at n); sizes = int_values vals 3 in
      if attr_find n ''axes'' \<noteq> None then None
      else if given n 3 then
        (if length sizes = k \<and> length sc \<noteq> k then Some [policy_sizes (resize_policy n) x sizes] else None)
      else if length sc = k \<and> (\<forall>q \<in> set sc. 0 < q)
        then Some [map (\<lambda>i. scaled_size n (vals 1) k i (x ! i) (sc ! i)) [0..<k]] else None)"

text \<open>Products of doubles below \<open>2 ^ 53\<close> are rounded to a value between the two neighbouring integers.\<close>

definition rounds_near :: "(rat \<Rightarrow> rat) \<Rightarrow> bool" where
  "rounds_near rnd \<longleftrightarrow> (\<forall>q. \<bar>q\<bar> \<le> 2 ^ 53 \<longrightarrow> of_int \<lfloor>q\<rfloor> \<le> rnd q \<and> rnd q \<le> of_int \<lfloor>q\<rfloor> + 1)"

definition scale_fits :: "dim \<Rightarrow> rat \<Rightarrow> bool" where
  "scale_fits d q \<longleftrightarrow> of_int (lo d) * q \<le> 2 ^ 53 \<and> (\<forall>h. hi d = Some h \<longrightarrow> of_int h * q \<le> 2 ^ 53)"

lemma scaled_dim_sound:
  assumes rnd: "rounds_near rnd" and d: "inside d v" and q: "0 < q" and fits: "scale_fits d q"
  shows "rmaybe (scaled_dim rnd d (Fin q)) (\<lambda>e. inside e \<lfloor>of_int v * q\<rfloor>)"
proof (cases "q = of_int \<lfloor>q\<rfloor>")
  case True
  then have "0 \<le> \<lfloor>q\<rfloor>" using q by linarith
  moreover have "\<lfloor>of_int v * q\<rfloor> = v * \<lfloor>q\<rfloor>" by (metis True floor_of_int of_int_mult)
  ultimately have "rgives (mono_dim d (\<lambda>w. w * \<lfloor>q\<rfloor>)) (\<lambda>e. inside e \<lfloor>of_int v * q\<rfloor>)" using mono_dim_scale [OF d] by simp
  then show ?thesis using True q by (auto simp: scaled_dim_def rmaybe_def rgives_def rmap_opt_def)
next
  case False
  have lo: "0 \<le> lo d" "lo d \<le> v" using d by (auto simp: inside_def)
  have near: "\<lfloor>rnd (of_int w * q)\<rfloor> \<le> \<lfloor>of_int w * q\<rfloor> + 1" "\<lfloor>of_int w * q\<rfloor> \<le> \<lfloor>rnd (of_int w * q)\<rfloor>"
    if "0 \<le> w" "of_int w * q \<le> 2 ^ 53" for w
  proof -
    have "\<bar>of_int w * q\<bar> \<le> 2 ^ 53" using that q by simp
    then have b: "of_int \<lfloor>of_int w * q\<rfloor> \<le> rnd (of_int w * q)" "rnd (of_int w * q) \<le> of_int \<lfloor>of_int w * q\<rfloor> + 1" using rnd by (auto simp: rounds_near_def)
    then show "\<lfloor>rnd (of_int w * q)\<rfloor> \<le> \<lfloor>of_int w * q\<rfloor> + 1" "\<lfloor>of_int w * q\<rfloor> \<le> \<lfloor>rnd (of_int w * q)\<rfloor>"
      by (metis floor_mono floor_of_int of_int_1 of_int_add) (use b in \<open>simp add: le_floor_iff\<close>)
  qed
  have mono: "\<lfloor>of_int a * q\<rfloor> \<le> \<lfloor>of_int b * q\<rfloor>" if "a \<le> b" for a b :: int using that q by (intro floor_mono mult_right_mono) auto
  have "rgives (Dim (max 0 (\<lfloor>rnd (of_int (lo d) * q)\<rfloor> - 1)) (map_option (\<lambda>h. \<lfloor>rnd (of_int h * q)\<rfloor> + 1) (hi d)) None) (\<lambda>e. inside e \<lfloor>of_int v * q\<rfloor>)"
  proof (rule inside_Dim)
    show "max 0 (\<lfloor>rnd (of_int (lo d) * q)\<rfloor> - 1) \<le> \<lfloor>of_int v * q\<rfloor>"
      using near(1) [of "lo d"] mono [OF lo(2)] fits lo q by (auto simp: scale_fits_def)
    fix u assume "map_option (\<lambda>h. \<lfloor>rnd (of_int h * q)\<rfloor> + 1) (hi d) = Some u"
    then obtain h where h: "hi d = Some h" "u = \<lfloor>rnd (of_int h * q)\<rfloor> + 1" by auto
    then have "v \<le> h" using d by (auto simp: inside_def)
    then show "\<lfloor>of_int v * q\<rfloor> \<le> u" using near(2) [of h] mono [of v h] fits h lo by (auto simp: scale_fits_def)
  qed (use lo q in simp)
  then show ?thesis using False q by (auto simp: scaled_dim_def rmaybe_def rgives_def rmap_opt_def)
qed

lemma map2_upt: "length qs = length vs \<Longrightarrow> map (\<lambda>i. f (vs ! i) (qs ! i)) [0..<length vs] = map2 f vs qs"
  by (rule nth_equalityI) auto

lemma scaled_dims_sound:
  assumes "rounds_near rnd" "list_all2 inside ds vs" "list_all2 scale_fits ds sc" "\<forall>q \<in> set sc. 0 < q"
  shows "rmaybe (scaled_dims rnd (zip ds (map Fin sc))) (\<lambda>s. inshape s (map2 (\<lambda>v q. \<lfloor>of_int v * q\<rfloor>) vs sc))"
  using assms(2-)
proof (induction ds vs arbitrary: sc rule: list_all2_induct)
  case (Cons d ds v vs)
  then obtain q qs where sc: "sc = q # qs" "scale_fits d q" "list_all2 scale_fits ds qs" by (auto simp: list_all2_Cons1)
  have "rmaybe (scaled_dims rnd (zip ds (map Fin qs))) (\<lambda>s. inshape s (map2 (\<lambda>v q. \<lfloor>of_int v * q\<rfloor>) vs qs))" using Cons sc by simp
  moreover have "rmaybe (scaled_dim rnd d (Fin q)) (\<lambda>e. inside e \<lfloor>of_int v * q\<rfloor>)"
    using scaled_dim_sound [OF assms(1) Cons.hyps(1) _ sc(2)] Cons.prems sc by simp
  ultimately have "rmaybe (bind_opt (scaled_dim rnd d (Fin q)) (\<lambda>x. bind_opt (scaled_dims rnd (zip ds (map Fin qs))) (\<lambda>xs. Inr (Some (x # xs)))))
      (\<lambda>s. inshape s (\<lfloor>of_int v * q\<rfloor> # map2 (\<lambda>v q. \<lfloor>of_int v * q\<rfloor>) vs qs))"
    by (intro rmaybe_bind [where P = "\<lambda>e. inside e \<lfloor>of_int v * q\<rfloor>"] rmaybe_bind [where P = "\<lambda>s. inshape s (map2 (\<lambda>v q. \<lfloor>of_int v * q\<rfloor>) vs qs)"])
      (auto simp: rmaybe_def intro: inshape_cons)
  then show ?case unfolding sc(1) by simp
qed (simp add: rmaybe_def inshape_def)

definition resize_agrees :: "node \<Rightarrow> shapes \<Rightarrow> (nat \<Rightarrow> rat list) \<Rightarrow> bool" where
  "resize_agrees n ins vals \<longleftrightarrow>
     (if given n 3 then resize_policy n = ''stretch''
      else resize_mode n \<noteq> ''tf_crop_and_resize'' \<and>
        (\<forall>x. operand_or ins 0 = Some x \<longrightarrow> length x = length (vals (scales_at n)) \<longrightarrow> list_all2 scale_fits x (vals (scales_at n))))"

lemma r_resize_sound:
  assumes rnd: "rounds_near rnd" and ins: "operands_in ins xs" and v: "values_in iv n vals" and ok: "resize_agrees n ins vals"
  shows "rule_sound (r_resize rnd iv n ins) (spec_resize n xs vals)"
proof (rule rule_soundI)
  fix out ys
  assume r: "r_resize rnd iv n ins = Inr out" and y: "spec_resize n xs vals = Some ys" and nn: "\<forall>z \<in> set ys. \<forall>v \<in> set z. 0 \<le> v"
  let ?d = "dims_at xs 0"
  have noaxes: "attr_find n ''axes'' = None" using y by (auto simp: spec_resize_def Let_def split: if_splits)
  show "covers_all out ys"
  proof (cases "operand_or ins 0")
    case None
    then have "out = [None]" using r by (auto simp: r_resize_def operand_or_def operand_def split: if_splits)
    then show ?thesis by (cases ys) simp_all
  next
    case (Some x)
    then have x: "inshape x ?d" and op: "operand ins 0 = Inr (Some x)"
      using operand_or_in [OF ins, of 0] by (auto simp: operand_or_def operand_def split: if_splits)
    have len: "length x = length ?d" by (rule inshape_length [OF x])
    have const: "const_operand iv n i = Some c \<Longrightarrow> c = map Fin (vals i)" for i c using v by (auto simp: values_in_def)
    show ?thesis
    proof (cases "given n 3")
      case True
      then have s: "length (int_values vals 3) = length ?d" "length (vals (scales_at n)) \<noteq> length ?d" "ys = [int_values vals 3]"
        using y ok by (auto simp: spec_resize_def resize_agrees_def policy_sizes_def Let_def split: if_splits)
      show ?thesis
      proof (cases "to_ints (const_operand iv n 3)")
        case (Some sizes)
        then have "sizes = int_values vals 3" using to_ints_values [OF v] by blast
        moreover have "rgives (rmap exact (int_values vals 3)) (\<lambda>c. inshape c (int_values vals 3))" using nn s by (intro rmap_exact_sound) simp
        ultimately show ?thesis using r op noaxes Some s len by (auto simp: r_resize_def rgives_def)
      next
        case None
        then have "out = [None]"
          using r op noaxes s(2) len const [of "scales_at n"] by (auto simp: r_resize_def scales_at_def [symmetric] split: option.splits)
        then show ?thesis by (simp add: s)
      qed
    next
      case False
      then have c3: "const_operand iv n 3 = None" by (auto simp: const_operand_def given_def)
      let ?sc = "vals (scales_at n)"
      have s: "length ?sc = length ?d" "\<forall>q \<in> set ?sc. 0 < q" "ys = [map2 (\<lambda>v q. \<lfloor>of_int v * q\<rfloor>) ?d ?sc]"
        using y False ok map2_upt [of ?sc ?d "\<lambda>v q. \<lfloor>of_int v * q\<rfloor>"] by (auto simp: spec_resize_def resize_agrees_def scaled_size_def Let_def split: if_splits)
      have "rmaybe (scaled_dims rnd (zip x (map Fin ?sc))) (\<lambda>c. inshape c (map2 (\<lambda>v q. \<lfloor>of_int v * q\<rfloor>) ?d ?sc))"
        using x ok False Some s len by (intro scaled_dims_sound [OF rnd]) (auto simp: inshape_def resize_agrees_def)
      then show ?thesis
        using r op noaxes c3 s len const [of "scales_at n"]
        by (auto simp: r_resize_def scales_at_def [symmetric] to_ints_def rmaybe_def rgives_def res_simps split: option.splits if_splits)
    qed
  qed
qed

section \<open>Einstein sums\<close>

text \<open>A label has one size in all the terms that carry it, apart from ones, which broadcast.\<close>

definition label_result :: "(char \<times> int) list \<Rightarrow> char \<Rightarrow> int option" where
  "label_result ps ch =
     (let ds = map snd (filter (\<lambda>(c, _). c = ch) ps) in
      case filter (\<lambda>d. d \<noteq> 1) ds of
        [] \<Rightarrow> if ds = [] then None else Some 1
      | d # r \<Rightarrow> if \<forall>e \<in> set r. e = d then Some d else None)"

definition spec_einsum :: "node \<Rightarrow> int list list \<Rightarrow> int list list option" where
  "spec_einsum n xs =
     (let (terms, rhs) = einsum_terms n in
      if list_all2 (\<lambda>t x. length t = length x) terms xs
      then map_option (\<lambda>z. [z]) (those (map (label_result (concat (map2 zip terms xs))) rhs)) else None)"

definition labels_cover :: "(char, dim) dict \<Rightarrow> (char \<times> int) list \<Rightarrow> bool" where
  "labels_cover lab ps \<longleftrightarrow> (\<forall>(c, v) \<in> set ps. \<exists>d. dict_get lab c = Some d \<and> inside d v) \<and> (\<forall>c d. dict_get lab c = Some d \<longrightarrow> wf_dim d)"

lemma label_dims_sound:
  assumes "inshape sh vs" "length cs = length vs" "labels_cover lab ps"
  shows "rgives (label_dims lab (zip cs sh)) (\<lambda>l. labels_cover l (ps @ zip cs vs))"
  using assms unfolding inshape_def
proof (induction sh vs arbitrary: cs lab ps rule: list_all2_induct)
  case (Cons d sh v vs)
  then obtain c r where cs: "cs = c # r" by (cases cs) auto
  have "rgives (case dict_get lab c of None \<Rightarrow> Inr d | Some e \<Rightarrow> dim_hull e d)
      (\<lambda>x. inside x v \<and> (\<forall>w. (c, w) \<in> set ps \<longrightarrow> inside x w))"
  proof (cases "dict_get lab c")
    case None
    then show ?thesis using Cons.hyps(1) Cons.prems(2) by (force simp: labels_cover_def)
  next
    case (Some e)
    then have e: "wf_dim e" using Cons.prems(2) by (auto simp: labels_cover_def)
    have "wf_dim d" using Cons.hyps(1) by (simp add: inside_iff)
    then have "rgives (dim_hull e d) (\<lambda>x. inside x w)" if "(c, w) \<in> set ps" for w
      using hull_left that Some Cons.prems(2) by (force simp: labels_cover_def)
    then show ?thesis using hull_right [OF Cons.hyps(1) e] Some by (auto simp: rgives_def)
  qed
  then obtain x where x: "(case dict_get lab c of None \<Rightarrow> Inr d | Some e \<Rightarrow> dim_hull e d) = Inr x" "inside x v" "\<forall>w. (c, w) \<in> set ps \<longrightarrow> inside x w"
    by (auto simp: rgives_def)
  have "labels_cover (dict_set c x lab) (ps @ [(c, v)])"
    using Cons.prems(2) x by (auto simp: labels_cover_def dict_simps inside_iff split: if_splits)
  then have "rgives (label_dims (dict_set c x lab) (zip r sh)) (\<lambda>l. labels_cover l ((ps @ [(c, v)]) @ zip r vs))"
    using Cons.prems(1) cs by (intro Cons.IH) simp_all
  then show ?case using x(1) cs by simp
qed simp

lemma term_dims_sound:
  assumes "list_all2 inshape shs xs" "list_all2 (\<lambda>t x. length t = length x) terms xs" "labels_cover lab ps"
  shows "rsome (term_dims lab (zip terms shs)) (\<lambda>l. labels_cover l (ps @ concat (map2 zip terms xs)))"
  using assms
proof (induction shs xs arbitrary: terms lab ps rule: list_all2_induct)
  case (Cons sh shs x xs)
  then obtain t r where t: "terms = t # r" "length t = length x" "list_all2 (\<lambda>t x. length t = length x) r xs" by (auto simp: list_all2_Cons2)
  obtain l where "label_dims lab (zip t sh) = Inr l" "labels_cover l (ps @ zip t x)"
    using label_dims_sound [OF Cons.hyps(1) t(2) Cons.prems(2)] by (auto simp: rgives_def)
  then show ?case using Cons.IH [OF t(3), of l "ps @ zip t x"] t inshape_length [OF Cons.hyps(1)] by simp
qed (simp add: rsome_def)

lemma label_result_in:
  assumes "labels_cover lab ps" "label_result ps c = Some v"
  shows "rgives (label_size lab c) (\<lambda>d. inside d v)"
proof -
  define ds where "ds = map snd (filter (\<lambda>(d, _). d = c) ps)"
  have res: "(case filter (\<lambda>d. d \<noteq> 1) ds of [] \<Rightarrow> if ds = [] then None else Some 1 | d # r \<Rightarrow> if \<forall>e \<in> set r. e = d then Some d else None) = Some v"
    using assms(2) unfolding label_result_def Let_def ds_def .
  have "v \<in> set ds"
  proof (cases "filter (\<lambda>d. d \<noteq> 1) ds")
    case Nil
    then show ?thesis using res by (cases ds) (auto split: if_splits)
  next
    case (Cons d r)
    then have "d \<in> set ds" using filter_is_subset [of "\<lambda>d. d \<noteq> 1" ds] by simp
    then show ?thesis using res Cons by (simp split: if_splits)
  qed
  then have "(c, v) \<in> set ps" by (auto simp: ds_def)
  then show ?thesis using assms(1) by (force simp: labels_cover_def label_size_def)
qed

lemma those_rmap:
  "those (map g cs) = Some vs \<Longrightarrow> (\<And>c v. g c = Some v \<Longrightarrow> rgives (f c) (\<lambda>d. inside d v)) \<Longrightarrow> rgives (rmap f cs) (\<lambda>s. inshape s vs)"
proof (induction cs arbitrary: vs)
  case (Cons c cs)
  then obtain v ws where v: "g c = Some v" "those (map g cs) = Some ws" "vs = v # ws" by (auto split: option.splits)
  obtain d s where "f c = Inr d" "inside d v" "rmap f cs = Inr s" "inshape s ws"
    using Cons.IH [OF v(2) Cons.prems(2)] Cons.prems(2) [OF v(1)] by (auto simp: rgives_def)
  then show ?case by (simp add: v(3) inshape_def)
qed (simp add: inshape_def)

lemma those_in: "those ins = Some shs \<Longrightarrow> operands_in ins xs \<Longrightarrow> list_all2 inshape shs xs"
proof (induction ins arbitrary: shs xs)
  case (Cons s ins)
  then obtain x r where "xs = x # r" "shape_in s x" "operands_in ins r" by (auto simp: list_all2_Cons1)
  then show ?case using Cons.IH Cons.prems(1) by (auto split: option.splits)
qed simp

lemma r_einsum_sound:
  assumes ins: "operands_in ins xs"
  shows "rule_sound (r_einsum n ins) (spec_einsum n xs)"
proof (rule rule_soundI)
  fix out ys
  assume r: "r_einsum n ins = Inr out" and y: "spec_einsum n xs = Some ys"
  obtain terms rhs where t: "einsum_terms n = (terms, rhs)" by fastforce
  obtain z where z: "list_all2 (\<lambda>t x. length t = length x) terms xs" "ys = [z]" "those (map (label_result (concat (map2 zip terms xs))) rhs) = Some z"
    using y t by (auto simp: spec_einsum_def split: if_splits)
  consider "out = [None]" | shs where "those ins = Some shs" "rbind (term_dims [] (zip terms shs)) (\<lambda>sz.
      case sz of None \<Rightarrow> Inr [None] | Some lab \<Rightarrow> rbind (rmap (label_size lab) rhs) (\<lambda>s. Inr [Some s])) = Inr out"
    using r t by (auto simp: r_einsum_def Let_def split: if_splits option.splits)
  then show "covers_all out ys"
  proof cases
    case 1
    then show ?thesis by (simp add: z(2))
  next
    case 2
    obtain lab where lab: "term_dims [] (zip terms shs) = Inr (Some lab)" "labels_cover lab (concat (map2 zip terms xs))"
      using term_dims_sound [OF those_in [OF 2(1) ins] z(1), of "[]" "[]"] by (auto simp: rsome_def rgives_def labels_cover_def)
    have "rgives (rmap (label_size lab) rhs) (\<lambda>s. inshape s z)" by (rule those_rmap [OF z(3) label_result_in [OF lab(2)]])
    then show ?thesis using 2(2) lab(1) z(2) by (auto simp: rgives_def)
  qed
qed

section \<open>The contract\<close>

text \<open>The shapes the operators document, by operator, for the operators that have a rule.\<close>

definition onnx_shape :: "node \<Rightarrow> int list list \<Rightarrow> (nat \<Rightarrow> rat list) \<Rightarrow> int list list option" where
  "onnx_shape n xs vals =
     (let t = op_type n in
      if t \<in> set SAME_SHAPE_UNARY then Some [dims_at xs 0]
      else if t = ''Dropout'' then Some [dims_at xs 0, dims_at xs 0]
      else if t = ''DynamicQuantizeLinear'' then Some [dims_at xs 0, [], []]
      else if t = ''LayerNormalization'' then spec_layernorm n xs
      else if t \<in> set BROADCAST_OPS then map_option (\<lambda>z. [z]) (np_broadcast_all (given_dims n xs))
      else if t \<in> {''Conv'', ''ConvInteger'', ''QLinearConv''} then spec_conv n xs
      else if t = ''ConvTranspose'' then spec_convt n xs
      else if t \<in> {''MaxPool'', ''AveragePool'', ''LpPool''} then spec_pool n xs
      else if t \<in> {''GlobalAveragePool'', ''GlobalMaxPool'', ''GlobalLpPool''} then spec_gpool xs
      else if t = ''Gemm'' then spec_gemm n xs
      else if t \<in> {''MatMul'', ''MatMulInteger''} then spec_matmul (dims_at xs 0) (dims_at xs 1)
      else if t = ''Gather'' then spec_gather n xs
      else if t = ''GatherND'' then spec_gather_nd n xs
      else if t = ''Transpose'' then spec_transpose n xs
      else if t = ''Concat'' then spec_concat n xs
      else if t = ''Flatten'' then spec_flatten n xs
      else if t \<in> {''Squeeze'', ''Unsqueeze''} then spec_squeeze n xs vals
      else if t = ''QLinearMatMul'' then spec_matmul (dims_at xs 0) (dims_at xs 3)
      else if t \<in> {''Resize'', ''Upsample''} then spec_resize n xs vals
      else if t = ''Split'' then spec_split n xs vals
      else if t \<in> set REDUCE_OPS then spec_reduce n xs vals
      else if t \<in> {''ArgMax'', ''ArgMin''} then spec_argmax n xs
      else if t \<in> {''ScatterND'', ''ScatterElements'', ''Scatter''} then Some [dims_at xs 0]
      else if t = ''GatherElements'' then Some [dims_at xs 1]
      else if t = ''DepthToSpace'' then spec_d2s n xs
      else if t = ''SpaceToDepth'' then spec_s2d n xs
      else if t = ''OneHot'' then spec_onehot n xs vals
      else if t = ''GridSample'' then spec_gridsample xs
      else if t = ''RoiAlign'' then spec_roialign n xs
      else if t = ''Einsum'' then spec_einsum n xs
      else None)"

text \<open>The nodes a rule is written for: the attributes and operands that a rule leaves out do not change the shape.\<close>

definition rule_covers :: "(string, interval_box) dict \<Rightarrow> node \<Rightarrow> shapes \<Rightarrow> int list list \<Rightarrow> (nat \<Rightarrow> rat list) \<Rightarrow> bool" where
  "rule_covers iv n ins xs vals \<longleftrightarrow>
     (let t = op_type n in
      (t = ''ConvTranspose'' \<longrightarrow> attr_find n ''output_shape'' \<noteq> None \<or> conv_auto_pad n = ''NOTSET'') \<and>
      (t \<in> {''MaxPool'', ''AveragePool'', ''LpPool''} \<longrightarrow> attr_int n ''ceil_mode'' 0 \<noteq> 0 \<longrightarrow> conv_auto_pad n \<noteq> ''VALID'') \<and>
      (t \<in> {''Squeeze'', ''Unsqueeze'', ''Split''} \<longrightarrow> known_operand iv n) \<and>
      (t \<in> {''Resize'', ''Upsample''} \<longrightarrow> resize_agrees n ins vals) \<and>
      (t = ''Split'' \<longrightarrow> attr_find n ''num_outputs'' \<noteq> None \<longrightarrow>
         int (length (noutput n)) dvd dims_at xs 0 ! nat (axis_of (attr_int n ''axis'' 0) (dims_at xs 0))) \<and>
      (t \<in> set REDUCE_OPS \<longrightarrow> empty_axes_agree n (spec_ints n vals ''axes'')))"

definition table_sound :: "shapes res option \<Rightarrow> int list list option \<Rightarrow> bool" where
  "table_sound r y \<longleftrightarrow> (\<forall>x. r = Some x \<longrightarrow> rule_sound x y)"

lemma table_sound_simps [simp]: "table_sound None y" "table_sound (Some x) y \<longleftrightarrow> rule_sound x y"
  by (auto simp: table_sound_def)

lemma table_sound_if: "(c \<Longrightarrow> table_sound a x) \<Longrightarrow> (\<not> c \<Longrightarrow> table_sound b y) \<Longrightarrow> table_sound (if c then a else b) (if c then x else y)"
  by simp

lemma apply_rule_sound:
  assumes rnd: "rounds_near rnd" and ins: "operands_in ins xs" and v: "values_in iv n vals" and cov: "rule_covers iv n ins xs vals"
  shows "table_sound (apply_rule rnd iv n ins) (onnx_shape n xs vals)"
proof -
  note sound = r_same_sound [OF ins] r_dropout_sound [OF ins] r_dql_sound [OF ins] r_layernorm_sound [OF ins] r_broadcast_sound [OF ins]
    r_conv_sound [OF ins] r_convt_sound [OF ins] r_pool_sound [OF ins] r_gpool_sound [OF ins] r_gemm_sound [OF ins] r_matmulint_sound [OF ins]
    r_gather_sound [OF ins] r_gather_nd_sound [OF ins] r_transpose_sound [OF ins] r_concat_sound [OF ins] r_flatten_sound [OF ins]
    r_squeeze_sound [OF ins v] r_qlmm_sound [OF ins] r_resize_sound [OF rnd ins v] r_split_sound [OF ins v] r_reduce_sound [OF ins v] r_argmax_sound [OF ins]
    r_scatter_sound [OF ins] r_gather_elements_sound [OF ins] r_d2s_sound [OF ins] r_s2d_sound [OF ins] r_onehot_sound [OF ins v]
    r_gridsample_sound [OF ins] r_roialign_sound [OF ins] r_einsum_sound [OF ins]
  show ?thesis
    unfolding apply_rule_def onnx_shape_def Let_def
    by (intro table_sound_if; simp only: table_sound_simps)
      (rule sound; insert cov; simp add: rule_covers_def Let_def; blast?)+
qed

lemma fallback_covers:
  assumes "rounds_near rnd" "operands_in ins xs" "values_in iv n vals" "rule_covers iv n ins xs vals"
    and "shape_fallback rnd iv n ins = Inr out" "onnx_shape n xs vals = Some ys" "\<forall>y \<in> set ys. \<forall>v \<in> set y. 0 \<le> v"
  shows "covers_all out ys \<and> length (noutput n) \<le> length out"
proof -
  have "covers_all (replicate k None) ys" for k by (simp add: covers_nth)
  then show ?thesis
    using apply_rule_sound [OF assms(1-4)] assms(5-)
    by (auto simp: shape_fallback_def unknown_outputs_def table_sound_def rule_sound_def res_simps covers_pad split: if_splits option.splits)
qed

text \<open>What an analysis knows of a run: the dimensions \<open>env\<close> of every tensor lie in the recorded shapes.\<close>

definition shapes_hold :: "interval_result \<Rightarrow> (string \<Rightarrow> int list) \<Rightarrow> bool" where
  "shapes_hold r env \<longleftrightarrow>
     (\<forall>x t. dict_get (ranged r) x = Some t \<longrightarrow> inshape (rt_shape t) (env x)) \<and> (\<forall>x b. dict_get (intervals r) x = Some b \<longrightarrow> box_shape b = env x)"

text \<open>The node ran: the operator documents these output shapes, and they are sizes.\<close>

definition ran :: "node \<Rightarrow> (string \<Rightarrow> int list) \<Rightarrow> (nat \<Rightarrow> rat list) \<Rightarrow> bool" where
  "ran n env vals \<longleftrightarrow> (\<exists>ys. onnx_shape n (map env (ninput n)) vals = Some ys \<and> length (noutput n) \<le> length ys \<and>
     (\<forall>i < length (noutput n). env (noutput n ! i) = ys ! i) \<and> (\<forall>y \<in> set ys. \<forall>v \<in> set y. 0 \<le> v))"

lemma known_shape_in:
  assumes "shapes_hold r env" "\<forall>v \<in> set (env x). 0 \<le> v"
  shows "rgives (known_shape r x) (\<lambda>s. shape_in s (env x))"
  using assms rmap_exact_sound [of "env x"]
  by (auto simp: known_shape_def shapes_hold_def from_ints_def rgives_def rmap_opt_def split: option.splits)

lemma record_shapes_hold:
  "shapes_hold r env \<Longrightarrow> (\<forall>(x, s) \<in> set ps. shape_in s (env x)) \<Longrightarrow> shapes_hold (foldl record_shape r ps) env"
proof (induction ps arbitrary: r)
  case (Cons p ps)
  have "shapes_hold (record_shape r p) env"
    using Cons.prems by (auto simp: shapes_hold_def record_shape_def dict_simps split: prod.splits option.splits if_splits)
  then show ?case using Cons by simp
qed simp

text \<open>An entry is not changed once it is there.\<close>

lemma record_shape_keeps: "dict_get (ranged r) x = Some t \<Longrightarrow> dict_get (ranged (foldl record_shape r ps)) x = Some t"
proof (induction ps arbitrary: r)
  case (Cons p ps)
  have "dict_get (ranged (record_shape r p)) x = Some t"
    using Cons.prems by (auto simp: record_shape_def dict_simps split: prod.splits option.splits)
  then show ?case using Cons by simp
qed simp



section \<open>Examples\<close>

definition pt :: "int \<Rightarrow> dim" where
  "pt k = \<lparr>lo = k, hi = Some k, dsym = None\<rparr>"

definition at_int :: "string \<Rightarrow> int \<Rightarrow> attribute" where
  "at_int a v = Attr a v '''' [] None [] None []"

definition at_str :: "string \<Rightarrow> string \<Rightarrow> attribute" where
  "at_str a v = Attr a 0 v [] None [] None []"

definition at_ints :: "string \<Rightarrow> int list \<Rightarrow> attribute" where
  "at_ints a v = Attr a 0 '''' v None [] None []"

definition const_box :: "rat list \<Rightarrow> interval_box" where
  "const_box vs = \<lparr>box_shape = [int (length vs)], box_lo = map Fin vs, box_hi = map Fin vs\<rparr>"

definition wit_conv :: node where
  "wit_conv = Node ''Conv'' '''' ''c'' [''x'', ''w''] [''y''] [at_ints ''strides'' [2, 2], at_ints ''pads'' [1, 1, 1, 1]]"

definition wit_image :: shape where
  "wit_image = [\<lparr>lo = 1, hi = Some 4, dsym = Some ''N''\<rparr>, pt 3, \<lparr>lo = 8, hi = Some 16, dsym = None\<rparr>, \<lparr>lo = 8, hi = None, dsym = None\<rparr>]"

definition wit_kernel :: shape where
  "wit_kernel = [pt 8, pt 3, pt 3, pt 3]"

lemmas wit_conv_defs = wit_conv_def wit_image_def wit_kernel_def pt_def at_ints_def at_int_def at_str_def const_box_def

lemma no_constants: "values_in [] n vals"
  by (simp add: values_in_def const_operand_def)

lemma rounds_near_exact: "rounds_near (\<lambda>q. q)"
  unfolding rounds_near_def using floor_correct [where 'a = rat] by (force intro: less_imp_le)

lemma wit_conv_operands: "list_all2 shape_in [Some wit_image, Some wit_kernel] [[2, 3, 9, 10], [8, 3, 3, 3]]"
  by (simp add: wit_conv_defs inshape_def inside_def)

lemma wit_conv_plain: "rule_covers iv wit_conv ins xs vals"
  by (simp add: rule_covers_def wit_conv_def REDUCE_OPS_def)

lemma wit_conv_fallback:
  "shape_fallback (\<lambda>q. q) iv wit_conv [Some wit_image, Some wit_kernel] =
     Inr [Some [\<lparr>lo = 1, hi = Some 4, dsym = Some ''N''\<rparr>, pt 8, \<lparr>lo = 4, hi = Some 8, dsym = None\<rparr>, \<lparr>lo = 4, hi = None, dsym = None\<rparr>]]"
  by code_simp

lemma wit_conv_shape: "onnx_shape wit_conv [[2, 3, 9, 10], [8, 3, 3, 3]] vals = Some [[2, 8, 5, 5]]"
  by (simp add: onnx_shape_def spec_conv_def spec_spatial_def window_size_def conv_strides_def conv_dilations_def conv_pads_def conv_auto_pad_def
      attr_ints_or_def attr_str_or_def attr_find_def dims_at_def wit_conv_defs SAME_SHAPE_UNARY_def BROADCAST_OPS_def Let_def upt_rec numeral_2_eq_2 eval_nat_numeral)


definition wit_env :: "string \<Rightarrow> int list" where
  "wit_env x = (if x = ''x'' then [2, 3, 9, 10] else if x = ''w'' then [8, 3, 3, 3] else if x = ''y'' then [2, 8, 5, 5] else [])"

definition wit_known :: interval_result where
  "wit_known = \<lparr>intervals = [], ranged = [(''x'', \<lparr>rt_shape = wit_image, rt_hull = (NInf, PInf)\<rparr>), (''w'', \<lparr>rt_shape = wit_kernel, rt_hull = (NInf, PInf)\<rparr>)]\<rparr>"

lemma wit_known_holds: "shapes_hold wit_known wit_env"
  using wit_conv_operands by (auto simp: shapes_hold_def wit_known_def wit_env_def split: if_splits)

lemma wit_ran: "ran wit_conv wit_env (\<lambda>_. [])"
  using wit_conv_shape [of "\<lambda>_. []"] by (simp add: ran_def wit_env_def wit_conv_def)

lemma wit_sizes: "\<forall>x. \<forall>v \<in> set (wit_env x). 0 \<le> v"
  by (auto simp: wit_env_def)

lemma wit_values: "values_in (intervals wit_known) wit_conv (\<lambda>_. [])"
  by (simp add: wit_known_def no_constants)


section \<open>Where the rules break their contract\<close>

definition breaks :: "(string, interval_box) dict \<Rightarrow> node \<Rightarrow> shapes \<Rightarrow> int list list \<Rightarrow> (nat \<Rightarrow> rat list) \<Rightarrow> bool" where
  "breaks iv n ins xs vals \<longleftrightarrow> list_all2 shape_in ins xs \<and> values_in iv n vals \<and>
     (\<exists>out ys. shape_fallback (\<lambda>q. q) iv n ins = Inr out \<and> onnx_shape n xs vals = Some ys \<and> (\<forall>y \<in> set ys. \<forall>v \<in> set y. 0 \<le> v) \<and> \<not> covers_all out ys)"

lemma breaksI:
  assumes "shape_fallback (\<lambda>q. q) iv n ins = Inr out" "onnx_shape n xs vals = Some ys" "\<not> covers_all out ys" "\<forall>y \<in> set ys. \<forall>v \<in> set y. 0 \<le> v"
    and "list_all2 shape_in ins xs" "values_in iv n vals"
  shows "breaks iv n ins xs vals"
  using assms by (auto simp: breaks_def)

text \<open>The values of one operand; the others have none that matter.\<close>

definition at_operand :: "nat \<Rightarrow> rat list \<Rightarrow> nat \<Rightarrow> rat list" where
  "at_operand i vs j = (if j = i then vs else [])"

definition convt_same :: node where
  "convt_same = Node ''ConvTranspose'' '''' '''' [''x'', ''w''] [''y''] [at_ints ''strides'' [2], at_str ''auto_pad'' ''SAME_UPPER'']"

definition pool_valid :: node where
  "pool_valid = Node ''MaxPool'' '''' '''' [''x''] [''y''] [at_ints ''kernel_shape'' [3], at_ints ''strides'' [2], at_int ''ceil_mode'' 1, at_str ''auto_pad'' ''VALID'']"

definition squeeze_unknown :: node where
  "squeeze_unknown = Node ''Squeeze'' '''' '''' [''x'', ''axes''] [''y''] []"

definition split_unknown :: node where
  "split_unknown = Node ''Split'' '''' '''' [''x'', ''split''] [''y'', ''z''] []"

definition split_uneven :: node where
  "split_uneven = Node ''Split'' '''' '''' [''x''] [''a'', ''b'', ''c'', ''d''] [at_int ''num_outputs'' 4]"

definition reduce_empty :: node where
  "reduce_empty = Node ''ReduceSum'' '''' '''' [''x'', ''axes''] [''y''] []"

definition reduce_noop :: node where
  "reduce_noop = Node ''ReduceSum'' '''' '''' [''x''] [''y''] [at_int ''noop_with_empty_axes'' 1]"

definition resize_aspect :: node where
  "resize_aspect = Node ''Resize'' '''' '''' [''x'', '''', '''', ''sizes''] [''y''] [at_str ''keep_aspect_ratio_policy'' ''not_larger'']"

definition resize_crop :: node where
  "resize_crop = Node ''Resize'' '''' '''' [''x'', ''roi'', ''scales''] [''y''] [at_str ''coordinate_transformation_mode'' ''tf_crop_and_resize'']"

lemmas break_defs = at_operand_def pt_def const_box_def at_int_def at_str_def at_ints_def

lemma const_operand_one: "const_operand [(x, b)] n i =
    (if i < length (ninput n) \<and> ninput n ! i = x \<and> x \<noteq> '''' \<and> list_all2 fl_eq (box_lo b) (box_hi b) then Some (box_lo b) else None)"
  by (auto simp: const_operand_def)

lemma fl_eq_Fin: "list_all2 fl_eq (map Fin vs) (map Fin vs)"
  by (induction vs) auto

lemma breaks_convt: "breaks [] convt_same [Some [pt 1, pt 1, pt 4], Some [pt 1, pt 1, pt 3]] [[1, 1, 4], [1, 1, 3]] (\<lambda>_. [])"
  by (rule breaksI [where out = "[Some [pt 1, pt 1, pt 9]]" and ys = "[[1, 1, 8]]"], code_simp, code_simp)
    (simp_all add: inshape_def inside_def pt_def no_constants)

lemma breaks_pool: "breaks [] pool_valid [Some [pt 1, pt 1, pt 4]] [[1, 1, 4]] (\<lambda>_. [])"
  by (rule breaksI [where out = "[Some [pt 1, pt 1, pt 2]]" and ys = "[[1, 1, 1]]"], code_simp, code_simp)
    (simp_all add: inshape_def inside_def pt_def no_constants)

lemma breaks_squeeze: "breaks [] squeeze_unknown [Some [pt 1, pt 1, pt 5], None] [[1, 1, 5], [1]] (at_operand 1 [0])"
  by (rule breaksI [where out = "[Some [pt 5]]" and ys = "[[1, 5]]"], code_simp, code_simp)
    (simp_all add: inshape_def inside_def pt_def no_constants)

lemma breaks_split: "breaks [] split_unknown [Some [pt 10], None] [[10], [2]] (at_operand 1 [3, 7])"
  by (rule breaksI [where out = "[Some [pt 5], Some [pt 5]]" and ys = "[[3], [7]]"], code_simp, code_simp)
    (simp_all add: inshape_def inside_def pt_def no_constants)

lemma breaks_uneven: "breaks [] split_uneven [Some [pt 10]] [[10]] (\<lambda>_. [])"
  by (rule breaksI [where out = "replicate 4 (Some [\<lparr>lo = 2, hi = Some 3, dsym = None\<rparr>])" and ys = "[[3], [3], [3], [1]]"], code_simp, code_simp)
    (simp_all add: inshape_def inside_def pt_def no_constants eval_nat_numeral)

lemma breaks_empty_axes: "breaks [(''axes'', const_box [])] reduce_empty [Some [pt 2, pt 3], Some [pt 0]] [[2, 3], [0]] (\<lambda>_. [])"
  by (rule breaksI [where out = "[Some [pt 2, pt 3]]" and ys = "[[1, 1]]"], code_simp, code_simp)
    (simp_all add: inshape_def inside_def pt_def values_in_def const_operand_one const_box_def)

lemma breaks_noop: "breaks [] reduce_noop [Some [pt 2, pt 3]] [[2, 3]] (\<lambda>_. [])"
  by (rule breaksI [where out = "[Some [pt 1, pt 1]]" and ys = "[[2, 3]]"], code_simp, code_simp)
    (simp_all add: inshape_def inside_def pt_def no_constants)

lemma breaks_aspect: "breaks [(''sizes'', const_box [8, 8])] resize_aspect [Some [pt 4, pt 8], None, None, Some [pt 2]] [[4, 8], [], [], [2]] (at_operand 3 [8, 8])"
  by (rule breaksI [where out = "[Some [pt 8, pt 8]]" and ys = "[[4, 8]]"], code_simp, code_simp)
    (simp_all add: inshape_def inside_def pt_def values_in_def const_operand_one const_box_def at_operand_def resize_aspect_def nth_Cons split: nat.splits)

lemma breaks_crop: "breaks [(''scales'', const_box [2])] resize_crop [Some [pt 4], None, Some [pt 1]] [[4], [2], [1]]
    (\<lambda>i. if i = 1 then [0, 1 / 2] else at_operand 2 [2] i)"
  by (rule breaksI [where out = "[Some [pt 8]]" and ys = "[[4]]"], code_simp, code_simp)
    (simp_all add: inshape_def inside_def pt_def values_in_def const_operand_one const_box_def at_operand_def resize_crop_def nth_Cons split: nat.splits)


end
