(* ===== verification/Rpc_Protocol.thy ===== *)
theory Rpc_Protocol
  imports Shape_Ranges Onnx
begin

text \<open>
  \<^verbatim>\<open>onnxsim/rpc/_protocol.py\<close>: the wire format of the RPC server, client and tracker.

  A socket is the sequence of non-empty chunks that \<^verbatim>\<open>recv\<close> will deliver before the peer closes the
  connection. \<^verbatim>\<open>json.dumps\<close> with UTF-8 encoding and its inverse are the arguments \<open>dumps\<close> and
  \<open>loads\<close>; \<^verbatim>\<open>np.prod\<close> at 64 bits and \<^verbatim>\<open>reshape\<close> of numpy are the arguments \<open>np_prod\<close> and
  \<open>np_reshape\<close>. A tensor is its dtype name, its shape and the bit patterns of its elements in C order.
\<close>

section \<open>JSON values and how Python reads them\<close>

datatype json =
    JNull | JBool bool | JInt int | JFloat fl | JStr string | JList "json list" | JObj "(string \<times> json) list"

text \<open>\<^verbatim>\<open>d[k]\<close> and \<^verbatim>\<open>d.get(k)\<close>.\<close>

fun jitem :: "json \<Rightarrow> string \<Rightarrow> json res" where
  "jitem (JObj d) k = (case map_of d k of None \<Rightarrow> Inl (KeyError k) | Some v \<Rightarrow> Inr v)"
| "jitem _ k = Inl (TypeError ''indices'')"

fun jget :: "json \<Rightarrow> string \<Rightarrow> json res" where
  "jget (JObj d) k = Inr (get_default d k JNull)"
| "jget _ k = Inl (OtherError ''AttributeError'')"

fun truthy :: "json \<Rightarrow> bool" where
  "truthy JNull = False"
| "truthy (JBool b) = b"
| "truthy (JInt i) = (i \<noteq> 0)"
| "truthy (JFloat x) = (\<not> fl_eq x (Fin 0))"
| "truthy (JStr s) = (s \<noteq> [])"
| "truthy (JList xs) = (xs \<noteq> [])"
| "truthy (JObj d) = (d \<noteq> [])"

text \<open>Iterating over a value: the elements of a list, the characters of a string, the keys of a dictionary.\<close>

fun json_iter :: "json \<Rightarrow> json list res" where
  "json_iter (JList xs) = Inr xs"
| "json_iter (JStr s) = Inr (map (\<lambda>c. JStr [c]) s)"
| "json_iter (JObj d) = Inr (map (\<lambda>(k, v). JStr k) d)"
| "json_iter _ = Inl (TypeError ''not iterable'')"

text \<open>\<^verbatim>\<open>int(s)\<close> on a string: blanks around, an optional sign, decimal digits with single underscores between them.\<close>

definition is_digit :: "char \<Rightarrow> bool" where
  "is_digit c \<longleftrightarrow> CHR ''0'' \<le> c \<and> c \<le> CHR ''9''"

definition digit_value :: "char \<Rightarrow> nat" where
  "digit_value c = of_char c - 48"

fun digits_value :: "nat \<Rightarrow> string \<Rightarrow> nat option" where
  "digits_value acc [] = Some acc"
| "digits_value acc [c] = (if is_digit c then Some (10 * acc + digit_value c) else None)"
| "digits_value acc (c # d # cs) =
     (if \<not> is_digit c then None
      else if d = CHR ''_'' then (if cs = [] then None else digits_value (10 * acc + digit_value c) cs)
      else digits_value (10 * acc + digit_value c) (d # cs))"

definition is_blank :: "char \<Rightarrow> bool" where
  "is_blank c \<longleftrightarrow> c = CHR '' '' \<or> (CHR 0x09 \<le> c \<and> c \<le> CHR 0x0D) \<or> (CHR 0x1C \<le> c \<and> c \<le> CHR 0x1F)"

definition strip :: "string \<Rightarrow> string" where
  "strip s = rev (dropWhile is_blank (rev (dropWhile is_blank s)))"

definition int_str :: "string \<Rightarrow> int res" where
  "int_str s =
     (let value = (\<lambda>sgn ds. case ds of [] \<Rightarrow> Inl (ValueError ''int'')
             | _ \<Rightarrow> (case digits_value 0 ds of None \<Rightarrow> Inl (ValueError ''int'') | Some n \<Rightarrow> Inr (sgn * int n))) in
      case strip s of
        [] \<Rightarrow> Inl (ValueError ''int'')
      | c # cs \<Rightarrow> if c = CHR ''-'' then value (- 1) cs else if c = CHR ''+'' then value 1 cs else value 1 (c # cs))"

text \<open>\<^verbatim>\<open>int(x)\<close> truncates a float towards zero.\<close>

fun json_int :: "json \<Rightarrow> int res" where
  "json_int (JInt i) = Inr i"
| "json_int (JBool b) = Inr (if b then 1 else 0)"
| "json_int (JFloat (Fin r)) = Inr (if 0 \<le> r then \<lfloor>r\<rfloor> else \<lceil>r\<rceil>)"
| "json_int (JFloat NaN) = Inl (ValueError ''int'')"
| "json_int (JFloat _) = Inl (OtherError ''OverflowError'')"
| "json_int (JStr s) = int_str s"
| "json_int _ = Inl (TypeError ''int'')"

text \<open>A number; \<^verbatim>\<open>math.isfinite\<close> raises on other values.\<close>

fun json_num :: "json \<Rightarrow> fl res" where
  "json_num (JInt i) = Inr (Fin (of_int i))"
| "json_num (JBool b) = Inr (Fin (if b then 1 else 0))"
| "json_num (JFloat x) = Inr x"
| "json_num _ = Inl (TypeError ''must be real number'')"

text \<open>\<^verbatim>\<open>math.isfinite\<close>: an int is converted to a double first.\<close>

fun math_isfinite :: "json \<Rightarrow> bool res" where
  "math_isfinite (JInt i) = (if \<bar>i\<bar> \<ge> 2 ^ 1024 - 2 ^ 970 then Inl (OtherError ''OverflowError'') else Inr True)"
| "math_isfinite v = rbind (json_num v) (\<lambda>x. Inr (isfinite x))"

text \<open>A value as a dictionary key: lists and dictionaries are unhashable, equal numbers are one key.\<close>

fun hash_key :: "json \<Rightarrow> json res" where
  "hash_key (JBool b) = Inr (JInt (if b then 1 else 0))"
| "hash_key (JFloat (Fin r)) = Inr (if of_int \<lfloor>r\<rfloor> = r then JInt \<lfloor>r\<rfloor> else JFloat (Fin r))"
| "hash_key (JList _) = Inl (TypeError ''unhashable'')"
| "hash_key (JObj _) = Inl (TypeError ''unhashable'')"
| "hash_key v = Inr v"

section \<open>Packed integers\<close>

fun le_bytes :: "nat \<Rightarrow> nat \<Rightarrow> bytes" where
  "le_bytes 0 n = []"
| "le_bytes (Suc k) n = word_of_nat n # le_bytes k (n div 256)"

fun le_nat :: "bytes \<Rightarrow> nat" where
  "le_nat [] = 0"
| "le_nat (b # bs) = unat b + 256 * le_nat bs"

definition pack :: "nat \<Rightarrow> nat \<Rightarrow> bytes res" where
  "pack k n = (if n < 256 ^ k then Inr (le_bytes k n) else Inl (OtherError ''struct.error''))"

lemma length_le_bytes [simp]: "length (le_bytes k n) = k"
  by (induction k arbitrary: n) auto

lemma le_nat_le_bytes: "n < 256 ^ k \<Longrightarrow> le_nat (le_bytes k n) = n"
proof (induction k arbitrary: n)
  case 0
  then show ?case by simp
next
  case (Suc k)
  then have "n div 256 < 256 ^ k" by (simp add: less_mult_imp_div_less mult.commute)
  then have "le_nat (le_bytes k (n div 256)) = n div 256" by (rule Suc.IH)
  then show ?case by (simp add: unat_of_nat)
qed

lemma unat_byte: "unat (b :: byte) < 256"
  using unsigned_less [of b] by simp

lemma le_nat_less: "le_nat bs < 256 ^ length bs"
proof (induction bs)
  case Nil
  then show ?case by simp
next
  case (Cons b bs)
  have "unat b < 256" using unat_byte by simp
  then show ?case using Cons by simp
qed

section \<open>Sockets\<close>

type_synonym sock = "bytes list"

definition sock_ok :: "sock \<Rightarrow> bool" where
  "sock_ok s \<longleftrightarrow> [] \<notin> set s"

fun sock_recv :: "nat \<Rightarrow> sock \<Rightarrow> bytes \<times> sock" where
  "sock_recv n [] = ([], [])"
| "sock_recv n (c # cs) = (take n c, if n < length c then drop n c # cs else cs)"

function recv_loop :: "nat \<Rightarrow> sock \<Rightarrow> bytes list \<Rightarrow> (bytes \<times> sock) res" where
  "recv_loop remaining s chunks =
     (if remaining = 0 then Inr (concat chunks, s)
      else let r = sock_recv (min remaining (2 ^ 20)) s in
        if fst r = [] then Inl (ConnectionError ''connection closed while reading a message'')
        else recv_loop (remaining - length (fst r)) (snd r) (chunks @ [fst r]))"
  by pat_completeness auto
termination by (relation "measure (\<lambda>(r, s, c). r)") (auto simp flip: length_greater_0_conv simp del: length_greater_0_conv)

declare recv_loop.simps [simp del]

definition recv_exact :: "nat \<Rightarrow> sock \<Rightarrow> (bytes \<times> sock) res" where
  "recv_exact count s = recv_loop count s []"

lemma sock_recv_stream:
  assumes "sock_ok s" "0 < n" "sock_recv n s = (c, s')"
  shows "concat s = c @ concat s'" "sock_ok s'" "length c \<le> n" "c = [] \<longleftrightarrow> concat s = []"
proof -
  show "concat s = c @ concat s'" using assms by (cases s) auto
  show "sock_ok s'" using assms by (cases s) (auto simp: sock_ok_def split: if_splits)
  show "length c \<le> n" using assms by (cases s) auto
  show "c = [] \<longleftrightarrow> concat s = []"
    using assms by (cases s) (auto simp: sock_ok_def)
qed

text \<open>The bytes that \<^verbatim>\<open>_recv_exact\<close> returns depend on the stream, not on how it is cut into chunks.\<close>

lemma recv_loop_stream:
  assumes "sock_ok s"
  shows "if r \<le> length (concat s)
    then \<exists>s'. recv_loop r s cs = Inr (concat cs @ take r (concat s), s') \<and> sock_ok s' \<and> concat s' = drop r (concat s)
    else recv_loop r s cs = Inl (ConnectionError ''connection closed while reading a message'')"
  using assms
proof (induction r s cs rule: recv_loop.induct)
  case (1 r s cs)
  show ?case
  proof (cases "r = 0")
    case True
    then show ?thesis using "1.prems" by (simp add: recv_loop.simps)
  next
    case False
    obtain c s' where c: "sock_recv (min r (2 ^ 20)) s = (c, s')" by (cases "sock_recv (min r (2 ^ 20)) s") auto
    have pos: "0 < min r (2 ^ 20)" using False by simp
    note st = sock_recv_stream [OF "1.prems" pos c]
    show ?thesis
    proof (cases "c = []")
      case True
      then have "concat s = []" using st(4) by blast
      then have "\<not> r \<le> length (concat s)" using False by (simp only: list.size)
      moreover have "recv_loop r s cs = Inl (ConnectionError ''connection closed while reading a message'')"
        using False True c by (subst recv_loop.simps) (simp add: Let_def)
      ultimately show ?thesis by simp
    next
      case ne: False
      have step: "recv_loop r s cs = recv_loop (r - length c) s' (cs @ [c])"
        using False ne c by (subst recv_loop.simps) (simp add: Let_def)
      have "if r - length c \<le> length (concat s')
        then \<exists>t. recv_loop (r - length c) s' (cs @ [c]) = Inr (concat (cs @ [c]) @ take (r - length c) (concat s'), t) \<and>
          sock_ok t \<and> concat t = drop (r - length c) (concat s')
        else recv_loop (r - length c) s' (cs @ [c]) = Inl (ConnectionError ''connection closed while reading a message'')"
        using "1.IH" [OF False refl, unfolded c fst_conv snd_conv, OF ne st(2)] .
      moreover have "r - length c \<le> length (concat s') \<longleftrightarrow> r \<le> length (concat s)"
        using st(1) by (simp add: le_diff_conv add.commute)
      ultimately show ?thesis using st(1,3) step by (simp split: if_splits)
    qed
  qed
qed

text \<open>What is read is gone from the stream.\<close>

lemma sock_recv_split: "sock_recv n s = (c, s') \<Longrightarrow> concat s = c @ concat s' \<and> length c \<le> n"
  by (cases s) (auto split: if_splits)

lemma recv_loop_consumes:
  "recv_loop r s cs = Inr (bs, s') \<Longrightarrow> length (concat s) = r + length (concat s')"
proof (induction r s cs rule: recv_loop.induct)
  case (1 r s cs)
  show ?case
  proof (cases "r = 0")
    case True
    then show ?thesis using "1.prems" by (simp add: recv_loop.simps)
  next
    case False
    obtain c s1 where c: "sock_recv (min r (2 ^ 20)) s = (c, s1)" by (cases "sock_recv (min r (2 ^ 20)) s") auto
    have split: "concat s = c @ concat s1" and le: "length c \<le> r" using sock_recv_split [OF c] by auto
    have "recv_loop r s cs = (if c = [] then Inl (ConnectionError ''connection closed while reading a message'')
        else recv_loop (r - length c) s1 (cs @ [c]))"
      using False c by (subst recv_loop.simps) (simp add: Let_def)
    then have ne: "c \<noteq> []" and rest: "recv_loop (r - length c) s1 (cs @ [c]) = Inr (bs, s')"
      using "1.prems" by (simp_all split: if_splits)
    show ?thesis using "1.IH" [OF False refl, unfolded c fst_conv snd_conv, OF ne rest] split le by simp
  qed
qed

lemma recv_exact_consumes: "recv_exact n s = Inr (bs, s') \<Longrightarrow> length (concat s) = n + length (concat s')"
  unfolding recv_exact_def by (rule recv_loop_consumes)

lemma recv_exact_ok:
  assumes "sock_ok s" "concat s = bs @ rest"
  obtains s' where "recv_exact (length bs) s = Inr (bs, s')" "sock_ok s'" "concat s' = rest"
proof -
  have "length bs \<le> length (concat s)" using assms(2) by (simp only: length_append)
  then obtain s' where "recv_loop (length bs) s [] = Inr (take (length bs) (concat s), s')" "sock_ok s'"
      "concat s' = drop (length bs) (concat s)"
    using recv_loop_stream [OF assms(1), of "length bs" "[]"] by (simp only: if_True) auto
  then show thesis using that assms(2) by (auto simp: recv_exact_def)
qed

lemma recv_exact_Inr:
  assumes "sock_ok s" "recv_exact n s = Inr (bs, s')"
  shows "sock_ok s'" "concat s = bs @ concat s'" "length bs = n"
  using recv_loop_stream [OF assms(1), of n "[]"] assms(2) by (auto simp: recv_exact_def split: if_splits)

section \<open>Messages\<close>

definition MAX_HEADER_BYTES :: nat where
  "MAX_HEADER_BYTES = 64 * 1024 * 1024"

definition DEFAULT_MAX_BLOB_BYTES :: nat where
  "DEFAULT_MAX_BLOB_BYTES = 4 * 1024 ^ 3"

fun blob_parts :: "bytes list \<Rightarrow> bytes list res" where
  "blob_parts [] = Inr []"
| "blob_parts (b # bs) = rbind (pack 8 (length b)) (\<lambda>p. rbind (blob_parts bs) (\<lambda>ps. Inr (p # b # ps)))"

text \<open>The bytes that \<^verbatim>\<open>send_message\<close> writes.\<close>

definition send_message :: "(json \<Rightarrow> bytes) \<Rightarrow> json \<Rightarrow> bytes list \<Rightarrow> bytes res" where
  "send_message dumps header blobs =
     (let payload = dumps header in
      rbind (pack 4 (length payload)) (\<lambda>h. rbind (pack 4 (length blobs)) (\<lambda>n.
      rbind (blob_parts blobs) (\<lambda>ps. Inr (concat ((h @ n) # payload # ps))))))"

fun recv_blobs :: "nat \<Rightarrow> nat \<Rightarrow> sock \<Rightarrow> (bytes list \<times> sock) res" where
  "recv_blobs max_blob_bytes 0 s = Inr ([], s)"
| "recv_blobs max_blob_bytes (Suc n) s =
     rbind (recv_exact 8 s) (\<lambda>(h, s1).
       if le_nat h > max_blob_bytes then Inl (RPCError ''blob exceeds the byte limit'')
       else rbind (recv_exact (le_nat h) s1) (\<lambda>(b, s2).
         rbind (recv_blobs max_blob_bytes n s2) (\<lambda>(bs, s3). Inr (b # bs, s3))))"

definition recv_message :: "(bytes \<Rightarrow> json res) \<Rightarrow> nat \<Rightarrow> sock \<Rightarrow> ((json \<times> bytes list) \<times> sock) res" where
  "recv_message loads max_blob_bytes s =
     rbind (recv_exact 8 s) (\<lambda>(h, s1).
       let header_len = le_nat (take 4 h); blob_count = le_nat (drop 4 h) in
       if header_len > MAX_HEADER_BYTES \<or> blob_count > 1000000
       then Inl (RPCError ''message header exceeds the protocol limits'')
       else rbind (recv_exact header_len s1) (\<lambda>(payload, s2).
         rbind (loads payload) (\<lambda>header.
           rbind (recv_blobs max_blob_bytes blob_count s2) (\<lambda>(blobs, s3). Inr ((header, blobs), s3)))))"

section \<open>What a message becomes\<close>

lemma pack_Inr: "pack k n = Inr p \<longleftrightarrow> n < 256 ^ k \<and> p = le_bytes k n"
  by (auto simp: pack_def)

lemma recv_packed:
  assumes "sock_ok s" "pack k n = Inr p" "concat s = p @ rest"
  obtains s' where "recv_exact k s = Inr (p, s')" "sock_ok s'" "concat s' = rest" "le_nat p = n"
proof -
  have p: "p = le_bytes k n" "n < 256 ^ k" using assms(2) by (auto simp: pack_Inr)
  show thesis using recv_exact_ok [OF assms(1,3)] that p le_nat_le_bytes by (metis length_le_bytes)
qed

text \<open>The outcome of reading blobs that were written in full: they arrive when all of them are within the limit, and an RPCError otherwise.\<close>

lemma recv_blobs_written:
  assumes "blob_parts blobs = Inr ps" "sock_ok s" "concat s = concat ps @ rest"
  shows "if \<forall>b \<in> set blobs. length b \<le> m
    then \<exists>s'. recv_blobs m (length blobs) s = Inr (blobs, s') \<and> sock_ok s' \<and> concat s' = rest
    else \<exists>t. recv_blobs m (length blobs) s = Inl (RPCError t)"
  using assms
proof (induction blobs arbitrary: ps s)
  case Nil
  then show ?case by simp
next
  case (Cons b blobs)
  obtain p qs where p: "pack 8 (length b) = Inr p" "blob_parts blobs = Inr qs" "ps = p # b # qs"
    using Cons.prems(1) by (auto simp: res_simps)
  then have "concat s = p @ (b @ (concat qs @ rest))" using Cons.prems(3) by simp
  then obtain s1 where s1: "recv_exact 8 s = Inr (p, s1)" "sock_ok s1" "concat s1 = b @ (concat qs @ rest)" "le_nat p = length b"
    using recv_packed [OF Cons.prems(2) p(1)] by blast
  obtain s2 where s2: "recv_exact (length b) s1 = Inr (b, s2)" "sock_ok s2" "concat s2 = concat qs @ rest"
    using recv_exact_ok [OF s1(2,3)] by blast
  have step: "recv_blobs m (length (b # blobs)) s =
      (if m < length b then Inl (RPCError ''blob exceeds the byte limit'')
       else rbind (recv_blobs m (length blobs) s2) (\<lambda>(bs, s3). Inr (b # bs, s3)))"
    using s1(1,4) s2(1) by simp
  show ?case
    using Cons.IH [OF p(2) s2(2,3)] step by (auto split: if_splits)
qed

lemma recv_message_written:
  assumes "send_message dumps h blobs = Inr bs" "loads (dumps h) = Inr h" "sock_ok s" "concat s = bs @ rest"
  shows "if length (dumps h) \<le> MAX_HEADER_BYTES \<and> length blobs \<le> 1000000 \<and> (\<forall>b \<in> set blobs. length b \<le> m)
    then \<exists>s'. recv_message loads m s = Inr ((h, blobs), s') \<and> sock_ok s' \<and> concat s' = rest
    else \<exists>t. recv_message loads m s = Inl (RPCError t)"
proof -
  obtain hl bc ps where p: "pack 4 (length (dumps h)) = Inr hl" "pack 4 (length blobs) = Inr bc"
      "blob_parts blobs = Inr ps" "bs = (hl @ bc) @ dumps h @ concat ps"
    using assms(1) by (auto simp: send_message_def Let_def res_simps)
  have len: "length hl = 4" "length bc = 4" "le_nat hl = length (dumps h)" "le_nat bc = length blobs"
    using p(1,2) le_nat_le_bytes by (auto simp: pack_Inr)
  obtain s1 where s1: "recv_exact 8 s = Inr (hl @ bc, s1)" "sock_ok s1" "concat s1 = dumps h @ (concat ps @ rest)"
    using recv_exact_ok [OF assms(3), of "hl @ bc" "dumps h @ concat ps @ rest"] assms(4) p(4) len by auto
  obtain s2 where s2: "recv_exact (length (dumps h)) s1 = Inr (dumps h, s2)" "sock_ok s2" "concat s2 = concat ps @ rest"
    using recv_exact_ok [OF s1(2,3)] by blast
  have step: "recv_message loads m s =
      (if length (dumps h) > MAX_HEADER_BYTES \<or> length blobs > 1000000
       then Inl (RPCError ''message header exceeds the protocol limits'')
       else rbind (recv_blobs m (length blobs) s2) (\<lambda>(blobs, s3). Inr ((h, blobs), s3)))"
    using s1(1) s2(1) len assms(2) by (simp add: recv_message_def)
  show ?thesis
    using recv_blobs_written [OF p(3) s2(2,3), of m] step by (auto split: if_splits)
qed

text \<open>Two chunkings of the same bytes, as the transport may deliver them.\<close>

definition ex_dumps :: "json \<Rightarrow> bytes" where
  "ex_dumps j = (if j = JNull then [1] else [2, 3])"

definition ex_loads :: "bytes \<Rightarrow> json res" where
  "ex_loads bs = (if bs = [1] then Inr JNull else if bs = [2, 3] then Inr (JBool True) else Inl (ValueError ''json''))"

lemma send_message_ok_iff:
  "is_ok (send_message dumps h blobs) \<longleftrightarrow>
     length (dumps h) < 2 ^ 32 \<and> length blobs < 2 ^ 32 \<and> (\<forall>b \<in> set blobs. length b < 2 ^ 64)"
proof -
  have "is_ok (blob_parts blobs) \<longleftrightarrow> (\<forall>b \<in> set blobs. length b < 2 ^ 64)"
    by (induction blobs) (auto simp: is_ok_iff res_simps pack_Inr)
  moreover have "is_ok (send_message dumps h blobs) \<longleftrightarrow>
      length (dumps h) < 2 ^ 32 \<and> length blobs < 2 ^ 32 \<and> is_ok (blob_parts blobs)"
    by (auto simp: send_message_def Let_def is_ok_iff res_simps pack_Inr)
  ultimately show ?thesis by blast
qed

text \<open>
  C21. The framing is a faithful channel: a message whose parts fit the length fields is written, and however the
  transport cuts the bytes into chunks and whatever follows them, \<^verbatim>\<open>recv_message\<close> returns that header and those
  blobs and leaves the stream at the next byte, exactly when the header, the number of blobs and every blob are within the
  receiver's limits; otherwise it raises RPCError.
\<close>

theorem send_recv_message:
  assumes "loads (dumps h) = Inr h"
    and "length (dumps h) < 2 ^ 32" "length blobs < 2 ^ 32" "\<forall>b \<in> set blobs. length b < 2 ^ 64"
  shows "\<exists>bs. send_message dumps h blobs = Inr bs \<and>
    (\<forall>s rest m. sock_ok s \<longrightarrow> concat s = bs @ rest \<longrightarrow>
      (if length (dumps h) \<le> MAX_HEADER_BYTES \<and> length blobs \<le> 1000000 \<and> (\<forall>b \<in> set blobs. length b \<le> m)
       then \<exists>s'. recv_message loads m s = Inr ((h, blobs), s') \<and> sock_ok s' \<and> concat s' = rest
       else \<exists>t. recv_message loads m s = Inl (RPCError t)))"
proof -
  obtain bs where bs: "send_message dumps h blobs = Inr bs"
    using send_message_ok_iff assms(2-4) by (metis is_ok_iff)
  then show ?thesis using recv_message_written [where loads = loads, OF bs assms(1)] by blast
qed

theorem send_recv_message_witness:
  "\<exists>bs. send_message ex_dumps (JBool True) [[7], []] = Inr bs \<and> length bs = 27 \<and>
    (\<exists>s'. recv_message ex_loads 1 (map (\<lambda>b. [b]) bs @ [[9]]) = Inr ((JBool True, [[7], []]), s') \<and> concat s' = [9])"
proof -
  have len: "length (ex_dumps (JBool True)) = 2" by (simp add: ex_dumps_def)
  have l: "ex_loads (ex_dumps (JBool True)) = Inr (JBool True)" by (simp add: ex_dumps_def ex_loads_def)
  obtain bs where bs: "send_message ex_dumps (JBool True) [[7], []] = Inr bs"
    and r: "\<And>s rest m. sock_ok s \<Longrightarrow> concat s = bs @ rest \<Longrightarrow>
      (if length (ex_dumps (JBool True)) \<le> MAX_HEADER_BYTES \<and> length [[7], []] \<le> 1000000 \<and> (\<forall>b \<in> set [[7], []]. length b \<le> m)
       then \<exists>s'. recv_message ex_loads m s = Inr ((JBool True, [[7], []]), s') \<and> sock_ok s' \<and> concat s' = rest
       else \<exists>t. recv_message ex_loads m s = Inl (RPCError t))"
    using send_recv_message [where loads = ex_loads and dumps = ex_dumps and h = "JBool True" and blobs = "[[7], []]"] l len by auto
  have "length bs = 27"
    using bs by (auto simp: send_message_def Let_def pack_def ex_dumps_def)
  moreover have "sock_ok (map (\<lambda>b. [b]) bs @ [[9]])" "concat (map (\<lambda>b. [b]) bs @ [[9]]) = bs @ [9]"
    by (auto simp: sock_ok_def)
  then have "\<exists>s'. recv_message ex_loads 1 (map (\<lambda>b. [b]) bs @ [[9]]) = Inr ((JBool True, [[7], []]), s') \<and> concat s' = [9]"
    using r [of "map (\<lambda>b. [b]) bs @ [[9]]" "[9]" 1] len by (auto simp: MAX_HEADER_BYTES_def)
  ultimately show ?thesis using bs by blast
qed

lemma recv_blobs_bounds:
  assumes "recv_blobs m n s = Inr (blobs, s')" "sock_ok s"
  shows "length blobs = n \<and> (\<forall>b \<in> set blobs. length b \<le> m) \<and> sock_ok s' \<and>
    length (concat s) = sum_list (map (\<lambda>b. 8 + length b) blobs) + length (concat s')"
  using assms
proof (induction n arbitrary: s blobs)
  case 0
  then show ?case by auto
next
  case (Suc n)
  obtain h s1 b s2 bs where r: "recv_exact 8 s = Inr (h, s1)" "le_nat h \<le> m" "recv_exact (le_nat h) s1 = Inr (b, s2)"
      "recv_blobs m n s2 = Inr (bs, s')" "blobs = b # bs"
    using Suc.prems(1) by (auto simp: res_simps split: if_splits)
  note e1 = recv_exact_Inr [OF Suc.prems(2) r(1)]
  note e2 = recv_exact_Inr [OF e1(1) r(3)]
  show ?case using Suc.IH [OF r(4) e2(1)] e1 e2 r(2,5) by simp
qed

text \<open>
  C22. Whatever bytes a peer sends, a message that \<^verbatim>\<open>recv_message\<close> accepts has at most a million blobs, none
  longer than the receiver's limit, a header of at most 64 MiB, and accounts for every byte consumed.
\<close>

theorem recv_message_bounds:
  assumes "sock_ok s" "recv_message loads m s = Inr ((h, blobs), s')"
  shows "length blobs \<le> 1000000 \<and> (\<forall>b \<in> set blobs. length b \<le> m) \<and> sock_ok s' \<and>
    (\<exists>payload. loads payload = Inr h \<and> length payload \<le> MAX_HEADER_BYTES \<and>
       length (concat s) = 8 + length payload + sum_list (map (\<lambda>b. 8 + length b) blobs) + length (concat s'))"
proof -
  obtain hd s1 payload s2 where r: "recv_exact 8 s = Inr (hd, s1)" "le_nat (take 4 hd) \<le> MAX_HEADER_BYTES" "le_nat (drop 4 hd) \<le> 1000000"
      "recv_exact (le_nat (take 4 hd)) s1 = Inr (payload, s2)" "loads payload = Inr h"
      "recv_blobs m (le_nat (drop 4 hd)) s2 = Inr (blobs, s')"
    using assms(2) by (auto simp: recv_message_def res_simps Let_def split: if_splits)
  note e1 = recv_exact_Inr [OF assms(1) r(1)]
  note e2 = recv_exact_Inr [OF e1(1) r(4)]
  show ?thesis using recv_blobs_bounds [OF r(6) e2(1)] e1 e2 r by auto
qed

theorem recv_message_bounds_witness:
  "\<exists>s s'. length (concat s) = 19 \<and> recv_message ex_loads 4 s = Inr ((JNull, [[5, 6]]), s') \<and>
     (\<exists>payload. ex_loads payload = Inr JNull \<and> length payload \<le> MAX_HEADER_BYTES \<and>
       (19::nat) = 8 + length payload + (8 + 2) + length (concat s'))"
proof -
  define bs where "bs = (le_bytes 4 1 @ le_bytes 4 1) @ [1] @ le_bytes 8 (Suc (Suc 0)) @ [5, 6]"
  have bs: "send_message ex_dumps JNull [[5, 6]] = Inr bs" "length bs = 19"
    by (simp_all add: send_message_def pack_def ex_dumps_def bs_def)
  have l: "ex_loads (ex_dumps JNull) = Inr JNull" "length (ex_dumps JNull) = 1" by (simp_all add: ex_dumps_def ex_loads_def)
  have ok: "sock_ok (map (\<lambda>b. [b]) bs)" "concat (map (\<lambda>b. [b]) bs) = bs @ []" by (auto simp: sock_ok_def)
  obtain s' where s': "recv_message ex_loads 4 (map (\<lambda>b. [b]) bs) = Inr ((JNull, [[5, 6]]), s')"
    using recv_message_written [where loads = ex_loads, OF bs(1) l(1) ok, of 4] l(2) by (auto simp: MAX_HEADER_BYTES_def)
  show ?thesis
    using recv_message_bounds [OF ok(1) s'] s' ok(2) bs(2) by (intro exI [of _ "map (\<lambda>b. [b]) bs"] exI [of _ s']) auto
qed

section \<open>Tensors\<close>

record ndarray =
  nd_dtype :: string
  nd_shape :: "int list"
  nd_elems :: "nat list"

definition DTYPES :: "string list" where
  "DTYPES = [''float16'', ''float32'', ''float64'', ''int8'', ''int16'', ''int32'', ''int64'',
     ''uint8'', ''uint16'', ''uint32'', ''uint64'', ''bool'']"

text \<open>\<^verbatim>\<open>np.dtype(name).itemsize\<close> of the dtypes that cross the wire.\<close>

definition itemsize :: "string \<Rightarrow> nat" where
  "itemsize t =
     (if t \<in> set [''int8'', ''uint8'', ''bool''] then 1
      else if t \<in> set [''float16'', ''int16'', ''uint16''] then 2
      else if t \<in> set [''float32'', ''int32'', ''uint32''] then 4 else 8)"

definition tobytes :: "ndarray \<Rightarrow> bytes" where
  "tobytes a = concat (map (le_bytes (itemsize (nd_dtype a))) (nd_elems a))"

definition tensor_spec :: "string \<times> ndarray \<Rightarrow> json res" where
  "tensor_spec = (\<lambda>(name, a).
     if nd_dtype a \<notin> set DTYPES then Inl (RPCError ''unsupported dtype'')
     else Inr (JObj [(''name'', JStr name), (''dtype'', JStr (nd_dtype a)), (''shape'', JList (map JInt (nd_shape a)))]))"

definition encode_tensor_specs :: "(string, ndarray) dict \<Rightarrow> json list res" where
  "encode_tensor_specs tensors = rmap tensor_spec tensors"

definition encode_tensors :: "(string, ndarray) dict \<Rightarrow> (json list \<times> bytes list) res" where
  "encode_tensors tensors =
     rbind (encode_tensor_specs tensors) (\<lambda>specs. Inr (specs, map (\<lambda>(name, a). tobytes a) tensors))"

text \<open>\<^verbatim>\<open>np.frombuffer\<close>: the elements of a buffer whose length is a multiple of the item size.\<close>

fun chop :: "nat \<Rightarrow> nat \<Rightarrow> bytes \<Rightarrow> nat list" where
  "chop k 0 bs = []"
| "chop k (Suc n) bs = le_nat (take k bs) # chop k n (drop k bs)"

definition frombuffer :: "nat \<Rightarrow> bytes \<Rightarrow> nat list res" where
  "frombuffer k bs =
     (if length bs mod k \<noteq> 0 then Inl (ValueError ''buffer size'') else Inr (chop k (length bs div k) bs))"

definition decode_tensor ::
    "(int list \<Rightarrow> int res) \<Rightarrow> (nat \<Rightarrow> int list \<Rightarrow> int list res) \<Rightarrow> json \<times> bytes \<Rightarrow> (json \<times> ndarray) res" where
  "decode_tensor np_prod np_reshape = (\<lambda>(spec, blob).
     rbind (jitem spec ''dtype'') (\<lambda>dt.
       case dt of JStr dtype \<Rightarrow>
         if dtype \<notin> set DTYPES then Inl (RPCError ''unsupported tensor dtype'')
         else rbind (jitem spec ''shape'') (\<lambda>sh. rbind (json_iter sh) (\<lambda>ds. rbind (rmap json_int ds) (\<lambda>shape.
           rbind (np_prod shape) (\<lambda>count. let expected = count * int (itemsize dtype) in
             if int (length blob) \<noteq> expected then rbind (jitem spec ''name'') (\<lambda>_. Inl (RPCError ''tensor size''))
             else rbind (frombuffer (itemsize dtype) blob) (\<lambda>elems.
               rbind (np_reshape (length elems) shape) (\<lambda>sh'.
               rbind (jitem spec ''name'') (\<lambda>name.
               rbind (hash_key name) (\<lambda>k. Inr (k, \<lparr>nd_dtype = dtype, nd_shape = sh', nd_elems = elems\<rparr>)))))))))
       | _ \<Rightarrow> Inl (RPCError ''unsupported tensor dtype'')))"

definition decode_tensors ::
    "(int list \<Rightarrow> int res) \<Rightarrow> (nat \<Rightarrow> int list \<Rightarrow> int list res) \<Rightarrow> json list \<Rightarrow> bytes list \<Rightarrow> (json, ndarray) dict res" where
  "decode_tensors np_prod np_reshape specs blobs =
     (if length specs > length blobs then Inl (RPCError ''fewer tensor blobs than tensor descriptions'')
      else rbind (rmap (decode_tensor np_prod np_reshape) (zip specs blobs))
             (\<lambda>kvs. Inr (foldl (\<lambda>d (k, a). dict_set k a d) [] kvs)))"

text \<open>
  What is used of numpy: \<^verbatim>\<open>np.prod\<close> at \<^verbatim>\<open>dtype=np.int64\<close> is the product modulo \<open>2 ^ 64\<close> as a signed
  number when every dimension is an int64, and \<^verbatim>\<open>reshape\<close> keeps the number of elements: it returns the
  requested shape when that is a shape of so many elements, and whatever it returns is one.
\<close>

definition int64 :: "int \<Rightarrow> bool" where
  "int64 d \<longleftrightarrow> - (2 ^ 63) \<le> d \<and> d < 2 ^ 63"

definition prod_int64 :: "(int list \<Rightarrow> int res) \<Rightarrow> bool" where
  "prod_int64 np_prod \<longleftrightarrow>
     (\<forall>shape. list_all int64 shape \<longrightarrow> np_prod shape = Inr (sint (word_of_int (prod_list shape) :: 64 word)))"

definition reshape_keeps :: "(nat \<Rightarrow> int list \<Rightarrow> int list res) \<Rightarrow> bool" where
  "reshape_keeps np_reshape \<longleftrightarrow>
     (\<forall>n shape. list_all (\<lambda>d. 0 \<le> d) shape \<and> prod_list shape = int n \<longrightarrow> np_reshape n shape = Inr shape) \<and>
     (\<forall>n shape s. np_reshape n shape = Inr s \<longrightarrow> list_all (\<lambda>d. 0 \<le> d) s \<and> prod_list s = int n)"

text \<open>An array as numpy keeps it, small enough for its sizes to be int64.\<close>

definition nd_ok :: "ndarray \<Rightarrow> bool" where
  "nd_ok a \<longleftrightarrow> nd_dtype a \<in> set DTYPES \<and> list_all (\<lambda>d. 0 \<le> d \<and> d < 2 ^ 63) (nd_shape a) \<and>
     prod_list (nd_shape a) = int (length (nd_elems a)) \<and> length (nd_elems a) < 2 ^ 63 \<and>
     list_all (\<lambda>x. x < 256 ^ itemsize (nd_dtype a)) (nd_elems a)"

lemma itemsize_pos [simp]: "0 < itemsize t"
  by (simp add: itemsize_def)

lemma length_tobytes: "length (tobytes a) = length (nd_elems a) * itemsize (nd_dtype a)"
  by (simp add: tobytes_def length_concat comp_def sum_list_triv)

lemma chop_le_bytes:
  "\<forall>x \<in> set xs. x < 256 ^ k \<Longrightarrow> chop k (length xs) (concat (map (le_bytes k) xs)) = xs"
  by (induction xs) (auto simp: le_nat_le_bytes)

lemma frombuffer_tobytes:
  assumes "list_all (\<lambda>x. x < 256 ^ itemsize (nd_dtype a)) (nd_elems a)"
  shows "frombuffer (itemsize (nd_dtype a)) (tobytes a) = Inr (nd_elems a)"
  using assms chop_le_bytes [of "nd_elems a" "itemsize (nd_dtype a)"]
  by (simp add: frombuffer_def length_tobytes list_all_iff) (simp add: tobytes_def)

lemma sint_small: "0 \<le> i \<Longrightarrow> i < 2 ^ 63 \<Longrightarrow> sint (word_of_int i :: 64 word) = i"
  by (simp add: sint_sbintrunc' signed_take_bit_int_eq_self)

lemma rmap_json_int [simp]: "rmap json_int (map JInt xs) = Inr xs"
  by (induction xs) auto

lemma decode_encoded:
  assumes "prod_int64 np_prod" "reshape_keeps np_reshape" "nd_ok a" "tensor_spec (name, a) = Inr spec"
  shows "decode_tensor np_prod np_reshape (spec, tobytes a) = Inr (JStr name, a)"
proof -
  have ok: "nd_dtype a \<in> set DTYPES" "list_all (\<lambda>d. 0 \<le> d) (nd_shape a)" "list_all int64 (nd_shape a)"
      "prod_list (nd_shape a) = int (length (nd_elems a))" "int (length (nd_elems a)) < 2 ^ 63"
    using assms(3) by (auto simp: nd_ok_def int64_def list_all_iff)
  have "np_prod (nd_shape a) = Inr (int (length (nd_elems a)))"
    using assms(1) [unfolded prod_int64_def, rule_format, OF ok(3)] by (simp only: ok(4) sint_small [OF of_nat_0_le_iff ok(5)])
  moreover have "np_reshape (length (nd_elems a)) (nd_shape a) = Inr (nd_shape a)"
    using assms(2) [unfolded reshape_keeps_def] ok(2,4) by blast
  moreover have "frombuffer (itemsize (nd_dtype a)) (tobytes a) = Inr (nd_elems a)"
    using frombuffer_tobytes assms(3) by (simp add: nd_ok_def)
  moreover have "spec = JObj [(''name'', JStr name), (''dtype'', JStr (nd_dtype a)), (''shape'', JList (map JInt (nd_shape a)))]"
    using assms(4) ok(1) by (simp add: tensor_spec_def)
  ultimately show ?thesis using ok(1) by (simp add: decode_tensor_def length_tobytes)
qed

lemma decode_encoded_list:
  assumes "prod_int64 np_prod" "reshape_keeps np_reshape" "\<forall>(n, a) \<in> set ts. nd_ok a" "rmap tensor_spec ts = Inr specs"
  shows "rmap (decode_tensor np_prod np_reshape) (zip specs (map (\<lambda>(n, a). tobytes a) ts)) =
    Inr (map (\<lambda>(n, a). (JStr n, a)) ts)"
  using assms(3,4)
proof (induction ts arbitrary: specs)
  case Nil
  then show ?case by auto
next
  case (Cons t ts)
  obtain n a where t: "t = (n, a)" by (cases t)
  then show ?case using Cons decode_encoded [OF assms(1,2)] by (auto simp: res_simps)
qed

lemma foldl_dict_distinct:
  "distinct (map fst (d @ kvs)) \<Longrightarrow> foldl (\<lambda>d (k, a). dict_set k a d) d kvs = d @ kvs"
proof (induction kvs arbitrary: d)
  case Nil
  then show ?case by simp
next
  case (Cons kv kvs)
  obtain k a where kv: "kv = (k, a)" by (cases kv)
  have "k \<notin> fst ` set d" using Cons.prems kv by auto
  then have "dict_set k a d = d @ [(k, a)]" by (simp add: dict_set_fresh)
  then show ?case using Cons.IH [of "d @ [(k, a)]"] Cons.prems kv by simp
qed

text \<open>
  C23. Tensors survive the wire: for arrays of the supported dtypes, \<^verbatim>\<open>encode_tensors\<close> returns, and
  \<^verbatim>\<open>decode_tensors\<close> of what it returns gives every array back, under its name and in order.
\<close>

theorem decode_encode_tensors:
  assumes "prod_int64 np_prod" "reshape_keeps np_reshape"
    and "distinct (dict_keys ts)" "\<forall>(n, a) \<in> set ts. nd_ok a"
  shows "\<exists>specs blobs. encode_tensors ts = Inr (specs, blobs) \<and>
    decode_tensors np_prod np_reshape specs blobs = Inr (map (\<lambda>(n, a). (JStr n, a)) ts)"
proof -
  have "is_ok (rmap tensor_spec ts)"
    using assms(4) by (auto simp: rmap_ok_iff tensor_spec_def nd_ok_def)
  then obtain specs where specs: "rmap tensor_spec ts = Inr specs" by (auto simp: is_ok_iff)
  define blobs where "blobs = map (\<lambda>(n :: string, a). tobytes a) ts"
  have "decode_tensors np_prod np_reshape specs blobs =
      Inr (foldl (\<lambda>d (k, a). dict_set k a d) [] (map (\<lambda>(n, a). (JStr n, a)) ts))"
    using decode_encoded_list [OF assms(1,2,4) specs] rmap_length [OF specs] by (simp add: decode_tensors_def blobs_def)
  moreover have "distinct (map fst ([] @ map (\<lambda>(n, a). (JStr n, a)) ts))"
    using assms(3) by (auto simp: comp_def case_prod_beta distinct_map inj_on_def)
  ultimately have "decode_tensors np_prod np_reshape specs blobs = Inr (map (\<lambda>(n, a). (JStr n, a)) ts)"
    by (simp add: foldl_dict_distinct [of "[]", simplified])
  moreover have "encode_tensors ts = Inr (specs, blobs)"
    using specs by (simp add: encode_tensors_def encode_tensor_specs_def blobs_def)
  ultimately show ?thesis by blast
qed

text \<open>Functions with the properties asked of numpy.\<close>

definition ex_prod :: "int list \<Rightarrow> int res" where
  "ex_prod shape = Inr (sint (word_of_int (prod_list shape) :: 64 word))"

definition ex_reshape :: "nat \<Rightarrow> int list \<Rightarrow> int list res" where
  "ex_reshape n shape =
     (if list_all (\<lambda>d. 0 \<le> d) shape \<and> prod_list shape = int n then Inr shape else Inl (ValueError ''reshape''))"

lemma ex_numpy: "prod_int64 ex_prod" "reshape_keeps ex_reshape"
  by (auto simp: prod_int64_def ex_prod_def reshape_keeps_def ex_reshape_def split: if_splits)

theorem decode_encode_tensors_witness:
  "\<exists>specs blobs. encode_tensors [(''x'', \<lparr>nd_dtype = ''int16'', nd_shape = [2, 1], nd_elems = [65535, 7]\<rparr>)] = Inr (specs, blobs) \<and>
     decode_tensors ex_prod ex_reshape specs blobs = Inr [(JStr ''x'', \<lparr>nd_dtype = ''int16'', nd_shape = [2, 1], nd_elems = [65535, 7]\<rparr>)]"
proof -
  have "nd_ok \<lparr>nd_dtype = ''int16'', nd_shape = [2, 1], nd_elems = [65535, 7]\<rparr>"
    by (simp add: nd_ok_def DTYPES_def itemsize_def)
  then show ?thesis
    using decode_encode_tensors [OF ex_numpy, of "[(''x'', \<lparr>nd_dtype = ''int16'', nd_shape = [2, 1], nd_elems = [65535, 7]\<rparr>)]"] by simp
qed

lemma length_chop [simp]: "length (chop k n bs) = n"
  by (induction n arbitrary: bs) auto

lemma frombuffer_length: "frombuffer k bs = Inr xs \<Longrightarrow> length bs = length xs * k"
  by (auto simp: frombuffer_def split: if_splits)

lemma decode_tensor_Inr:
  assumes "decode_tensor np_prod np_reshape (spec, blob) = Inr (name, a)"
  obtains shape where "nd_dtype a \<in> set DTYPES" "frombuffer (itemsize (nd_dtype a)) blob = Inr (nd_elems a)"
    "np_reshape (length (nd_elems a)) shape = Inr (nd_shape a)"
proof -
  obtain dt where "jitem spec ''dtype'' = Inr dt" using assms by (auto simp: decode_tensor_def res_simps)
  then show thesis using assms that by (cases dt) (auto simp: decode_tensor_def res_simps Let_def split: if_splits)
qed

text \<open>
  The size check of \<^verbatim>\<open>decode_tensors\<close> multiplies the dimensions at 64 bits, so a peer can make the product wrap
  around (\<open>2 ^ 32 \<times> 2 ^ 32\<close> expects no bytes); still no tensor is accepted whose data does not fill its shape:
  whatever the descriptions and blobs, every tensor that is returned has a supported dtype, non-negative
  dimensions and exactly as many elements as their product, and its bytes are one of the blobs in full.
\<close>

theorem decode_tensors_exact_size:
  assumes "reshape_keeps np_reshape" "decode_tensors np_prod np_reshape specs blobs = Inr ts" "(name, a) \<in> set ts"
  shows "nd_dtype a \<in> set DTYPES \<and> list_all (\<lambda>d. 0 \<le> d) (nd_shape a) \<and> prod_list (nd_shape a) = int (length (nd_elems a)) \<and>
    (\<exists>b \<in> set blobs. length b = length (nd_elems a) * itemsize (nd_dtype a))"
proof -
  obtain kvs where kvs: "rmap (decode_tensor np_prod np_reshape) (zip specs blobs) = Inr kvs"
      "ts = foldl (\<lambda>d (k, a). dict_set k a d) [] kvs"
    using assms(2) by (auto simp: decode_tensors_def res_simps split: if_splits)
  have "set (foldl (\<lambda>d (k, a). dict_set k a d) d kvs) \<subseteq> set d \<union> set kvs" for d :: "(json, ndarray) dict"
  proof (induction kvs arbitrary: d)
    case Nil
    then show ?case by simp
  next
    case (Cons kv kvs)
    have "set (dict_set k v d) \<subseteq> insert (k, v) (set d)" for k v by (induction d) auto
    then show ?case using Cons.IH [of "dict_set (fst kv) (snd kv) d"] by (fastforce simp: case_prod_beta)
  qed
  then have "(name, a) \<in> set kvs" using assms(3) kvs(2) by fastforce
  then obtain i where i: "i < length (zip specs blobs)" "decode_tensor np_prod np_reshape (zip specs blobs ! i) = Inr (name, a)"
    using rmap_nth [OF kvs(1)] rmap_length [OF kvs(1)] by (metis in_set_conv_nth)
  define spec where "spec = specs ! i"
  define blob where "blob = blobs ! i"
  have z: "zip specs blobs ! i = (spec, blob)" "blob \<in> set blobs" using i(1) by (auto simp: spec_def blob_def)
  obtain shape where d: "nd_dtype a \<in> set DTYPES" "frombuffer (itemsize (nd_dtype a)) blob = Inr (nd_elems a)"
      "np_reshape (length (nd_elems a)) shape = Inr (nd_shape a)"
    using decode_tensor_Inr i(2) z(1) by metis
  then show ?thesis using assms(1) frombuffer_length [OF d(2)] z(2) unfolding reshape_keeps_def by blast
qed

text \<open>A description of a wrapped size is refused by the reshape, one that fits is decoded.\<close>

theorem decode_tensors_exact_size_witness:
  "\<exists>a. decode_tensors ex_prod ex_reshape
      [JObj [(''name'', JStr ''x''), (''dtype'', JStr ''int8''), (''shape'', JStr ''12'')]] [[1, 0]] = Inr [(JStr ''x'', a)] \<and>
    prod_list (nd_shape a) = int (length (nd_elems a)) \<and>
    decode_tensors ex_prod ex_reshape
      [JObj [(''name'', JStr ''x''), (''dtype'', JStr ''int8''), (''shape'', JList [JInt (2 ^ 32), JInt (2 ^ 32)])]] [[]] =
      Inl (ValueError ''reshape'')"
proof -
  define a where "a = \<lparr>nd_dtype = ''int8'', nd_shape = [1, 2], nd_elems = [1, 0]\<rparr>"
  have d: "decode_tensors ex_prod ex_reshape
      [JObj [(''name'', JStr ''x''), (''dtype'', JStr ''int8''), (''shape'', JStr ''12'')]] [[1, 0]] = Inr [(JStr ''x'', a)]"
    by (simp add: decode_tensors_def decode_tensor_def DTYPES_def itemsize_def int_str_def strip_def is_blank_def
        is_digit_def digit_value_def ex_prod_def ex_reshape_def frombuffer_def numeral_2_eq_2 a_def)
  have "decode_tensors ex_prod ex_reshape
      [JObj [(''name'', JStr ''x''), (''dtype'', JStr ''int8''), (''shape'', JList [JInt (2 ^ 32), JInt (2 ^ 32)])]] [[]] =
      Inl (ValueError ''reshape'')"
    by (simp add: decode_tensors_def decode_tensor_def DTYPES_def itemsize_def ex_prod_def ex_reshape_def frombuffer_def)
  then show ?thesis using d decode_tensors_exact_size [OF ex_numpy(2) d, of "JStr ''x''" a] by auto
qed

end
