(* ===== verification/Rpc_Tracker.thy ===== *)
theory Rpc_Tracker
  imports Rpc_Protocol
begin

text \<open>
  \<^verbatim>\<open>onnxsim/rpc/tracker.py\<close>: the registry of servers by key, its operations under the lock, and the handler of
  one connection. The tracker with its open registration connections is a step relation: every
  operation is atomic, because it holds the lock, and connections interleave freely.
\<close>

section \<open>The registry\<close>

type_synonym addr = "string \<times> int"

record tracker =
  servers :: "(string, addr list) dict"
  cursor :: "(string, nat) dict"

definition add :: "string \<Rightarrow> addr \<Rightarrow> tracker \<Rightarrow> tracker" where
  "add key a t =
     (let t1 = t\<lparr>servers := dict_setdefault key [] (servers t)\<rparr>; ss = get_default (servers t1) key [] in
      if a \<notin> set ss then t1\<lparr>servers := dict_set key (ss @ [a]) (servers t1)\<rparr> else t1)"

definition remove :: "string \<Rightarrow> addr \<Rightarrow> tracker \<Rightarrow> tracker" where
  "remove key a t =
     (let ss = get_default (servers t) key []; ss' = remove1 a ss;
          t1 = (if a \<in> set ss then t\<lparr>servers := dict_set key ss' (servers t)\<rparr> else t) in
      if ss' = [] then t1\<lparr>servers := AList.delete key (servers t1)\<rparr> else t1)"

definition pick :: "string \<Rightarrow> tracker \<Rightarrow> addr option \<times> tracker" where
  "pick key t =
     (let ss = get_default (servers t) key [] in
      if ss = [] then (None, t)
      else let index = get_default (cursor t) key 0 mod length ss in
        (Some (ss ! index), t\<lparr>cursor := dict_set key (Suc index) (cursor t)\<rparr>))"

definition addr_json :: "addr \<Rightarrow> json" where
  "addr_json a = JList [JStr (fst a), JInt (snd a)]"

definition summary :: "tracker \<Rightarrow> json" where
  "summary t = JObj (map (\<lambda>(key, as). (key, JList (map addr_json as))) (servers t))"

definition init_tracker :: tracker where
  "init_tracker = \<lparr>servers = [], cursor = []\<rparr>"

section \<open>One connection\<close>

text \<open>\<^verbatim>\<open>str(x)\<close>; the argument \<open>repr\<close> prints floats, lists and dictionaries.\<close>

fun json_str :: "(json \<Rightarrow> string) \<Rightarrow> json \<Rightarrow> string" where
  "json_str repr (JStr s) = s"
| "json_str repr (JInt i) = str_int i"
| "json_str repr (JBool b) = (if b then ''True'' else ''False'')"
| "json_str repr JNull = ''None''"
| "json_str repr v = repr v"

fun json_nth :: "json \<Rightarrow> nat \<Rightarrow> json res" where
  "json_nth (JList xs) i = (if i < length xs then Inr (xs ! i) else Inl (IndexError ''list''))"
| "json_nth (JStr s) i = (if i < length s then Inr (JStr [s ! i]) else Inl (IndexError ''string''))"
| "json_nth (JObj d) i = Inl (KeyError ''index'')"
| "json_nth _ i = Inl (TypeError ''not subscriptable'')"

definition register_entry :: "(json \<Rightarrow> string) \<Rightarrow> json \<Rightarrow> (string \<times> addr) res" where
  "register_entry repr header =
     rbind (jitem header ''key'') (\<lambda>k. rbind (jitem header ''addr'') (\<lambda>a. rbind (json_nth a 0) (\<lambda>h.
     rbind (json_nth a 1) (\<lambda>p. rbind (json_int p) (\<lambda>port. Inr (json_str repr k, (json_str repr h, port)))))))"

definition reply_error :: "string \<Rightarrow> json" where
  "reply_error e = JObj [(''ok'', JBool False), (''error'', JStr e)]"

definition pick_reply :: "addr option \<Rightarrow> json" where
  "pick_reply r = (case r of None \<Rightarrow> reply_error ''no server with key''
     | Some a \<Rightarrow> JObj [(''ok'', JBool True), (''addr'', addr_json a)])"

text \<open>
  The handler from the first message to its reply: the tracker, the reply, and the entry that the connection holds
  until it closes. A header that raises leaves the tracker as it is and ends the connection.
\<close>

definition tracker_handle ::
    "(json \<Rightarrow> string) \<Rightarrow> json \<Rightarrow> tracker \<Rightarrow> (tracker \<times> json \<times> (string \<times> addr) option) res" where
  "tracker_handle repr header t =
     rbind (jget header ''op'') (\<lambda>op.
       if op = JStr ''register'' then
         rbind (register_entry repr header) (\<lambda>e. Inr (add (fst e) (snd e) t, JObj [(''ok'', JBool True)], Some e))
       else if op = JStr ''request'' then
         rbind (jitem header ''key'') (\<lambda>k. let r = pick (json_str repr k) t in Inr (snd r, pick_reply (fst r), None))
       else if op = JStr ''summary'' then Inr (t, JObj [(''ok'', JBool True), (''servers'', summary t)], None)
       else Inr (t, reply_error ''unknown operation'', None))"

text \<open>The tracker with the registration connections that are open.\<close>

record tracker_sys =
  trk :: tracker
  conns :: "(nat \<times> string \<times> addr) list"

inductive tracker_step :: "(json \<Rightarrow> string) \<Rightarrow> tracker_sys \<Rightarrow> tracker_sys \<Rightarrow> bool" for repr where
  registers: "tracker_handle repr header (trk s) = Inr (t, reply, Some e) \<Longrightarrow> c \<notin> fst ` set (conns s) \<Longrightarrow>
     tracker_step repr s \<lparr>trk = t, conns = (c, e) # conns s\<rparr>"
| answers: "tracker_handle repr header (trk s) = Inr (t, reply, None) \<Longrightarrow>
     tracker_step repr s (s\<lparr>trk := t\<rparr>)"
| closes: "(c, key, a) \<in> set (conns s) \<Longrightarrow>
     tracker_step repr s \<lparr>trk = remove key a (trk s), conns = filter (\<lambda>x. fst x \<noteq> c) (conns s)\<rparr>"

text \<open>The states reached through states that satisfy \<open>P\<close>.\<close>

inductive tracker_reach :: "(json \<Rightarrow> string) \<Rightarrow> (tracker_sys \<Rightarrow> bool) \<Rightarrow> tracker_sys \<Rightarrow> bool" for repr P where
  starts: "P \<lparr>trk = init_tracker, conns = []\<rparr> \<Longrightarrow> tracker_reach repr P \<lparr>trk = init_tracker, conns = []\<rparr>"
| steps: "tracker_reach repr P s \<Longrightarrow> tracker_step repr s s' \<Longrightarrow> P s' \<Longrightarrow> tracker_reach repr P s'"

section \<open>The registry as a set\<close>

text \<open>What a registry of entries promises to the connections that register and close.\<close>

locale registry =
  fixes ok :: "'s \<Rightarrow> bool" and entries :: "'s \<Rightarrow> ('k \<times> 'a) set"
    and ins del :: "'k \<Rightarrow> 'a \<Rightarrow> 's \<Rightarrow> 's"
  assumes ok_ins: "ok s \<Longrightarrow> ok (ins k a s)"
    and ok_del: "ok s \<Longrightarrow> ok (del k a s)"
    and entries_ins: "ok s \<Longrightarrow> entries (ins k a s) = insert (k, a) (entries s)"
    and entries_del: "ok s \<Longrightarrow> entries (del k a s) = entries s - {(k, a)}"
begin

text \<open>Closing a connection that is the only holder of its entry removes exactly what it held.\<close>

lemma held_ins:
  "ok s \<Longrightarrow> entries s \<subseteq> snd ` set cs \<Longrightarrow> entries (ins k a s) \<subseteq> snd ` set ((c, k, a) # cs)"
  by (auto simp: entries_ins)

lemma held_del:
  assumes "ok s" "entries s \<subseteq> snd ` set cs" "(c, k, a) \<in> set cs" "distinct (map fst cs)"
  shows "entries (del k a s) \<subseteq> snd ` set (filter (\<lambda>x. fst x \<noteq> c) cs)"
proof
  fix e
  assume "e \<in> entries (del k a s)"
  then have e: "e \<in> entries s" "e \<noteq> (k, a)" using assms(1) by (auto simp: entries_del)
  then obtain d where d: "(d, e) \<in> set cs" using assms(2) by force
  have "d \<noteq> c" using d assms(3) e(2) eq_key_imp_eq_value [OF assms(4)] by blast
  then have "(d, e) \<in> set (filter (\<lambda>x. fst x \<noteq> c) cs)" using d by simp
  then show "e \<in> snd ` set (filter (\<lambda>x. fst x \<noteq> c) cs)" by (rule rev_image_eqI) simp
qed

lemma exact_del:
  assumes "ok s" "entries s = snd ` set cs" "(c, k, a) \<in> set cs" "distinct (map fst cs)" "distinct (map snd cs)"
  shows "entries (del k a s) = snd ` set (filter (\<lambda>x. fst x \<noteq> c) cs)"
proof
  show "entries (del k a s) \<subseteq> snd ` set (filter (\<lambda>x. fst x \<noteq> c) cs)"
    by (rule held_del [OF assms(1) _ assms(3,4)]) (simp add: assms(2))
  have "e \<noteq> (k, a)" if "(d, e) \<in> set cs" "d \<noteq> c" for d e
    using that assms(3,5) by (auto simp: distinct_map dest: inj_onD [of snd "set cs" "(d, k, a)" "(c, k, a)"])
  then have "e \<in> entries (del k a s)" if "(d, e) \<in> set cs" "d \<noteq> c" for d e
    using that assms(1,2) by (force simp: entries_del)
  then show "snd ` set (filter (\<lambda>x. fst x \<noteq> c) cs) \<subseteq> entries (del k a s)" by auto
qed

end

definition entries :: "tracker \<Rightarrow> (string \<times> addr) set" where
  "entries t = {(k, a). a \<in> set (get_default (servers t) k [])}"

text \<open>Type invariant: keys are distinct, and the list of a key that is present is non-empty and without duplicates.\<close>

definition tracker_ok :: "tracker \<Rightarrow> bool" where
  "tracker_ok t \<longleftrightarrow> distinct (dict_keys (servers t)) \<and>
     (\<forall>(k, ss) \<in> set (servers t). ss \<noteq> [] \<and> distinct ss)"

lemma tracker_ok_get:
  "tracker_ok t \<Longrightarrow> map_of (servers t) k = Some ss \<Longrightarrow> ss \<noteq> [] \<and> distinct ss"
  by (auto simp: tracker_ok_def dest: map_of_SomeD)

lemma tracker_okI:
  assumes "distinct (dict_keys (servers t))" "\<And>k ss. map_of (servers t) k = Some ss \<Longrightarrow> ss \<noteq> [] \<and> distinct ss"
  shows "tracker_ok t"
  using assms by (auto simp: tracker_ok_def dest: map_of_is_SomeI)

lemma add_servers:
  "servers (add k a t) = (let ss = get_default (servers t) k [] in
     if a \<in> set ss then servers t else dict_set k (ss @ [a]) (dict_setdefault k [] (servers t)))"
  by (auto simp: add_def Let_def get_default_def dict_setdefault_def split: option.splits)

lemma map_of_add:
  "map_of (servers (add k a t)) j = (if j = k then
      (let ss = get_default (servers t) k [] in Some (if a \<in> set ss then ss else ss @ [a])) else map_of (servers t) j)"
  by (auto simp: add_servers Let_def dict_simps get_default_def split: option.splits if_splits)

lemma map_of_remove:
  assumes "tracker_ok t"
  shows "map_of (servers (remove k a t)) j = (if j = k then
      (let ss = remove1 a (get_default (servers t) k []) in if ss = [] then None else Some ss) else map_of (servers t) j)"
  using tracker_ok_get [OF assms, of k]
  by (auto simp: remove_def Let_def dict_simps get_default_def delete_conv' remove1_idem split: option.splits if_splits)

lemma ok_add: "tracker_ok t \<Longrightarrow> tracker_ok (add k a t)"
proof (rule tracker_okI)
  assume t: "tracker_ok t"
  then show "distinct (dict_keys (servers (add k a t)))"
    by (auto simp: add_servers Let_def tracker_ok_def intro!: distinct_update distinct_setdefault)
  fix j ss
  assume "map_of (servers (add k a t)) j = Some ss"
  then show "ss \<noteq> [] \<and> distinct ss"
    using tracker_ok_get [OF t] by (auto simp: map_of_add Let_def get_default_def split: if_splits option.splits)
qed

lemma ok_remove: "tracker_ok t \<Longrightarrow> tracker_ok (remove k a t)"
proof (rule tracker_okI)
  assume t: "tracker_ok t"
  then show "distinct (dict_keys (servers (remove k a t)))"
    by (auto simp: remove_def Let_def tracker_ok_def intro!: distinct_update distinct_delete)
  fix j ss
  assume "map_of (servers (remove k a t)) j = Some ss"
  then show "ss \<noteq> [] \<and> distinct ss"
    using tracker_ok_get [OF t] by (auto simp: map_of_remove [OF t] Let_def get_default_def distinct_remove1 split: if_splits option.splits)
qed

lemma entries_add: "entries (add k a t) = insert (k, a) (entries t)"
  by (auto simp: entries_def get_default_def map_of_add Let_def split: option.splits if_splits)

lemma entries_remove:
  assumes "tracker_ok t"
  shows "entries (remove k a t) = entries t - {(k, a)}"
proof -
  have "get_default (servers (remove k a t)) j [] =
      (if j = k then remove1 a (get_default (servers t) k []) else get_default (servers t) j [])" for j
    by (simp add: get_default_def map_of_remove [OF assms] Let_def)
  moreover have "distinct (get_default (servers t) k [])"
    using tracker_ok_get [OF assms, of k] by (auto simp: get_default_def split: option.splits)
  ultimately show ?thesis by (auto simp: entries_def split: if_splits)
qed

interpretation reg: registry tracker_ok entries add remove
  by unfold_locales (auto simp: ok_add ok_remove entries_add entries_remove)

section \<open>Reachable states\<close>

lemma pick_servers [simp]: "servers (snd (pick k t)) = servers t"
  by (simp add: pick_def Let_def)

lemma handle_registers:
  "tracker_handle repr header t = Inr (t', reply, Some e) \<Longrightarrow> t' = add (fst e) (snd e) t"
  by (auto simp: tracker_handle_def res_simps Let_def split: if_splits)

lemma handle_answers:
  "tracker_handle repr header t = Inr (t', reply, None) \<Longrightarrow> servers t' = servers t"
  by (auto simp: tracker_handle_def res_simps Let_def split: if_splits)

lemma same_servers: "servers t' = servers t \<Longrightarrow> tracker_ok t' = tracker_ok t \<and> entries t' = entries t"
  by (simp add: tracker_ok_def entries_def)

lemma step_cases:
  assumes "tracker_step repr s s'"
  obtains (registers) c k a where "c \<notin> fst ` set (conns s)" "s' = \<lparr>trk = add k a (trk s), conns = (c, k, a) # conns s\<rparr>"
  | (answers) "conns s' = conns s" "servers (trk s') = servers (trk s)"
  | (closes) c k a where "(c, k, a) \<in> set (conns s)" "s' = \<lparr>trk = remove k a (trk s), conns = filter (\<lambda>x. fst x \<noteq> c) (conns s)\<rparr>"
  using assms
proof (cases rule: tracker_step.cases)
  case (registers header t reply e c)
  then show thesis using handle_registers that(1) [of c "fst e" "snd e"] by auto
next
  case (answers header t reply)
  then show thesis using handle_answers that(2) by auto
next
  case (closes c key a)
  then show thesis using that(3) by blast
qed

lemma step_keeps:
  assumes "tracker_step repr s s'" "tracker_ok (trk s)" "distinct (map fst (conns s))" "entries (trk s) \<subseteq> snd ` set (conns s)"
  shows "tracker_ok (trk s') \<and> distinct (map fst (conns s')) \<and> entries (trk s') \<subseteq> snd ` set (conns s')"
  using assms(1)
proof (cases rule: step_cases)
  case (registers c k a)
  show ?thesis unfolding registers(2) tracker_sys.select_convs
    using registers(1) assms(3) by (intro conjI ok_add reg.held_ins assms) auto
next
  case answers
  show ?thesis using assms(2-4) same_servers [OF answers(2)] answers(1) by simp
next
  case (closes c k a)
  show ?thesis unfolding closes(2) tracker_sys.select_convs
    by (intro conjI ok_remove reg.held_del [OF _ _ closes(1)] distinct_map_filter assms)
qed

text \<open>
  C24. In every reachable state of the tracker, whatever the interleaving of connections, each key that is listed has at
  least one server and no server twice, and every server that is listed is held by a registration connection that is still
  open: a server disappears from the registry when its registration connection closes.
\<close>

theorem tracker_lists_only_open_registrations:
  assumes "tracker_reach repr P s"
  shows "tracker_ok (trk s) \<and> entries (trk s) \<subseteq> snd ` set (conns s)"
proof -
  have "tracker_ok (trk s) \<and> distinct (map fst (conns s)) \<and> entries (trk s) \<subseteq> snd ` set (conns s)"
    using assms
  proof (induction rule: tracker_reach.induct)
    case starts
    then show ?case by (simp add: tracker_ok_def entries_def init_tracker_def)
  next
    case (steps s s')
    then show ?case using step_keeps by blast
  qed
  then show ?thesis by blast
qed

text \<open>
  C25. While no two open connections register the same address under the same key, the registry is exact: the listed
  servers are those of the open registration connections, no more and no fewer.
\<close>

theorem tracker_exact_when_unique:
  assumes "tracker_reach repr (\<lambda>s. distinct (map snd (conns s))) s"
  shows "entries (trk s) = snd ` set (conns s)"
proof -
  have "tracker_ok (trk s) \<and> distinct (map fst (conns s)) \<and> distinct (map snd (conns s)) \<and> entries (trk s) = snd ` set (conns s)"
    using assms
  proof (induction rule: tracker_reach.induct)
    case starts
    then show ?case by (simp add: tracker_ok_def entries_def init_tracker_def)
  next
    case (steps s s')
    then have keep: "tracker_ok (trk s') \<and> distinct (map fst (conns s'))" using step_keeps [OF steps.hyps(2)] by blast
    from steps.hyps(2) have "entries (trk s') = snd ` set (conns s')"
    proof (cases rule: step_cases)
      case (registers c k a)
      then show ?thesis using steps.IH by (simp add: entries_add)
    next
      case answers
      show ?thesis using steps.IH same_servers [OF answers(2)] answers(1) by simp
    next
      case (closes c k a)
      show ?thesis unfolding closes(2) tracker_sys.select_convs
        using steps.IH closes(1) by (intro reg.exact_del) blast+
    qed
    then show ?case using keep steps.hyps(3) by blast
  qed
  then show ?thesis by blast
qed

text \<open>The header with which a server registers.\<close>

definition register_header :: "string \<Rightarrow> addr \<Rightarrow> json" where
  "register_header k a = JObj [(''op'', JStr ''register''), (''key'', JStr k), (''addr'', addr_json a)]"

lemma handle_register_header:
  "tracker_handle repr (register_header k a) t = Inr (add k a t, JObj [(''ok'', JBool True)], Some (k, a))"
  by (simp add: tracker_handle_def register_entry_def register_header_def addr_json_def get_default_def)

lemma reach_register:
  assumes "tracker_reach repr P s" "c \<notin> fst ` set (conns s)" "P \<lparr>trk = add k a (trk s), conns = (c, k, a) # conns s\<rparr>"
  shows "tracker_reach repr P \<lparr>trk = add k a (trk s), conns = (c, k, a) # conns s\<rparr>"
  by (rule tracker_reach.steps [OF assms(1) tracker_step.registers [OF handle_register_header assms(2)] assms(3)])

lemma reach_close:
  assumes "tracker_reach repr P s" "(c, k, a) \<in> set (conns s)"
    and "P \<lparr>trk = remove k a (trk s), conns = filter (\<lambda>x. fst x \<noteq> c) (conns s)\<rparr>"
  shows "tracker_reach repr P \<lparr>trk = remove k a (trk s), conns = filter (\<lambda>x. fst x \<noteq> c) (conns s)\<rparr>"
  by (rule tracker_reach.steps [OF assms(1) tracker_step.closes [OF assms(2)] assms(3)])

lemma reach_two:
  assumes "c \<noteq> d" "P \<lparr>trk = init_tracker, conns = []\<rparr>" "P \<lparr>trk = add k a init_tracker, conns = [(c, k, a)]\<rparr>"
    and "P \<lparr>trk = add j b (add k a init_tracker), conns = [(d, j, b), (c, k, a)]\<rparr>"
  shows "tracker_reach repr P \<lparr>trk = add j b (add k a init_tracker), conns = [(d, j, b), (c, k, a)]\<rparr>"
proof -
  have "tracker_reach repr P \<lparr>trk = add k a init_tracker, conns = [(c, k, a)]\<rparr>"
    using reach_register [OF tracker_reach.starts [where P = P, OF assms(2)], of c k a] assms(3) by simp
  from reach_register [OF this, of d j b] show ?thesis using assms(1,4) by simp
qed

theorem tracker_lists_only_open_registrations_witness:
  "\<exists>s. tracker_reach (\<lambda>_. []) (\<lambda>_. True) s \<and> (''k'', ''h'', 1) \<in> entries (trk s) \<and> (2, ''k'', ''h'', 1) \<in> set (conns s) \<and>
     entries (trk s) \<subseteq> snd ` set (conns s)"
proof -
  let ?s = "\<lparr>trk = add ''k'' (''h'', 1) (add ''k'' (''g'', 1) init_tracker), conns = [(2, ''k'', ''h'', 1), (1, ''k'', ''g'', 1)]\<rparr>"
  have r: "tracker_reach (\<lambda>_. []) (\<lambda>_. True) ?s" by (rule reach_two) simp_all
  from tracker_lists_only_open_registrations [OF this] show ?thesis
    using r by (intro exI [of _ ?s]) (simp add: entries_add)
qed

theorem tracker_exact_when_unique_witness:
  "\<exists>s. tracker_reach (\<lambda>_. []) (\<lambda>s. distinct (map snd (conns s))) s \<and> conns s = [(1, ''k'', ''g'', 1)] \<and>
     entries (trk s) = {(''k'', ''g'', 1)}"
proof -
  let ?s = "\<lparr>trk = add ''k'' (''h'', 1) (add ''k'' (''g'', 1) init_tracker), conns = [(2, ''k'', ''h'', 1), (1, ''k'', ''g'', 1)]\<rparr>"
  have "tracker_reach (\<lambda>_. []) (\<lambda>s. distinct (map snd (conns s))) ?s" by (rule reach_two) simp_all
  from reach_close [OF this, of 2 "''k''" "(''h'', 1)"]
  have r: "tracker_reach (\<lambda>_. []) (\<lambda>s. distinct (map snd (conns s)))
      \<lparr>trk = remove ''k'' (''h'', 1) (trk ?s), conns = [(1, ''k'', ''g'', 1)]\<rparr>" (is "tracker_reach _ _ ?t") by simp
  from tracker_exact_when_unique [OF r] r show ?thesis by (intro exI [of _ ?t]) simp
qed

text \<open>
  C26. Registrations are not counted: when two connections register the same address under the same key (a server that
  reconnects before the tracker notices that its old connection is gone), the end of the first one removes the entry,
  and the server whose registration connection is open is no longer listed.
\<close>

theorem tracker_forgets_open_registration:
  assumes "c \<noteq> d"
  shows "\<exists>s. tracker_reach repr (\<lambda>_. True) s \<and> conns s = [(d, key, a)] \<and> servers (trk s) = []"
proof -
  let ?s = "\<lparr>trk = add key a (add key a init_tracker), conns = [(d, key, a), (c, key, a)]\<rparr>"
  have "tracker_reach repr (\<lambda>_. True) ?s" using assms by (intro reach_two) simp_all
  from reach_close [OF this, of c key a]
  have "tracker_reach repr (\<lambda>_. True) \<lparr>trk = remove key a (trk ?s), conns = [(d, key, a)]\<rparr>" using assms by simp
  moreover have "servers (remove key a (trk ?s)) = []"
    by (simp add: add_def remove_def init_tracker_def Let_def get_default_def dict_setdefault_def)
  ultimately show ?thesis by (intro exI [of _ "\<lparr>trk = remove key a (trk ?s), conns = [(d, key, a)]\<rparr>"]) simp
qed

theorem tracker_forgets_open_registration_witness:
  "(1::nat) \<noteq> 2 \<and> (\<exists>s. tracker_reach (\<lambda>_. []) (\<lambda>_. True) s \<and> conns s = [(2, ''rk'', ''host'', 9090)] \<and> servers (trk s) = [])"
  using tracker_forgets_open_registration [of 1 2 "\<lambda>_. []" "''rk''" "(''host'', 9090)"] by simp

section \<open>Round robin\<close>

fun pick_n :: "nat \<Rightarrow> string \<Rightarrow> tracker \<Rightarrow> addr option list \<times> tracker" where
  "pick_n 0 key t = ([], t)"
| "pick_n (Suc n) key t = (let r = pick key t; rs = pick_n n key (snd r) in (fst r # fst rs, snd rs))"

lemma pick_n_rotates:
  assumes "get_default (servers t) key [] = ss" "ss \<noteq> []"
  shows "fst (pick_n n key t) = map (\<lambda>i. Some (ss ! ((get_default (cursor t) key 0 + i) mod length ss))) [0..<n]"
  using assms
proof (induction n arbitrary: t)
  case 0
  then show ?case by simp
next
  case (Suc n)
  define c where "c = get_default (cursor t) key 0 mod length ss"
  define t' where "t' = t\<lparr>cursor := dict_set key (Suc c) (cursor t)\<rparr>"
  have p: "pick key t = (Some (ss ! c), t')" using Suc.prems by (simp add: pick_def Let_def c_def t'_def)
  have "get_default (cursor t') key 0 = Suc c" by (simp add: t'_def get_default_def dict_simps)
  then have "fst (pick_n n key t') = map (\<lambda>i. Some (ss ! ((Suc c + i) mod length ss))) [0..<n]"
    using Suc.IH [of t'] Suc.prems by (simp add: t'_def)
  also have "\<dots> = map (\<lambda>i. Some (ss ! ((get_default (cursor t) key 0 + Suc i) mod length ss))) [0..<n]"
    by (simp add: c_def) (metis mod_Suc_eq mod_add_left_eq)
  finally show ?case
    using p by (simp add: Let_def c_def upt_conv_Cons map_Suc_upt [symmetric] comp_def del: upt_Suc)
qed

text \<open>
  C27. Requests for a key are spread fairly: when \<open>n\<close> servers are registered under it, any \<open>n\<close> consecutive
  requests hand out every one of them exactly once, in the order of registration from some starting point, whatever the
  cursor was left at by servers that have come and gone.
\<close>

theorem pick_serves_every_server:
  assumes "tracker_ok t" "get_default (servers t) key [] = ss" "ss \<noteq> []"
  shows "\<exists>c < length ss. fst (pick_n (length ss) key t) = map Some (rotate c ss) \<and>
    distinct (fst (pick_n (length ss) key t)) \<and> set (fst (pick_n (length ss) key t)) = Some ` set ss"
proof -
  define c where "c = get_default (cursor t) key 0 mod length ss"
  have "fst (pick_n (length ss) key t) = map (\<lambda>i. Some (ss ! ((c + i) mod length ss))) [0..<length ss]"
    using pick_n_rotates [OF assms(2,3)] by (simp add: c_def mod_simps)
  also have "\<dots> = map Some (rotate c ss)"
    by (rule nth_equalityI) (auto simp: nth_rotate add.commute)
  finally have r: "fst (pick_n (length ss) key t) = map Some (rotate c ss)" .
  have "distinct ss" using tracker_ok_get [OF assms(1), of key] assms(2) by (auto simp: get_default_def split: option.splits)
  then have "distinct (map Some (rotate c ss))" by (simp add: distinct_map)
  moreover have "c < length ss" using assms(3) by (simp add: c_def)
  ultimately show ?thesis using r by (intro exI [of _ c]) simp
qed

theorem pick_serves_every_server_witness:
  "\<exists>c < (2::nat). fst (pick_n 2 ''k'' \<lparr>servers = [(''k'', [(''a'', 1), (''b'', 2)])], cursor = [(''k'', 5)]\<rparr>) =
     map Some (rotate c [(''a'', 1), (''b'', 2)])"
  using pick_serves_every_server [of "\<lparr>servers = [(''k'', [(''a'', 1), (''b'', 2)])], cursor = [(''k'', 5)]\<rparr>" "''k''"
      "[(''a'', 1), (''b'', 2)]"]
  by (auto simp: tracker_ok_def get_default_def numeral_2_eq_2)

end
