(* ===== verification/Rpc_Server.thy ===== *)
theory Rpc_Server
  imports Rpc_Protocol "HOL-Library.Sublist" "HOL-Library.Multiset"
begin

text \<open>
  \<^verbatim>\<open>onnxsim/rpc/server.py\<close>: the handler of one client connection, from the handshake to the release of its
  models, with every operation it dispatches.

  What runs a model is outside: the record \<open>server_env\<close> holds it as arguments, the creation of a
  runner, running and timing one, the random generator, the XDNA tools and the measured times. A runner
  carries the number under which the handler created it, and the session keeps the numbers of those it has
  closed, so that the release of resources can be stated. Times are exact rationals.
\<close>

section \<open>File names\<close>

definition basename :: "string \<Rightarrow> string" where
  "basename s = rev (takeWhile (\<lambda>c. c \<noteq> CHR ''/'') (rev s))"

definition name_char :: "char \<Rightarrow> bool" where
  "name_char c \<longleftrightarrow> CHR ''A'' \<le> c \<and> c \<le> CHR ''Z'' \<or> CHR ''a'' \<le> c \<and> c \<le> CHR ''z'' \<or>
     CHR ''0'' \<le> c \<and> c \<le> CHR ''9'' \<or> c = CHR ''.'' \<or> c = CHR ''_'' \<or> c = CHR ''-''"

definition sanitize :: "string \<Rightarrow> string res" where
  "sanitize name =
     (let base = basename (map (\<lambda>c. if c = CHR 0x5C then CHR ''/'' else c) name);
          base = dropWhile (\<lambda>c. c = CHR ''.'') (map (\<lambda>c. if name_char c then c else CHR ''_'') base) in
      if base = [] then Inl (RPCError ''invalid file name'') else Inr base)"

text \<open>A name of a file directly inside the work directory.\<close>

definition safe_name :: "string \<Rightarrow> bool" where
  "safe_name n \<longleftrightarrow> n \<noteq> [] \<and> hd n \<noteq> CHR ''.'' \<and> list_all name_char n"

lemma name_char_no_sep [simp]: "\<not> name_char (CHR ''/'')" "\<not> name_char (CHR 0x5C)" "name_char (CHR ''_'')"
  by (simp_all add: name_char_def)

lemma takeWhile_all: "\<forall>x \<in> set xs. P x \<Longrightarrow> takeWhile P xs = xs"
  by (induction xs) auto

lemma sanitize_safe: "sanitize s = Inr n \<Longrightarrow> safe_name n"
proof -
  assume s: "sanitize s = Inr n"
  define b where "b = basename (map (\<lambda>c. if c = CHR 0x5C then CHR ''/'' else c) s)"
  have n: "n = dropWhile (\<lambda>c. c = CHR ''.'') (map (\<lambda>c. if name_char c then c else CHR ''_'') b)" "n \<noteq> []"
    using s unfolding sanitize_def Let_def b_def [symmetric] by (simp_all del: dropWhile_eq_Nil_conv split: if_splits)
  have "hd n \<noteq> CHR ''.''" using hd_dropWhile [OF n(2) [unfolded n(1)]] unfolding n(1) [symmetric] .
  moreover have "name_char x" if "x \<in> set n" for x
    using set_dropWhileD [OF that [unfolded n(1)]] by (auto split: if_splits)
  then have "list_all name_char n" by (simp add: list_all_iff)
  ultimately show ?thesis using n(2) by (simp add: safe_name_def)
qed

lemma sanitize_id:
  assumes "safe_name n"
  shows "sanitize n = Inr n"
proof -
  have c: "\<forall>x \<in> set n. name_char x" using assms by (simp add: safe_name_def list_all_iff)
  have "map (\<lambda>c. if c = CHR 0x5C then CHR ''/'' else c) n = n" using c by (intro map_idI) auto
  moreover have "\<forall>x \<in> set (rev n). x \<noteq> CHR ''/''" using c by auto
  then have "basename n = n" by (simp add: basename_def takeWhile_all)
  moreover have "map (\<lambda>c. if name_char c then c else CHR ''_'') n = n" using c by (intro map_idI) auto
  moreover have "dropWhile (\<lambda>c. c = CHR ''.'') n = n" using assms by (cases n) (auto simp: safe_name_def)
  moreover have "n \<noteq> []" using assms by (simp add: safe_name_def)
  ultimately show ?thesis by (simp add: sanitize_def del: dropWhile_eq_Nil_conv)
qed

section \<open>Random inputs\<close>

text \<open>What is asked of the generator: uniform in a range, integers in a closed range, or normal.\<close>

datatype draw = Uniform fl fl | Integers int int | Normal

definition int_range :: "string \<Rightarrow> int \<times> int" where
  "int_range dtype =
     (if dtype = ''bool'' then (0, 1)
      else let w = 8 * itemsize dtype in
        if take 1 dtype = ''u'' then (0, 2 ^ w - 1) else (- (2 ^ (w - 1)), 2 ^ (w - 1) - 1))"

definition is_float :: "string \<Rightarrow> bool" where
  "is_float dtype \<longleftrightarrow> prefix ''float'' dtype"

definition equals_int :: "json \<Rightarrow> int \<Rightarrow> bool" where
  "equals_int v i \<longleftrightarrow> json_num v = Inr (Fin (of_int i))"

definition bounded_draw :: "string \<Rightarrow> json \<Rightarrow> json \<Rightarrow> draw res" where
  "bounded_draw dtype low high =
     (if is_float dtype then
        rbind (math_isfinite low) (\<lambda>fl. if \<not> fl then Inl (RPCError ''invalid random range'') else
        rbind (math_isfinite high) (\<lambda>fh. if \<not> fh then Inl (RPCError ''invalid random range'') else
        rbind (json_num low) (\<lambda>l. rbind (json_num high) (\<lambda>h.
          if fl_le h l then Inl (RPCError ''invalid random range'') else Inr (Uniform l h)))))
      else
        rbind (json_int low) (\<lambda>l. if \<not> equals_int low l then Inl (RPCError ''invalid integer random range'') else
        rbind (json_int high) (\<lambda>h. if \<not> equals_int high h then Inl (RPCError ''invalid integer random range'') else
          if l \<ge> h then Inl (RPCError ''invalid integer random range'')
          else if l < fst (int_range dtype) \<or> h > snd (int_range dtype) + 1 then Inl (RPCError ''random range is outside dtype'')
          else Inr (Integers l (h - 1)))))"

definition free_draw :: "string \<Rightarrow> draw" where
  "free_draw dtype = (if is_float dtype then Normal else Integers (fst (int_range dtype)) (snd (int_range dtype)))"

fun has_key :: "json \<Rightarrow> string \<Rightarrow> bool" where
  "has_key (JObj d) k = (map_of d k \<noteq> None)"
| "has_key _ k = False"

definition spec_shape :: "json \<Rightarrow> int list res" where
  "spec_shape spec =
     (case rbind (jitem spec ''shape'') (\<lambda>sh. rbind (json_iter sh) (\<lambda>ds. rmap json_int ds)) of
        Inl (KeyError _) \<Rightarrow> Inl (RPCError ''invalid shape'')
      | Inl (TypeError _) \<Rightarrow> Inl (RPCError ''invalid shape'')
      | Inl (ValueError _) \<Rightarrow> Inl (RPCError ''invalid shape'')
      | r \<Rightarrow> r)"

definition spec_draw :: "json \<Rightarrow> string \<Rightarrow> draw res" where
  "spec_draw spec dtype =
     (if has_key spec ''low'' \<noteq> has_key spec ''high'' then Inl (RPCError ''needs both low and high'')
      else if has_key spec ''low'' then
        rbind (jitem spec ''low'') (\<lambda>low. rbind (jitem spec ''high'') (\<lambda>high. bounded_draw dtype low high))
      else Inr (free_draw dtype))"

definition random_step ::
    "('g \<Rightarrow> string \<Rightarrow> int list \<Rightarrow> draw \<Rightarrow> nat list \<times> 'g) \<Rightarrow> json \<Rightarrow> (json, ndarray) dict \<times> 'g \<Rightarrow> ((json, ndarray) dict \<times> 'g) res" where
  "random_step rng spec = (\<lambda>(tensors, g).
     rbind (jitem spec ''name'') (\<lambda>nm. rbind (jitem spec ''dtype'') (\<lambda>dt. rbind (hash_key nm) (\<lambda>name.
       if map_of tensors name \<noteq> None then Inl (RPCError ''duplicate tensor name'')
       else case dt of JStr dtype \<Rightarrow>
           if dtype \<notin> set DTYPES then Inl (RPCError ''unsupported tensor dtype'')
           else rbind (spec_shape spec) (\<lambda>shape.
             if \<not> list_all (\<lambda>d. 0 \<le> d) shape then Inl (RPCError ''invalid shape'')
             else if prod_list shape * int (itemsize dtype) > int DEFAULT_MAX_BLOB_BYTES
             then Inl (RPCError ''exceeds the tensor size limit'')
             else rbind (spec_draw spec dtype) (\<lambda>d. let r = rng g dtype shape d in
               Inr (dict_set name \<lparr>nd_dtype = dtype, nd_shape = shape, nd_elems = fst r\<rparr> tensors, snd r)))
         | _ \<Rightarrow> Inl (RPCError ''unsupported tensor dtype'')))))"

definition random_tensors ::
    "('g \<Rightarrow> string \<Rightarrow> int list \<Rightarrow> draw \<Rightarrow> nat list \<times> 'g) \<Rightarrow> 'g \<Rightarrow> json list \<Rightarrow> (json, ndarray) dict res" where
  "random_tensors rng g specs =
     rbind (rfold (\<lambda>s spec. random_step rng spec s) ([], g) specs) (\<lambda>(tensors, g').
       if tensors = [] then Inl (RPCError ''random inputs require at least one tensor'') else Inr tensors)"

section \<open>The server and one session\<close>

text \<open>The arguments: what the handler calls outside of this code.\<close>

record ('r, 'g) server_env =
  env_key :: string
  env_max_blob :: nat
  env_info :: json
  env_dumps :: "json \<Rightarrow> bytes"
  env_loads :: "bytes \<Rightarrow> json res"
  env_prod :: "int list \<Rightarrow> int res"
  env_reshape :: "nat \<Rightarrow> int list \<Rightarrow> int list res"
  env_tpu_options :: "(string, json) dict"
  env_providers :: "string list option"
  env_tinygrad :: bool
  env_new :: "string \<Rightarrow> json \<Rightarrow> bytes \<Rightarrow> 'r res"
  env_run :: "'r \<Rightarrow> (json, ndarray) dict \<Rightarrow> (string, ndarray) dict res"
  env_time :: "'r \<Rightarrow> ((json, ndarray) dict \<Rightarrow> nat \<Rightarrow> nat \<Rightarrow> (rat list \<times> json) res) option"
  env_pmu :: "'r \<Rightarrow> ((json, ndarray) dict \<Rightarrow> nat \<Rightarrow> nat \<Rightarrow> (rat list \<times> json) res) option"
  env_clock :: "'r \<Rightarrow> nat \<Rightarrow> nat \<Rightarrow> rat list"
  env_seed :: "json \<Rightarrow> 'g res"
  env_rng :: "'g \<Rightarrow> string \<Rightarrow> int list \<Rightarrow> draw \<Rightarrow> nat list \<times> 'g"
  env_xdna :: "string \<Rightarrow> json \<Rightarrow> bytes list \<Rightarrow> (json \<times> bytes list) res"
  env_xdna_python :: string
  env_vitis_python :: string

record 'r session =
  models :: "(int, nat \<times> 'r) dict"
  counter :: int
  opened :: nat
  closed :: "nat list"
  files :: "(string, bytes) dict"
  stats :: "(json, nat) dict"

definition init_session :: "(string, bytes) dict \<Rightarrow> (json, nat) dict \<Rightarrow> 'r session" where
  "init_session fs st = \<lparr>models = [], counter = 0, opened = 0, closed = [], files = fs, stats = st\<rparr>"

text \<open>
  \<^verbatim>\<open>_make_runner\<close> with the checks of \<^verbatim>\<open>_Runner.__init__\<close> and \<^verbatim>\<open>_TinygradProxy.__init__\<close> that come before the
  backend: the runtime, the execution providers, the options that a client may override.
\<close>

fun json_contains :: "json \<Rightarrow> string \<Rightarrow> bool res" where
  "json_contains (JObj d) k = Inr (map_of d k \<noteq> None)"
| "json_contains (JList xs) k = Inr (JStr k \<in> set xs)"
| "json_contains (JStr s) k = Inr (sublist k s)"
| "json_contains _ k = Inl (TypeError ''not iterable'')"

definition tpu_override :: "json \<Rightarrow> (string, json) dict \<Rightarrow> string \<Rightarrow> (string, json) dict res" where
  "tpu_override model_options options name =
     rbind (json_contains model_options name) (\<lambda>b.
       if b then rbind (jitem model_options name) (\<lambda>v. Inr (dict_set name v options)) else Inr options)"

definition ort_runner :: "('r, 'g) server_env \<Rightarrow> json \<Rightarrow> json \<Rightarrow> bytes \<Rightarrow> 'r res" where
  "ort_runner env providers single_threaded data =
     rbind (if truthy providers then json_iter providers else Inr []) (\<lambda>ps.
       case env_providers env of
         None \<Rightarrow> env_new env ''reference'' JNull data
       | Some available \<Rightarrow>
           let chosen = (if ps = [] then [JStr ''CPUExecutionProvider''] else ps) in
           if \<exists>p \<in> set chosen. p \<notin> JStr ` set available then Inl (RPCError ''execution providers are not available here'')
           else env_new env ''onnxruntime''
             (JObj [(''providers'', JList chosen), (''single_threaded'', JBool (truthy single_threaded))]) data)"

definition make_runner :: "('r, 'g) server_env \<Rightarrow> json \<Rightarrow> bytes \<Rightarrow> 'r res" where
  "make_runner env header data =
     rbind (jget header ''runtime'') (\<lambda>rt. let runtime = (if truthy rt then rt else JStr ''onnxruntime'') in
       if runtime = JStr ''onnxruntime'' then
         rbind (jget header ''providers'') (\<lambda>ps. rbind (jget header ''single_threaded'') (\<lambda>st. ort_runner env ps st data))
       else if runtime = JStr ''tinygrad'' then
         rbind (jget header ''device'') (\<lambda>dev. rbind (jget header ''options'') (\<lambda>opt.
           if \<not> env_tinygrad env then Inl (RPCError ''the tinygrad runtime needs tinygrad installed on the server'')
           else env_new env ''tinygrad'' (JObj [(''device'', dev), (''options'', opt)]) data))
       else if runtime = JStr ''tpu_mlir'' then
         rbind (jget header ''options'') (\<lambda>opt.
           rbind (rfold (tpu_override (if truthy opt then opt else JObj [])) (env_tpu_options env)
               [''quantize'', ''calibration_table'', ''opt'', ''do_winograd'', ''matmul_perchannel''])
             (\<lambda>options. env_new env ''tpu_mlir'' (JObj options) data))
       else Inl (RPCError ''unknown runtime''))"

text \<open>An operation returns its outcome with the session, which it may have changed before it raised.\<close>

type_synonym 'r outcome = "(json \<times> bytes list) res \<times> 'r session"

definition tensor_reply :: "(string, ndarray) dict res \<Rightarrow> (json \<times> bytes list) res" where
  "tensor_reply outs = rbind outs (\<lambda>ts. rbind (encode_tensors ts) (\<lambda>(specs, blobs). Inr (JObj [(''tensors'', JList specs)], blobs)))"

definition decode_header_tensors :: "('r, 'g) server_env \<Rightarrow> json \<Rightarrow> bytes list \<Rightarrow> (json, ndarray) dict res" where
  "decode_header_tensors env header blobs =
     rbind (jitem header ''tensors'') (\<lambda>ts. rbind (json_iter ts) (\<lambda>specs.
       decode_tensors (env_prod env) (env_reshape env) specs blobs))"

definition json_name :: "json \<Rightarrow> string res" where
  "json_name header = rbind (jitem header ''name'') (\<lambda>n.
     case n of JStr s \<Rightarrow> sanitize s | _ \<Rightarrow> Inl (OtherError ''AttributeError''))"

definition op_upload :: "json \<Rightarrow> bytes list \<Rightarrow> 'r session \<Rightarrow> 'r outcome" where
  "op_upload header blobs s =
     (case blobs of
        [b] \<Rightarrow> (case json_name header of
            Inl e \<Rightarrow> (Inl e, s)
          | Inr name \<Rightarrow> (Inr (JObj [(''name'', JStr name), (''size'', JInt (int (length b)))], []),
              s\<lparr>files := dict_set name b (files s)\<rparr>))
      | _ \<Rightarrow> (Inl (RPCError ''upload takes exactly one blob''), s))"

definition model_data :: "json \<Rightarrow> bytes list \<Rightarrow> 'r session \<Rightarrow> bytes res" where
  "model_data header blobs s =
     (case blobs of
        b # _ \<Rightarrow> Inr b
      | [] \<Rightarrow> rbind (json_name header) (\<lambda>name.
          case dict_get (files s) name of None \<Rightarrow> Inl (OSError ''FileNotFoundError'') | Some d \<Rightarrow> Inr d))"

text \<open>The next runner: its number is kept with it.\<close>

definition open_runner :: "('r, 'g) server_env \<Rightarrow> json \<Rightarrow> bytes \<Rightarrow> 'r session \<Rightarrow> (nat \<times> 'r) res \<times> 'r session" where
  "open_runner env header data s =
     (case make_runner env header data of
        Inl e \<Rightarrow> (Inl e, s)
      | Inr r \<Rightarrow> (Inr (opened s, r), s\<lparr>opened := Suc (opened s)\<rparr>))"

definition close_runner :: "(nat \<times> 'r) \<Rightarrow> 'r session \<Rightarrow> 'r session" where
  "close_runner r s = s\<lparr>closed := closed s @ [fst r]\<rparr>"

definition op_load_model :: "('r, 'g) server_env \<Rightarrow> json \<Rightarrow> bytes list \<Rightarrow> 'r session \<Rightarrow> 'r outcome" where
  "op_load_model env header blobs s =
     (case model_data header blobs s of
        Inl e \<Rightarrow> (Inl e, s)
      | Inr data \<Rightarrow> (case open_runner env header data s of
            (Inl e, s1) \<Rightarrow> (Inl e, s1)
          | (Inr r, s1) \<Rightarrow> let handle = counter s1 + 1 in
              (Inr (JObj [(''handle'', JInt handle)], []), s1\<lparr>models := dict_set handle r (models s1)\<rparr>)))"

definition op_unload :: "json \<Rightarrow> 'r session \<Rightarrow> 'r outcome" where
  "op_unload header s =
     (case rbind (jitem header ''handle'') json_int of
        Inl e \<Rightarrow> (Inl e, s)
      | Inr h \<Rightarrow> (Inr (JObj [], []),
          (case dict_get (models s) h of None \<Rightarrow> s
           | Some r \<Rightarrow> close_runner r (s\<lparr>models := AList.delete h (models s)\<rparr>))))"

definition find_model :: "json \<Rightarrow> 'r session \<Rightarrow> 'r res" where
  "find_model header s =
     (case rbind (jitem header ''handle'') json_int of
        Inl (KeyError k) \<Rightarrow> Inl (RPCError ''no such model handle'')
      | Inl e \<Rightarrow> Inl e
      | Inr h \<Rightarrow> (case dict_get (models s) h of None \<Rightarrow> Inl (RPCError ''no such model handle'') | Some r \<Rightarrow> Inr (snd r)))"

definition op_run :: "('r, 'g) server_env \<Rightarrow> json \<Rightarrow> bytes list \<Rightarrow> 'r session \<Rightarrow> 'r outcome" where
  "op_run env header blobs s =
     (rbind (find_model header s) (\<lambda>r. rbind (decode_header_tensors env header blobs) (\<lambda>inputs.
        tensor_reply (env_run env r inputs))), s)"

definition median :: "rat list \<Rightarrow> rat res" where
  "median xs =
     (let ys = sort xs; n = length xs in
      if n = 0 then Inl (OtherError ''StatisticsError'')
      else if odd n then Inr (ys ! (n div 2)) else Inr ((ys ! (n div 2 - 1) + ys ! (n div 2)) / 2))"

definition time_reply :: "rat list \<Rightarrow> json option \<Rightarrow> (json \<times> bytes list) res" where
  "time_reply results st =
     rbind (median results) (\<lambda>m. Inr (JObj ([(''results'', JList (map (\<lambda>x. JFloat (Fin x)) results)), (''median'', JFloat (Fin m))] @
        (case st of None \<Rightarrow> [] | Some v \<Rightarrow> [(''stats'', v)])), []))"

text \<open>\<^verbatim>\<open>max(int(header.get(k, 1)), 1)\<close>.\<close>

definition count_of :: "json \<Rightarrow> string \<Rightarrow> nat res" where
  "count_of header k =
     (case header of
        JObj d \<Rightarrow> rbind (json_int (get_default d k (JInt 1))) (\<lambda>i. Inr (nat (max i 1)))
      | _ \<Rightarrow> Inl (OtherError ''AttributeError''))"

definition time_inputs :: "('r, 'g) server_env \<Rightarrow> json \<Rightarrow> bytes list \<Rightarrow> (json, ndarray) dict res" where
  "time_inputs env header blobs =
     rbind (jget header ''random_inputs'') (\<lambda>rnd.
       if truthy rnd then
         if blobs \<noteq> [] then Inl (RPCError ''random inputs must not include tensor blobs'')
         else rbind (jitem header ''tensors'') (\<lambda>ts. rbind (jget header ''seed'') (\<lambda>sd. rbind (env_seed env sd) (\<lambda>g.
           rbind (json_iter ts) (\<lambda>specs. random_tensors (env_rng env) g specs))))
       else decode_header_tensors env header blobs)"

definition op_time :: "('r, 'g) server_env \<Rightarrow> json \<Rightarrow> bytes list \<Rightarrow> 'r session \<Rightarrow> 'r outcome" where
  "op_time env header blobs s =
     (rbind (find_model header s) (\<lambda>r. rbind (time_inputs env header blobs) (\<lambda>inputs.
      rbind (count_of header ''number'') (\<lambda>number. rbind (count_of header ''repeat'') (\<lambda>repeats.
      rbind (jget header ''pmu'') (\<lambda>pmu.
        if truthy pmu then
          (case env_pmu env r of None \<Rightarrow> Inl (RPCError ''PMU timing is only supported by the TPU-MLIR SG2002 runtime'')
           | Some f \<Rightarrow> rbind (f inputs number repeats) (\<lambda>(results, st). time_reply results (Some st)))
        else
          (case env_time env r of
             Some f \<Rightarrow> rbind (f inputs number repeats) (\<lambda>(results, st). time_reply results (Some st))
           | None \<Rightarrow> rbind (env_run env r inputs) (\<lambda>_. time_reply (env_clock env r number repeats) None))))))), s)"

definition op_run_once :: "('r, 'g) server_env \<Rightarrow> json \<Rightarrow> bytes list \<Rightarrow> 'r session \<Rightarrow> 'r outcome" where
  "op_run_once env header blobs s =
     (case blobs of
        [] \<Rightarrow> (Inl (IndexError ''list''), s)
      | b # bs \<Rightarrow> (case open_runner env header b s of
            (Inl e, s1) \<Rightarrow> (Inl e, s1)
          | (Inr r, s1) \<Rightarrow>
              (tensor_reply (rbind (decode_header_tensors env header bs) (env_run env (snd r))), close_runner r s1)))"

definition with_field :: "string \<Rightarrow> string \<Rightarrow> json \<Rightarrow> json res" where
  "with_field k v header = (case header of JObj d \<Rightarrow> Inr (JObj (dict_set k (JStr v) d)) | _ \<Rightarrow> Inl (TypeError ''dict''))"

definition op_xdna :: "('r, 'g) server_env \<Rightarrow> string \<Rightarrow> json res \<Rightarrow> bytes list \<Rightarrow> 'r session \<Rightarrow> 'r outcome" where
  "op_xdna env tool header blobs s =
     (rbind header (\<lambda>h. rbind (env_xdna env tool h blobs) (\<lambda>(result, out). Inr (JObj [(''result'', result)], out))), s)"

text \<open>\<^verbatim>\<open>server.stats[op] = server.stats.get(op, 0) + 1\<close>, then the operation.\<close>

definition dispatch_op :: "('r, 'g) server_env \<Rightarrow> json \<Rightarrow> json \<Rightarrow> bytes list \<Rightarrow> 'r session \<Rightarrow> 'r outcome" where
  "dispatch_op env op header blobs s =
     (if op = JStr ''info'' then (Inr (JObj [(''info'', env_info env)], []), s)
      else if op = JStr ''upload'' then op_upload header blobs s
      else if op = JStr ''load_model'' then op_load_model env header blobs s
      else if op = JStr ''unload'' then op_unload header s
      else if op = JStr ''run'' then op_run env header blobs s
      else if op = JStr ''time'' then op_time env header blobs s
      else if op = JStr ''run_once'' then op_run_once env header blobs s
      else if op = JStr ''xdna_compile_resnet'' then
        op_xdna env ''compile_resnet'' (with_field ''_xdna_python'' (env_xdna_python env) header) blobs s
      else if op = JStr ''xdna_run_resnet'' then
        op_xdna env ''run_resnet'' (with_field ''_xdna_python'' (env_xdna_python env) header) blobs s
      else if op = JStr ''xdna_compare_vitis_resnet'' then
        op_xdna env ''compare_resnet'' (rbind (with_field ''_xdna_python'' (env_xdna_python env) header)
          (with_field ''_vitis_python'' (env_vitis_python env))) blobs s
      else (Inl (RPCError ''unknown operation''), s))"

definition dispatch :: "('r, 'g) server_env \<Rightarrow> json \<Rightarrow> json \<Rightarrow> bytes list \<Rightarrow> 'r session \<Rightarrow> 'r outcome" where
  "dispatch env op header blobs s =
     (case hash_key op of
        Inl e \<Rightarrow> (Inl e, s)
      | Inr k \<Rightarrow> dispatch_op env op header blobs (s\<lparr>stats := dict_set k (Suc (get_default (stats s) k 0)) (stats s)\<rparr>))"

text \<open>One request: the reply that is sent, and the session with \<^verbatim>\<open>counter = reply["handle"]\<close> after a load.\<close>

definition set_ok :: "json \<Rightarrow> json" where
  "set_ok reply = (case reply of JObj d \<Rightarrow> JObj (dict_set ''ok'' (JBool True) d) | v \<Rightarrow> v)"

definition error_reply :: "pyerr \<Rightarrow> json" where
  "error_reply e = JObj [(''ok'', JBool False), (''error'', JStr (case e of RPCError t \<Rightarrow> t | _ \<Rightarrow> ''error''))]"

definition reply_handle :: "json \<Rightarrow> int \<Rightarrow> int" where
  "reply_handle reply c = (case jitem reply ''handle'' of Inr (JInt h) \<Rightarrow> h | _ \<Rightarrow> c)"

definition serve_request ::
    "('r, 'g) server_env \<Rightarrow> json \<Rightarrow> json \<Rightarrow> bytes list \<Rightarrow> 'r session \<Rightarrow> (json \<times> bytes list) \<times> 'r session" where
  "serve_request env op header blobs s =
     (case dispatch env op header blobs s of
        (Inl e, s1) \<Rightarrow> ((error_reply e, []), s1)
      | (Inr (reply, out), s1) \<Rightarrow>
          ((set_ok reply, out), if op = JStr ''load_model'' then s1\<lparr>counter := reply_handle reply (counter s1)\<rparr> else s1))"

section \<open>The handler\<close>

lemma recv_blobs_consumes: "recv_blobs m n s = Inr (bs, s') \<Longrightarrow> length (concat s') \<le> length (concat s)"
proof (induction n arbitrary: s bs)
  case 0
  then show ?case by simp
next
  case (Suc n)
  then obtain h s1 b s2 bs' where r: "recv_exact 8 s = Inr (h, s1)" "recv_exact (le_nat h) s1 = Inr (b, s2)"
      "recv_blobs m n s2 = Inr (bs', s')"
    by (auto simp: res_simps split: if_splits)
  show ?case using Suc.IH [OF r(3)] recv_exact_consumes [OF r(1)] recv_exact_consumes [OF r(2)] by linarith
qed

lemma recv_message_consumes:
  assumes "recv_message loads m s = Inr (msg, s')"
  shows "length (concat s') < length (concat s)"
proof -
  obtain h s1 p s2 bs where r: "recv_exact 8 s = Inr (h, s1)" "recv_exact (le_nat (take 4 h)) s1 = Inr (p, s2)"
      "recv_blobs m (le_nat (drop 4 h)) s2 = Inr (bs, s')"
    using assms by (auto simp: recv_message_def Let_def res_simps split: if_splits)
  show ?thesis
    using recv_blobs_consumes [OF r(3)] recv_exact_consumes [OF r(1)] recv_exact_consumes [OF r(2)] by linarith
qed

text \<open>
  The loop of \<^verbatim>\<open>handle\<close>: the replies written, and the session when it ends. At most \<open>sends\<close> writes succeed
  before the connection fails.
\<close>

function serve :: "('r, 'g) server_env \<Rightarrow> nat \<Rightarrow> sock \<Rightarrow> 'r session \<Rightarrow> bytes list \<times> 'r session" where
  "serve env sends sk s =
     (case recv_message (env_loads env) (env_max_blob env) sk of
        Inl e \<Rightarrow> ([], s)
      | Inr (msg, sk') \<Rightarrow> (case jget (fst msg) ''op'' of
          Inl e \<Rightarrow> ([], s)
        | Inr op \<Rightarrow>
            if op = JStr ''close'' then
              (case send_message (env_dumps env) (JObj [(''ok'', JBool True)]) [] of
                 Inl e \<Rightarrow> ([], s) | Inr bs \<Rightarrow> (if sends = 0 then [] else [bs], s))
            else let r = serve_request env op (fst msg) (snd msg) s in
              (case send_message (env_dumps env) (fst (fst r)) (snd (fst r)) of
                 Inl e \<Rightarrow> ([], snd r)
               | Inr bs \<Rightarrow> if sends = 0 then ([], snd r)
                   else let rest = serve env (sends - 1) sk' (snd r) in (bs # fst rest, snd rest))))"
  by pat_completeness auto
termination by (relation "measure (\<lambda>(env, sends, sk, s). length (concat sk))") (auto dest: recv_message_consumes)

declare serve.simps [simp del]

text \<open>The \<^verbatim>\<open>finally\<close> clause.\<close>

definition release :: "'r session \<Rightarrow> 'r session" where
  "release s = s\<lparr>models := [], closed := closed s @ map (fst \<circ> snd) (models s)\<rparr>"

definition accepts :: "('r, 'g) server_env \<Rightarrow> json \<Rightarrow> bool res" where
  "accepts env first =
     (case first of
        JObj d \<Rightarrow> Inr (get_default d ''op'' JNull = JStr ''hello'' \<and>
          (env_key env = [] \<or> get_default d ''key'' (JStr []) = JStr (env_key env)))
      | _ \<Rightarrow> Inl (OtherError ''AttributeError''))"

definition handle :: "('r, 'g) server_env \<Rightarrow> nat \<Rightarrow> sock \<Rightarrow> 'r session \<Rightarrow> bytes list \<times> 'r session" where
  "handle env sends sk s =
     (case recv_message (env_loads env) (env_max_blob env) sk of
        Inl e \<Rightarrow> ([], release s)
      | Inr (msg, sk') \<Rightarrow> (case accepts env (fst msg) of
          Inl e \<Rightarrow> ([], release s)
        | Inr acc \<Rightarrow>
            (case send_message (env_dumps env)
                (if acc then JObj [(''ok'', JBool True), (''info'', env_info env)]
                 else JObj [(''ok'', JBool False), (''error'', JStr (''handshake rejected (server key '' @ env_key env @ '')''))]) [] of
               Inl e \<Rightarrow> ([], release s)
             | Inr bs \<Rightarrow>
                 if sends = 0 then ([], release s)
                 else if \<not> acc then ([bs], release s)
                 else let rest = serve env (sends - 1) sk' s in (bs # fst rest, release (snd rest)))))"

section \<open>The session invariant\<close>

text \<open>
  Handles are positive, distinct and not above the counter, and every runner that was opened is either the runner of
  one handle or has been closed once.
\<close>

definition sess_inv :: "'r session \<Rightarrow> bool" where
  "sess_inv s \<longleftrightarrow> distinct (dict_keys (models s)) \<and> (\<forall>h \<in> set (dict_keys (models s)). 1 \<le> h \<and> h \<le> counter s) \<and> 0 \<le> counter s \<and>
     mset (closed s) + mset (map (fst \<circ> snd) (models s)) = mset [0..<opened s]"

lemma mset_delete:
  assumes "distinct (dict_keys d)" "map_of d k = Some v"
  shows "mset (map f d) = add_mset (f (k, v)) (mset (map f (AList.delete k d)))"
  using assms
proof (induction d)
  case Nil
  then show ?case by simp
next
  case (Cons x d)
  obtain j w where x: "x = (j, w)" by (cases x)
  show ?case
  proof (cases "j = k")
    case True
    then have "AList.delete k d = d" using Cons.prems x by (simp add: delete_id)
    then show ?thesis using Cons.prems x True by simp
  next
    case False
    then show ?thesis using Cons x by simp
  qed
qed

lemma open_runner_cases:
  obtains e where "open_runner env header data s = (Inl e, s)"
  | r where "open_runner env header data s = (Inr (opened s, r), s\<lparr>opened := Suc (opened s)\<rparr>)" "make_runner env header data = Inr r"
  by (cases "make_runner env header data") (auto simp: open_runner_def)

lemma unload_keeps: "sess_inv s \<Longrightarrow> sess_inv (snd (op_unload header s))"
proof (cases "rbind (jitem header ''handle'') json_int")
  case (Inl e)
  assume "sess_inv s"
  with Inl show ?thesis by (simp add: op_unload_def)
next
  case (Inr h)
  assume s: "sess_inv s"
  show ?thesis
  proof (cases "dict_get (models s) h")
    case None
    then show ?thesis using s Inr by (simp add: op_unload_def)
  next
    case (Some r)
    have sub: "set (dict_keys (AList.delete h (models s))) \<subseteq> set (dict_keys (models s))" by (auto simp: AList.delete_eq)
    have dist: "distinct (dict_keys (models s))" using s by (simp add: sess_inv_def)
    have "distinct (dict_keys (AList.delete h (models s)))" using dist by (rule distinct_delete)
    moreover have "mset (map (fst \<circ> snd) (models s)) = add_mset (fst r) (mset (map (fst \<circ> snd) (AList.delete h (models s))))"
      using mset_delete [OF dist Some, of "fst \<circ> snd"] by simp
    ultimately show ?thesis
      using s Inr Some sub unfolding sess_inv_def op_unload_def close_runner_def by fastforce
  qed
qed

lemma run_once_keeps: "sess_inv s \<Longrightarrow> sess_inv (snd (op_run_once env header blobs s))"
proof (cases blobs)
  case (Cons b bs)
  assume s: "sess_inv s"
  show ?thesis
  proof (cases rule: open_runner_cases [of env header b s])
    case (1 e)
    then show ?thesis using s Cons by (simp add: op_run_once_def)
  next
    case (2 r)
    then show ?thesis using s Cons by (simp add: op_run_once_def close_runner_def sess_inv_def)
  qed
qed (simp add: op_run_once_def)

lemma load_model_keeps:
  assumes "sess_inv s"
  obtains e where "op_load_model env header blobs s = (Inl e, s)"
  | data r where "model_data header blobs s = Inr data" "make_runner env header data = Inr r"
      "op_load_model env header blobs s = (Inr (JObj [(''handle'', JInt (counter s + 1))], []),
         s\<lparr>opened := Suc (opened s), models := models s @ [(counter s + 1, opened s, r)]\<rparr>)"
proof (cases "model_data header blobs s")
  case (Inl e)
  then show thesis using that(1) by (simp add: op_load_model_def)
next
  case (Inr data)
  have fresh: "counter s + 1 \<notin> set (dict_keys (models s))" using assms by (force simp: sess_inv_def)
  show thesis
  proof (cases rule: open_runner_cases [of env header data s])
    case (1 e)
    then show thesis using that(1) Inr by (simp add: op_load_model_def)
  next
    case (2 r)
    then show thesis using that(2) [OF Inr 2(2)] Inr fresh by (simp add: op_load_model_def dict_set_fresh Let_def)
  qed
qed

lemma sess_inv_update [simp]:
  "sess_inv (s\<lparr>stats := st\<rparr>) = sess_inv s" "sess_inv (s\<lparr>files := fs\<rparr>) = sess_inv s"
  by (simp_all add: sess_inv_def)

lemma upload_keeps: "sess_inv s \<Longrightarrow> sess_inv (snd (op_upload header blobs s))"
  by (auto simp: op_upload_def split: list.splits sum.splits)

lemma dispatch_op_keeps:
  "op \<noteq> JStr ''load_model'' \<Longrightarrow> sess_inv s \<Longrightarrow> sess_inv (snd (dispatch_op env op header blobs s))"
  by (simp add: dispatch_op_def upload_keeps unload_keeps run_once_keeps op_run_def op_time_def op_xdna_def)

lemma serve_request_keeps:
  assumes "sess_inv s"
  shows "sess_inv (snd (serve_request env op header blobs s))"
proof (cases "op = JStr ''load_model''")
  case True
  define s0 where "s0 = s\<lparr>stats := dict_set op (Suc (get_default (stats s) op 0)) (stats s)\<rparr>"
  have d: "dispatch env op header blobs s = op_load_model env header blobs s0"
    by (simp add: dispatch_def dispatch_op_def True s0_def)
  have "sess_inv s0" using assms by (simp add: s0_def)
  then show ?thesis
  proof (cases rule: load_model_keeps [of s0 env header blobs])
    case (1 e)
    then show ?thesis using d \<open>sess_inv s0\<close> by (simp add: serve_request_def)
  next
    case (2 data r)
    then show ?thesis
      using d True \<open>sess_inv s0\<close> by (auto simp: serve_request_def reply_handle_def sess_inv_def)
  qed
next
  case False
  have "sess_inv (snd (dispatch env op header blobs s))"
    using assms by (cases "hash_key op") (simp_all add: dispatch_def dispatch_op_keeps [OF False])
  then show ?thesis using False by (auto simp: serve_request_def split: prod.splits sum.splits)
qed

lemma serve_invariant:
  assumes step: "\<And>op header blobs s. P s \<Longrightarrow> P (snd (serve_request env op header blobs s))"
  shows "P s \<Longrightarrow> P (snd (serve env sends sk s))"
proof (induction "length (concat sk)" arbitrary: sends sk s rule: less_induct)
  case less
  have "P (snd (serve env n sk' s'))" if "recv_message (env_loads env) (env_max_blob env) sk = Inr (msg, sk')" "P s'" for n sk' s' msg
    using less.hyps [OF recv_message_consumes [OF that(1)] that(2)] .
  then show ?case
    using less.prems step by (subst serve.simps) (auto simp: Let_def split: sum.splits prod.splits)
qed

lemma serve_keeps: "sess_inv s \<Longrightarrow> sess_inv (snd (serve env sends sk s))"
  by (rule serve_invariant [where P = sess_inv, OF serve_request_keeps])

lemma handle_ends:
  obtains s' where "snd (handle env sends sk s) = release s'" "s' = s \<or> (\<exists>n sk'. s' = snd (serve env n sk' s))"
proof -
  have "\<exists>s'. snd (handle env sends sk s) = release s' \<and> (s' = s \<or> (\<exists>n sk'. s' = snd (serve env n sk' s)))"
    by (auto simp: handle_def Let_def split: sum.splits prod.splits)
  then show thesis using that by blast
qed

lemma handle_invariant:
  assumes "\<And>op header blobs s. P s \<Longrightarrow> P (snd (serve_request env op header blobs s))" "P s"
  obtains s' where "snd (handle env sends sk s) = release s'" "P s'"
proof -
  obtain s' where s': "snd (handle env sends sk s) = release s'" "s' = s \<or> (\<exists>n sk'. s' = snd (serve env n sk' s))"
    using handle_ends by blast
  then have "P s'" using serve_invariant [where P = P, OF assms] assms(2) by blast
  then show thesis using that s'(1) by blast
qed

lemma init_inv: "sess_inv (init_session fs st)"
  by (simp add: sess_inv_def init_session_def)


text \<open>Files appear under sanitized names only.\<close>

lemma json_name_safe: "json_name header = Inr n \<Longrightarrow> safe_name n"
proof -
  assume n: "json_name header = Inr n"
  then obtain v where "jitem header ''name'' = Inr v" by (auto simp: json_name_def res_simps)
  then show ?thesis using n sanitize_safe by (cases v) (auto simp: json_name_def)
qed

lemma upload_files:
  "set (dict_keys (files (snd (op_upload header blobs s)))) \<subseteq> set (dict_keys (files s)) \<union> {n. safe_name n}"
  using json_name_safe [of header] by (simp add: op_upload_def dom_update split: list.splits sum.splits)

lemma run_once_files [simp]: "files (snd (op_run_once env header blobs s)) = files s"
proof (cases blobs)
  case (Cons b bs)
  then show ?thesis
    by (cases rule: open_runner_cases [of env header b s]) (simp_all add: op_run_once_def close_runner_def)
qed (simp add: op_run_once_def)

lemma load_model_files [simp]: "files (snd (op_load_model env header blobs s)) = files s"
proof (cases "model_data header blobs s")
  case (Inr data)
  then show ?thesis
    by (cases rule: open_runner_cases [of env header data s]) (simp_all add: op_load_model_def Let_def)
qed (simp add: op_load_model_def)

lemma unload_files [simp]: "files (snd (op_unload header s)) = files s"
  by (simp add: op_unload_def close_runner_def split: sum.splits option.splits)

lemma dispatch_files:
  "set (dict_keys (files (snd (dispatch env op header blobs s)))) \<subseteq> set (dict_keys (files s)) \<union> {n. safe_name n}"
proof (cases "hash_key op")
  case (Inl e)
  then show ?thesis by (simp add: dispatch_def)
next
  case (Inr k)
  define s0 where "s0 = s\<lparr>stats := dict_set k (Suc (get_default (stats s) k 0)) (stats s)\<rparr>"
  have "set (dict_keys (files (snd (dispatch_op env op header blobs s0)))) \<subseteq> set (dict_keys (files s0)) \<union> {n. safe_name n}"
    using upload_files [of header blobs s0] by (simp add: dispatch_op_def op_run_def op_time_def op_xdna_def)
  then show ?thesis using Inr by (simp add: dispatch_def s0_def)
qed

lemma serve_request_files:
  "set (dict_keys (files (snd (serve_request env op header blobs s)))) \<subseteq> set (dict_keys (files s)) \<union> {n. safe_name n}"
proof -
  have "files (snd (serve_request env op header blobs s)) = files (snd (dispatch env op header blobs s))"
    by (auto simp: serve_request_def split: prod.splits sum.splits)
  then show ?thesis using dispatch_files [of env op header blobs s] by simp
qed


text \<open>
  A client without the server's key can do nothing: when the server has a key and the first message does not carry
  that key, the handler sends at most the rejection (which names the key: it is an identifier, not a secret) and ends
  with the session as it was, no operation dispatched, no runner created, no file written and no statistics counted,
  whatever follows on the stream.
\<close>

theorem wrong_key_is_rejected:
  assumes "recv_message (env_loads env) (env_max_blob env) sk = Inr ((first, blobs), sk')"
    and "env_key env \<noteq> []" "jitem first ''key'' \<noteq> Inr (JStr (env_key env))"
  shows "length (fst (handle env sends sk (init_session fs st))) \<le> 1 \<and>
    snd (handle env sends sk (init_session fs st)) = init_session fs st"
proof -
  have "accepts env first = Inl (OtherError ''AttributeError'') \<or> accepts env first = Inr False"
    using assms(2,3) by (cases first) (auto simp: accepts_def get_default_def split: option.splits)
  then show ?thesis
    using assms(1) by (auto simp: handle_def release_def init_session_def split: sum.splits)
qed

text \<open>
  What is uploaded is what is loaded: an upload of one blob under a valid name reports the name under which it is
  stored, and a later \<^verbatim>\<open>load_model\<close> without blobs, by the client's own name or by the reported one, reads exactly those bytes.
\<close>

theorem upload_then_load:
  assumes "jitem header ''name'' = Inr (JStr name)" "sanitize name = Inr stored"
    and "jitem load ''name'' = Inr (JStr name) \<or> jitem load ''name'' = Inr (JStr stored)"
  shows "\<exists>s'. dispatch_op env (JStr ''upload'') header [b] s =
      (Inr (JObj [(''name'', JStr stored), (''size'', JInt (int (length b)))], []), s') \<and>
    model_data load [] s' = Inr b \<and> models s' = models s \<and>
    (\<forall>n. n \<noteq> stored \<longrightarrow> dict_get (files s') n = dict_get (files s) n)"
proof -
  have "sanitize stored = Inr stored" using sanitize_id sanitize_safe assms(2) by blast
  then have "json_name header = Inr stored" "json_name load = Inr stored"
    using assms by (auto simp: json_name_def)
  then show ?thesis by (simp add: dispatch_op_def op_upload_def model_data_def dict_simps)
qed

text \<open>Once a handle is not in the table and not above the counter, no later request brings it back.\<close>

lemma upload_handles [simp]:
  "models (snd (op_upload header blobs s)) = models s" "counter (snd (op_upload header blobs s)) = counter s"
  by (auto simp: op_upload_def split: list.splits sum.splits)

lemma run_once_handles [simp]:
  "models (snd (op_run_once env header blobs s)) = models s \<and> counter (snd (op_run_once env header blobs s)) = counter s"
proof (cases blobs)
  case (Cons b bs)
  then show ?thesis by (cases rule: open_runner_cases [of env header b s]) (simp_all add: op_run_once_def close_runner_def)
qed (simp add: op_run_once_def)

lemma unload_handles:
  "set (dict_keys (models (snd (op_unload header s)))) \<subseteq> set (dict_keys (models s)) \<and> counter (snd (op_unload header s)) = counter s"
  by (simp add: op_unload_def close_runner_def dom_delete_subset split: sum.splits option.splits)

lemma dispatch_op_handles:
  "op \<noteq> JStr ''load_model'' \<Longrightarrow>
   set (dict_keys (models (snd (dispatch_op env op header blobs s)))) \<subseteq> set (dict_keys (models s)) \<and>
   counter (snd (dispatch_op env op header blobs s)) = counter s"
  using unload_handles [of header s] by (simp add: dispatch_op_def op_run_def op_time_def op_xdna_def)

lemma serve_request_dead:
  assumes "sess_inv s" "h \<notin> set (dict_keys (models s))" "h \<le> counter s"
  shows "h \<notin> set (dict_keys (models (snd (serve_request env op header blobs s)))) \<and>
    h \<le> counter (snd (serve_request env op header blobs s))"
proof (cases "hash_key op")
  case (Inl e)
  then show ?thesis using assms by (simp add: serve_request_def dispatch_def)
next
  case (Inr k)
  define s0 where "s0 = s\<lparr>stats := dict_set k (Suc (get_default (stats s) k 0)) (stats s)\<rparr>"
  have s0: "sess_inv s0" "h \<notin> set (dict_keys (models s0))" "h \<le> counter s0" using assms by (simp_all add: s0_def)
  have d: "dispatch env op header blobs s = dispatch_op env op header blobs s0" using Inr by (simp add: dispatch_def s0_def)
  show ?thesis
  proof (cases "op = JStr ''load_model''")
    case True
    then have "dispatch env op header blobs s = op_load_model env header blobs s0" using d by (simp add: dispatch_op_def)
    then show ?thesis using s0 True
      by (cases rule: load_model_keeps [OF s0(1), of env header blobs]) (auto simp: serve_request_def reply_handle_def)
  next
    case False
    have "h \<notin> set (dict_keys (models (snd (dispatch_op env op header blobs s0)))) \<and>
        h \<le> counter (snd (dispatch_op env op header blobs s0))"
      using dispatch_op_handles [OF False, of env header blobs s0] s0 by auto
    then show ?thesis using d False by (auto simp: serve_request_def split: prod.splits sum.splits)
  qed
qed


section \<open>Random inputs stay in range\<close>

definition draw_ok :: "string \<Rightarrow> draw \<Rightarrow> bool" where
  "draw_ok dtype d \<longleftrightarrow>
     (case d of
        Uniform l h \<Rightarrow> is_float dtype \<and> isfinite l \<and> isfinite h \<and> fl_lt l h
      | Integers a b \<Rightarrow> \<not> is_float dtype \<and> fst (int_range dtype) \<le> a \<and> a \<le> b \<and> b \<le> snd (int_range dtype)
      | Normal \<Rightarrow> is_float dtype)"

lemma math_isfinite_num: "math_isfinite v = Inr True \<Longrightarrow> json_num v = Inr x \<Longrightarrow> isfinite x"
  by (cases v) auto

lemma bounded_draw_ok:
  assumes "bounded_draw dtype low high = Inr d"
  shows "draw_ok dtype d"
proof (cases "is_float dtype")
  case True
  then obtain l h where lh: "math_isfinite low = Inr True" "math_isfinite high = Inr True" "json_num low = Inr l"
      "json_num high = Inr h" "\<not> fl_le h l" "d = Uniform l h"
    using assms by (auto simp: bounded_draw_def res_simps split: if_splits)
  then have fin: "isfinite l" "isfinite h" using math_isfinite_num by blast+
  then have "fl_lt l h" using lh(5) by (cases l; cases h) (auto simp: fl_lt_def)
  then show ?thesis using True lh(6) fin by (simp add: draw_ok_def)
next
  case False
  then show ?thesis using assms by (auto simp: bounded_draw_def res_simps draw_ok_def split: if_splits)
qed

lemma int_range_ordered: "fst (int_range dtype) \<le> snd (int_range dtype)"
proof -
  have "(1::int) \<le> 2 ^ k" for k :: nat by simp
  then show ?thesis by (auto simp: int_range_def Let_def)
qed

lemma spec_draw_ok: "spec_draw spec dtype = Inr d \<Longrightarrow> draw_ok dtype d"
  using bounded_draw_ok int_range_ordered
  by (auto simp: spec_draw_def res_simps free_draw_def draw_ok_def split: if_splits)

lemma random_step_Inr:
  assumes "random_step rng spec (ts, g) = Inr (ts', g')"
  obtains name dtype shape d where "map_of ts name = None" "dtype \<in> set DTYPES" "list_all (\<lambda>d. 0 \<le> d) shape"
    "prod_list shape * int (itemsize dtype) \<le> int DEFAULT_MAX_BLOB_BYTES" "draw_ok dtype d"
    "ts' = ts @ [(name, \<lparr>nd_dtype = dtype, nd_shape = shape, nd_elems = fst (rng g dtype shape d)\<rparr>)]"
proof -
  obtain nm dt name where n: "jitem spec ''dtype'' = Inr dt" "hash_key nm = Inr name" "jitem spec ''name'' = Inr nm" "map_of ts name = None"
    using assms by (auto simp: random_step_def res_simps split: if_splits)
  then have fresh: "dict_set name v ts = ts @ [(name, v)]" for v by (simp add: dict_set_fresh map_of_eq_None_iff)
  obtain dtype where dt: "dt = JStr dtype" using assms n by (cases dt) (auto simp: random_step_def)
  obtain shape d where sd: "dtype \<in> set DTYPES" "list_all (\<lambda>d. 0 \<le> d) shape" "spec_draw spec dtype = Inr d"
      "prod_list shape * int (itemsize dtype) \<le> int DEFAULT_MAX_BLOB_BYTES"
      "ts' = dict_set name \<lparr>nd_dtype = dtype, nd_shape = shape, nd_elems = fst (rng g dtype shape d)\<rparr> ts"
    using assms n dt by (auto simp: random_step_def res_simps Let_def split: if_splits)
  then show thesis using that [OF n(4)] spec_draw_ok fresh by metis
qed

definition random_ok :: "('g \<Rightarrow> string \<Rightarrow> int list \<Rightarrow> draw \<Rightarrow> nat list \<times> 'g) \<Rightarrow> ndarray \<Rightarrow> bool" where
  "random_ok rng a \<longleftrightarrow> nd_dtype a \<in> set DTYPES \<and> list_all (\<lambda>d. 0 \<le> d) (nd_shape a) \<and>
     prod_list (nd_shape a) * int (itemsize (nd_dtype a)) \<le> int DEFAULT_MAX_BLOB_BYTES \<and>
     (\<exists>g d. draw_ok (nd_dtype a) d \<and> nd_elems a = fst (rng g (nd_dtype a) (nd_shape a) d))"

lemma random_step_keeps:
  assumes "random_step rng spec (ts, g) = Inr (ts', g')" "distinct (dict_keys ts)" "list_all (\<lambda>(name, a). random_ok rng a) ts"
  shows "distinct (dict_keys ts') \<and> list_all (\<lambda>(name, a). random_ok rng a) ts'"
proof -
  obtain name dtype shape d where r: "map_of ts name = None" "dtype \<in> set DTYPES" "list_all (\<lambda>d. 0 \<le> d) shape"
    "prod_list shape * int (itemsize dtype) \<le> int DEFAULT_MAX_BLOB_BYTES" "draw_ok dtype d"
    "ts' = ts @ [(name, \<lparr>nd_dtype = dtype, nd_shape = shape, nd_elems = fst (rng g dtype shape d)\<rparr>)]"
    using random_step_Inr [OF assms(1)] by blast
  then have "random_ok rng \<lparr>nd_dtype = dtype, nd_shape = shape, nd_elems = fst (rng g dtype shape d)\<rparr>"
    unfolding random_ok_def by auto
  then show ?thesis using assms(2,3) r(1,6) by (simp add: map_of_eq_None_iff)
qed

text \<open>
  Server-generated inputs are bounded: when the random inputs of a timing request are accepted, there is at least
  one tensor, the names are distinct, every tensor has a supported dtype, non-negative dimensions and at most the size limit
  in bytes, and its values come from a draw the generator can make: a non-empty finite interval for floats, an interval
  inside the range of the dtype for integers and booleans.
\<close>

theorem random_tensors_bounded:
  assumes "random_tensors rng g specs = Inr ts"
  shows "ts \<noteq> [] \<and> distinct (dict_keys ts) \<and> list_all (\<lambda>(name, a). random_ok rng a) ts"
proof -
  let ?P = "\<lambda>s. distinct (dict_keys (fst s)) \<and> list_all (\<lambda>(name, a). random_ok rng a) (fst s)"
  obtain g' where r: "rfold (\<lambda>s spec. random_step rng spec s) ([], g) specs = Inr (ts, g')" "ts \<noteq> []"
    using assms by (auto simp: random_tensors_def res_simps split: if_splits)
  have "?P (ts, g')"
  proof (rule rfold_invariant [where P = ?P, OF r(1)])
    show "?P ([], g)" by simp
  next
    fix s spec s'
    assume "?P s" "random_step rng spec s = Inr s'"
    then show "?P s'" using random_step_keeps [of rng spec "fst s" "snd s" "fst s'" "snd s'"] by simp
  qed
  then show ?thesis using r(2) by simp
qed

section \<open>An example server\<close>

definition ex_env :: "(nat, nat) server_env" where
  "ex_env = \<lparr>env_key = ''k'', env_max_blob = 8, env_info = JNull, env_dumps = ex_dumps, env_loads = ex_loads,
     env_prod = ex_prod, env_reshape = ex_reshape, env_tpu_options = [], env_providers = Some [''CPUExecutionProvider''],
     env_tinygrad = False, env_new = (\<lambda>kind opts data. Inr (length data)), env_run = (\<lambda>r ins. Inr []),
     env_time = (\<lambda>r. None), env_pmu = (\<lambda>r. None), env_clock = (\<lambda>r n k. replicate k 1), env_seed = (\<lambda>j. Inr 0),
     env_rng = (\<lambda>g t sh d. (replicate (nat (prod_list sh)) 0, g)), env_xdna = (\<lambda>t h b. Inl (RPCError ''xdna'')),
     env_xdna_python = ''python'', env_vitis_python = ''python''\<rparr>"

theorem wrong_key_is_rejected_witness:
  "\<exists>sk sk'. recv_message (env_loads ex_env) (env_max_blob ex_env) sk = Inr ((JNull, []), sk') \<and> env_key ex_env \<noteq> [] \<and>
     snd (handle ex_env 5 sk (init_session [] [])) = init_session [] []"
proof -
  define bs where "bs = (le_bytes 4 1 @ le_bytes 4 0) @ [1 :: byte]"
  have bs: "send_message ex_dumps JNull [] = Inr bs" by (simp add: send_message_def pack_def ex_dumps_def bs_def)
  have l: "ex_loads (ex_dumps JNull) = Inr JNull" "length (ex_dumps JNull) = 1" by (simp_all add: ex_dumps_def ex_loads_def)
  have ok: "sock_ok (map (\<lambda>b. [b]) bs)" "concat (map (\<lambda>b. [b]) bs) = bs @ []" by (auto simp: sock_ok_def)
  obtain sk' where s': "recv_message ex_loads 8 (map (\<lambda>b. [b]) bs) = Inr ((JNull, []), sk')"
    using recv_message_written [where loads = ex_loads, OF bs(1) l(1) ok, of 8] l(2) by (auto simp: MAX_HEADER_BYTES_def)
  then have s'': "recv_message (env_loads ex_env) (env_max_blob ex_env) (map (\<lambda>b. [b]) bs) = Inr ((JNull, []), sk')"
    by (simp add: ex_env_def)
  have k: "env_key ex_env \<noteq> []" "jitem JNull ''key'' \<noteq> Inr (JStr (env_key ex_env))" by (simp_all add: ex_env_def)
  from wrong_key_is_rejected [OF s'' k, of 5 "[]" "[]"] show ?thesis using s'' k(1) by blast
qed

theorem upload_then_load_witness:
  "\<exists>s'. dispatch_op ex_env (JStr ''upload'') (JObj [(''name'', JStr ''../m.onnx'')]) [[1, 2]] (init_session [] []) =
      (Inr (JObj [(''name'', JStr ''m.onnx''), (''size'', JInt 2)], []), s') \<and>
     model_data (JObj [(''name'', JStr ''m.onnx'')]) [] s' = Inr [1, 2]"
proof -
  have "sanitize ''../m.onnx'' = Inr ''m.onnx''" by code_simp
  then show ?thesis
    using upload_then_load [of "JObj [(''name'', JStr ''../m.onnx'')]" "''../m.onnx''" "''m.onnx''"
        "JObj [(''name'', JStr ''m.onnx'')]" ex_env "[1, 2]" "init_session [] []"] by auto
qed


theorem random_tensors_bounded_witness:
  "\<exists>ts. random_tensors (env_rng ex_env) 0 [JObj [(''name'', JStr ''x''), (''dtype'', JStr ''int8''), (''shape'', JList [JInt 2]),
       (''low'', JInt (- 128)), (''high'', JInt 128)]] = Inr ts \<and> list_all (\<lambda>(name, a). random_ok (env_rng ex_env) a) ts"
proof -
  have "\<exists>ts. random_tensors (env_rng ex_env) 0 [JObj [(''name'', JStr ''x''), (''dtype'', JStr ''int8''), (''shape'', JList [JInt 2]),
       (''low'', JInt (- 128)), (''high'', JInt 128)]] = Inr ts"
    by (simp add: random_tensors_def random_step_def spec_shape_def spec_draw_def bounded_draw_def is_float_def equals_int_def
        int_range_def DTYPES_def itemsize_def DEFAULT_MAX_BLOB_BYTES_def Let_def)
  then obtain ts where ts: "random_tensors (env_rng ex_env) 0 [JObj [(''name'', JStr ''x''), (''dtype'', JStr ''int8''), (''shape'', JList [JInt 2]),
       (''low'', JInt (- 128)), (''high'', JInt 128)]] = Inr ts" ..
  show ?thesis using ts random_tensors_bounded [OF ts] by (intro exI conjI) auto
qed

end
