(* ===== verification/Versioning_Bisect.thy ===== *)
theory Versioning_Bisect
  imports Onnx Union_Find "HOL-Library.Product_Lexorder" "HOL-Library.Multiset"
begin

text \<open>
  The bisection of \<^verbatim>\<open>onnxsim/versioning.py\<close>: matching the nodes of a candidate with those of the base, grouping the
  changes into units (fusion blocks, union-find over the tensors they share), building the graph with a
  prefix of the units applied, and the binary search for the first prefix that fails.

  Arguments: \<open>ser\<close>, the deterministic serialization of an attribute, \<open>digest\<close>, the content
  digest of a tensor, and \<open>check\<close>, which says whether a graph is equivalent to the base on every case (it
  may raise).
\<close>

section \<open>Nodes\<close>

definition node_key :: "(attribute \<Rightarrow> bytes) \<Rightarrow> node \<Rightarrow> string \<times> string \<times> string list \<times> string list \<times> bytes list" where
  "node_key ser n = (ndomain n, op_type n, ninput n, noutput n, map ser (sort_key attr_name (nattr n)))"

definition node_label :: "node \<Rightarrow> string" where
  "node_label n = or_name (nname n) (op_type n @ '':'' @ (case noutput n of [] \<Rightarrow> '''' | o1 # _ \<Rightarrow> o1))"

definition first_outputs :: "node list \<Rightarrow> (string, nat) dict" where
  "first_outputs bn = foldl (\<lambda>d (i, n). case noutput n of [] \<Rightarrow> d | o1 # _ \<Rightarrow> dict_setdefault o1 i d) [] (enumerate_py bn)"

definition matched_nodes :: "node list \<Rightarrow> node list \<Rightarrow> (nat, nat) dict" where
  "matched_nodes bn cn =
     foldl (\<lambda>d (j, n). case noutput n of [] \<Rightarrow> d
        | o1 # _ \<Rightarrow> (case dict_get (first_outputs bn) o1 of None \<Rightarrow> d | Some i \<Rightarrow> dict_set j i d)) [] (enumerate_py cn)"

definition match_nodes :: "node list \<Rightarrow> node list \<Rightarrow> (nat, nat) dict \<times> (nat, nat) dict" where
  "match_nodes bn cn =
     (let matched = matched_nodes bn cn in (matched, foldl (\<lambda>d (j, i). dict_set i j d) [] matched))"

section \<open>Fusion blocks\<close>

definition activation_tails :: "string list" where
  "activation_tails = [''Relu'', ''Clip'', ''Sigmoid'', ''Tanh'', ''HardSigmoid'', ''HardSwish'', ''LeakyRelu'', ''Elu'', ''Gelu'',
     ''Add'', ''Mul'', ''BatchNormalization'']"

definition FUSION_PRESETS :: "(string, string list \<times> string list) dict" where
  "FUSION_PRESETS =
     [(''node'', ([], [])),
      (''conv-act'', ([''Conv'', ''ConvTranspose''], activation_tails)),
      (''matmul-act'', ([''MatMul'', ''Gemm''], activation_tails)),
      (''default'', ([''Conv'', ''ConvTranspose'', ''MatMul'', ''Gemm''], activation_tails))]"

definition count_uses :: "node list \<Rightarrow> string list \<Rightarrow> (string, nat) dict" where
  "count_uses nodes outputs =
     foldl (\<lambda>d t. if t = '''' then d else dict_set t (get_default d t 0 + 1) d)
       (foldl (\<lambda>d t. dict_set t 1 d) [] outputs) (concat (map ninput nodes))"

definition block_step ::
    "string list \<Rightarrow> string list \<Rightarrow> (string, nat) dict \<Rightarrow> nat list \<times> (string, nat) dict \<Rightarrow> nat \<times> node \<Rightarrow> nat list \<times> (string, nat) dict" where
  "block_step heads tails uses = (\<lambda>(block_of, open_out) (idx, n).
     let first = (case ninput n of [] \<Rightarrow> '''' | t # _ \<Rightarrow> t);
         joined = (op_type n \<in> set tails \<and> dict_get open_out first \<noteq> None \<and> get_default uses first 0 = 1);
         bid = (if joined then get_default open_out first 0 else idx);
         open1 = (if joined then AList.delete first open_out else open_out);
         open2 = (case noutput n of o1 # _ \<Rightarrow> if o1 \<noteq> '''' \<and> (joined \<or> op_type n \<in> set heads) then dict_set o1 bid open1 else open1
                  | [] \<Rightarrow> open1) in
     (block_of @ [bid], open2))"

definition fusion_blocks :: "node list \<Rightarrow> string list \<Rightarrow> string \<Rightarrow> nat list res" where
  "fusion_blocks nodes outputs fusion =
     (case dict_get FUSION_PRESETS fusion of
        None \<Rightarrow> Inl (ValueError ''unknown fusion preset'')
      | Some (heads, tails) \<Rightarrow>
          Inr (fst (foldl (block_step heads tails (count_uses nodes outputs)) ([], []) (enumerate_py nodes))))"

section \<open>Units of change\<close>

datatype item_ref = KBase nat | KCand nat | KInit string
datatype block_key = Block nat | CandKey nat

record item =
  it_ref :: item_ref
  it_produced :: "string list"
  it_consumed :: "string list"
  it_pos :: int
  it_key :: "block_key option"

record change_unit =
  cu_index :: nat
  cu_nodes :: "string list"
  cu_initializers :: "string list"
  cu_blocks :: "string list"
  cu_base_rm :: "nat list"
  cu_cand_add :: "nat list"
  cu_inits :: "string list"

text \<open>\<^verbatim>\<open>{t.name: t for t in ...}\<close>: the last tensor of a name wins, at the place of the first.\<close>

definition init_dict :: "tensor_proto list \<Rightarrow> (string, tensor_proto) dict" where
  "init_dict ts = foldl (\<lambda>d t. dict_set (tname t) t d) [] ts"

definition diff_cand :: "(attribute \<Rightarrow> bytes) \<Rightarrow> node list \<Rightarrow> node list \<Rightarrow> (nat, nat) dict \<Rightarrow> nat list" where
  "diff_cand ser bn cn matched =
     filter (\<lambda>j. case dict_get matched j of None \<Rightarrow> True | Some i \<Rightarrow> node_key ser (cn ! j) \<noteq> node_key ser (bn ! i)) [0..<length cn]"

definition diff_base :: "(attribute \<Rightarrow> bytes) \<Rightarrow> node list \<Rightarrow> node list \<Rightarrow> (nat, nat) dict \<Rightarrow> (nat, nat) dict \<Rightarrow> nat list" where
  "diff_base ser bn cn matched inverted =
     filter (\<lambda>i. dict_get inverted i = None) [0..<length bn] @
     concat (map (\<lambda>j. case dict_get matched j of None \<Rightarrow> [] | Some i \<Rightarrow> [i]) (diff_cand ser bn cn matched))"

definition init_differs ::
    "(tensor_proto \<Rightarrow> string res) \<Rightarrow> (string, tensor_proto) dict \<Rightarrow> (string, tensor_proto) dict \<Rightarrow> string \<Rightarrow> bool res" where
  "init_differs digest bi ci name =
     (case (dict_get bi name, dict_get ci name) of
        (Some b, Some c) \<Rightarrow> rbind (digest b) (\<lambda>db. rbind (digest c) (\<lambda>dc. Inr (db \<noteq> dc)))
      | _ \<Rightarrow> Inr True)"

definition init_diff :: "(tensor_proto \<Rightarrow> string res) \<Rightarrow> (string, tensor_proto) dict \<Rightarrow> (string, tensor_proto) dict \<Rightarrow> string list res" where
  "init_diff digest bi ci = rfilter (init_differs digest bi ci) (sort (remdups (dict_keys bi @ dict_keys ci)))"

definition base_item :: "node list \<Rightarrow> node list \<Rightarrow> (nat, nat) dict \<Rightarrow> nat list \<Rightarrow> nat \<Rightarrow> item" where
  "base_item bn cn inverted block_of i =
     \<lparr>it_ref = KBase i, it_produced = noutput (bn ! i), it_consumed = ninput (bn ! i),
      it_pos = int (get_default inverted i (length cn + i)), it_key = Some (Block (block_of ! i))\<rparr>"

definition block_of_tensor :: "node list \<Rightarrow> nat list \<Rightarrow> (string, nat) dict" where
  "block_of_tensor bn block_of =
     foldl (\<lambda>d (i, n). foldl (\<lambda>d t. if t = '''' then d else dict_set t (block_of ! i) d) d (noutput n)) [] (enumerate_py bn)"

definition cand_item :: "node list \<Rightarrow> node list \<Rightarrow> (nat, nat) dict \<Rightarrow> nat list \<Rightarrow> nat \<Rightarrow> item" where
  "cand_item bn cn matched block_of j =
     (let bt = block_of_tensor bn block_of;
          key = (case dict_get matched j of
                   Some i \<Rightarrow> Block (block_of ! i)
                 | None \<Rightarrow> (case List.find (\<lambda>t. dict_get bt t \<noteq> None) (ninput (cn ! j)) of
                     None \<Rightarrow> CandKey j | Some t \<Rightarrow> Block (get_default bt t 0))) in
      \<lparr>it_ref = KCand j, it_produced = noutput (cn ! j), it_consumed = ninput (cn ! j), it_pos = int j, it_key = Some key\<rparr>)"

definition init_item :: "string \<Rightarrow> item" where
  "init_item name = \<lparr>it_ref = KInit name, it_produced = [name], it_consumed = [], it_pos = - 1, it_key = None\<rparr>"

text \<open>The unions in the order of the three loops: consumer with producers, producers of one tensor, items of one block key.\<close>

definition item_producers :: "item list \<Rightarrow> (string, nat list) dict" where
  "item_producers items =
     foldl (\<lambda>d (k, it). foldl (\<lambda>d t. if t = '''' then d else dict_append t k d) d (it_produced it)) [] (enumerate_py items)"

definition consumer_links :: "item list \<Rightarrow> (string, nat list) dict \<Rightarrow> (nat \<times> nat) list" where
  "consumer_links items producers =
     concat (map (\<lambda>(k, it). concat (map (\<lambda>t. map (\<lambda>p. (k, p)) (get_default producers t [])) (it_consumed it))) (enumerate_py items))"

definition producer_links :: "(string, nat list) dict \<Rightarrow> (nat \<times> nat) list" where
  "producer_links producers = concat (map (\<lambda>(t, ks). case ks of [] \<Rightarrow> [] | k # ps \<Rightarrow> map (\<lambda>p. (p, k)) ps) producers)"

definition key_step :: "(block_key, nat) dict \<times> (nat \<times> nat) list \<Rightarrow> nat \<times> item \<Rightarrow> (block_key, nat) dict \<times> (nat \<times> nat) list" where
  "key_step = (\<lambda>(seen, links) (k, it).
     case it_key it of None \<Rightarrow> (seen, links)
     | Some key \<Rightarrow> (case dict_get seen key of
         Some f \<Rightarrow> (seen, links @ [(k, f)])
       | None \<Rightarrow> (dict_set key k seen, links)))"

definition key_links :: "item list \<Rightarrow> (nat \<times> nat) list" where
  "key_links items = snd (foldl key_step ([], []) (enumerate_py items))"

definition item_links :: "item list \<Rightarrow> (nat \<times> nat) list" where
  "item_links items = (let producers = item_producers items in
     consumer_links items producers @ producer_links producers @ key_links items)"

text \<open>One unit from a group of items: what it removes from the base, adds from the candidate, and its labels.\<close>

definition members :: "nat list \<Rightarrow> nat \<Rightarrow> nat list" where
  "members block_of b = filter (\<lambda>i. block_of ! i = b) [0..<length block_of]"

definition join_plus :: "string list \<Rightarrow> string" where
  "join_plus ss = (case ss of [] \<Rightarrow> '''' | s # rest \<Rightarrow> s @ concat (map (\<lambda>t. ''+'' @ t) rest))"

definition block_label :: "node list \<Rightarrow> node list \<Rightarrow> nat list \<Rightarrow> block_key \<Rightarrow> string" where
  "block_label bn cn block_of key =
     (case key of Block b \<Rightarrow> join_plus (map (\<lambda>i. op_type (bn ! i)) (members block_of b)) | CandKey j \<Rightarrow> node_label (cn ! j))"

definition unit_blocks :: "nat list \<Rightarrow> item list \<Rightarrow> nat list" where
  "unit_blocks block_of its =
     concat (map (\<lambda>b. members block_of b) (remdups (concat (map (\<lambda>it. case it_key it of Some (Block b) \<Rightarrow> [b] | _ \<Rightarrow> []) its))))"

definition unit_base_rm :: "nat list \<Rightarrow> item list \<Rightarrow> nat list" where
  "unit_base_rm block_of its =
     remdups (concat (map (\<lambda>it. case it_ref it of KBase i \<Rightarrow> [i] | _ \<Rightarrow> []) its) @ unit_blocks block_of its)"

definition unit_cand_add :: "(nat, nat) dict \<Rightarrow> nat list \<Rightarrow> item list \<Rightarrow> nat list" where
  "unit_cand_add inverted block_of its =
     sort (remdups (concat (map (\<lambda>it. case it_ref it of KCand j \<Rightarrow> [j] | _ \<Rightarrow> []) its) @
       concat (map (\<lambda>i. case dict_get inverted i of None \<Rightarrow> [] | Some j \<Rightarrow> [j]) (unit_blocks block_of its))))"

definition unit_labels :: "node list \<Rightarrow> node list \<Rightarrow> item list \<Rightarrow> string list" where
  "unit_labels bn cn its =
     concat (map (\<lambda>it. case it_ref it of KBase i \<Rightarrow> [node_label (bn ! i)] | KCand j \<Rightarrow> [node_label (cn ! j)] | KInit _ \<Rightarrow> []) its)"

definition unit_inits :: "item list \<Rightarrow> string list" where
  "unit_inits its = concat (map (\<lambda>it. case it_ref it of KInit name \<Rightarrow> [name] | _ \<Rightarrow> []) its)"

definition make_unit ::
    "node list \<Rightarrow> node list \<Rightarrow> (nat, nat) dict \<Rightarrow> nat list \<Rightarrow> item list \<Rightarrow> nat \<Rightarrow> nat list \<Rightarrow> change_unit" where
  "make_unit bn cn inverted block_of items idx ks =
     (let its = map (\<lambda>k. items ! k) (sort_key (\<lambda>k. it_pos (items ! k)) ks) in
      \<lparr>cu_index = idx, cu_nodes = unit_labels bn cn its, cu_initializers = unit_inits its,
       cu_blocks = rev (remdups (rev (concat (map (\<lambda>it. case it_key it of None \<Rightarrow> [] | Some key \<Rightarrow> [block_label bn cn block_of key]) its)))),
       cu_base_rm = unit_base_rm block_of its, cu_cand_add = unit_cand_add inverted block_of its,
       cu_inits = unit_inits its\<rparr>)"

definition plan_items ::
    "(attribute \<Rightarrow> bytes) \<Rightarrow> node list \<Rightarrow> node list \<Rightarrow> nat list \<Rightarrow> string list \<Rightarrow> item list" where
  "plan_items ser bn cn block_of names =
     (let matched = fst (match_nodes bn cn); inverted = snd (match_nodes bn cn) in
      map (base_item bn cn inverted block_of) (diff_base ser bn cn matched inverted) @
      map (cand_item bn cn matched block_of) (diff_cand ser bn cn matched) @ map init_item names)"

definition group_items :: "item list \<Rightarrow> nat list list res" where
  "group_items items =
     (case uf_unions [0..<length items] (item_links items) of
        None \<Rightarrow> Inl (OtherError ''find does not return'')
      | Some parent \<Rightarrow> (case uf_groups parent [0..<length items] [] of
            None \<Rightarrow> Inl (OtherError ''find does not return'')
          | Some d \<Rightarrow> Inr (sort_key (\<lambda>g. Min (set (map (\<lambda>k. it_pos (items ! k)) g))) (map snd d))))"

definition plan :: "(attribute \<Rightarrow> bytes) \<Rightarrow> (tensor_proto \<Rightarrow> string res) \<Rightarrow> graph \<Rightarrow> graph \<Rightarrow> string \<Rightarrow> change_unit list res" where
  "plan ser digest base cand fusion =
     (let bn = gnode base; cn = gnode cand; inverted = snd (match_nodes bn cn) in
      rbind (fusion_blocks bn (map vname (goutput base)) fusion) (\<lambda>block_of.
      rbind (init_diff digest (init_dict (ginit base)) (init_dict (ginit cand))) (\<lambda>names.
      let items = plan_items ser bn cn block_of names in
      rbind (group_items items) (\<lambda>groups.
        Inr (map (\<lambda>(idx, g). make_unit bn cn inverted block_of items idx g) (enumerate_py groups))))))"

section \<open>Topological order\<close>

definition producer_step :: "(string, nat) dict \<Rightarrow> string \<times> nat \<Rightarrow> (string, nat) dict res" where
  "producer_step d = (\<lambda>(t, idx).
     if t = '''' then Inr d
     else if dict_get d t \<noteq> None then Inl (InvalidGraph ''produced twice'') else Inr (dict_set t idx d))"

definition pool_producers :: "(nat \<times> node) list \<Rightarrow> (string, nat) dict res" where
  "pool_producers pool =
     rfold producer_step [] (concat (map (\<lambda>(idx, (p, n)). map (\<lambda>t. (t, idx)) (noutput n)) (enumerate_py pool)))"

fun node_deps :: "(string, nat) dict \<Rightarrow> string set \<Rightarrow> string list \<Rightarrow> nat list res" where
  "node_deps producers avail [] = Inr []"
| "node_deps producers avail (t # ts) =
     (if t = '''' \<or> t \<in> avail then node_deps producers avail ts
      else case dict_get producers t of
        None \<Rightarrow> Inl (InvalidGraph ''nothing produces'')
      | Some i \<Rightarrow> rbind (node_deps producers avail ts) (\<lambda>ds. Inr (List.insert i ds)))"

definition consumer_table :: "nat list list \<Rightarrow> (nat, nat list) dict" where
  "consumer_table deps = foldl (\<lambda>d (idx, ds). foldl (\<lambda>d i. dict_append i idx d) d ds) [] (enumerate_py deps)"

definition relax :: "(nat \<times> node) list \<Rightarrow> nat \<Rightarrow> (nat \<times> nat) list \<times> int list \<Rightarrow> (nat \<times> nat) list \<times> int list" where
  "relax pool c = (\<lambda>(heap, indeg).
     if c < length indeg then
       let v = indeg ! c - 1 in (if v = 0 then heap @ [(fst (pool ! c), c)] else heap, indeg[c := v])
     else (heap, indeg))"

definition pos_count :: "int list \<Rightarrow> nat" where
  "pos_count indeg = length (filter (\<lambda>v. 0 < v) indeg)"

lemma pos_count_update: "c < length xs \<Longrightarrow> pos_count (xs[c := v]) + (if 0 < xs ! c then 1 else 0) = pos_count xs + (if 0 < v then 1 else 0)"
proof (induction xs arbitrary: c)
  case Nil
  then show ?case by simp
next
  case (Cons x xs)
  then show ?case by (cases c) (auto simp: pos_count_def)
qed

lemma relax_measure:
  "length (fst (relax pool c s)) + pos_count (snd (relax pool c s)) \<le> length (fst s) + pos_count (snd s)"
proof (cases s)
  case (Pair heap indeg)
  show ?thesis
  proof (cases "c < length indeg")
    case True
    define v where "v = indeg ! c - 1"
    have "relax pool c s = (if v = 0 then heap @ [(fst (pool ! c), c)] else heap, indeg[c := v])"
      using Pair True by (simp add: relax_def v_def Let_def)
    moreover have "0 < indeg ! c" if "v = 0" using that by (simp add: v_def)
    moreover have "0 < indeg ! c" if "0 < v" using that by (simp add: v_def)
    ultimately show ?thesis using Pair pos_count_update [OF True, of v] by (auto split: if_splits)
  next
    case False
    then show ?thesis using Pair by (simp add: relax_def)
  qed
qed

lemma fold_relax_measure:
  "length (fst (fold (relax pool) cs s)) + pos_count (snd (fold (relax pool) cs s)) \<le> length (fst s) + pos_count (snd s)"
proof (induction cs arbitrary: s)
  case Nil
  then show ?case by simp
next
  case (Cons c cs)
  show ?case using Cons.IH [of "relax pool c s"] relax_measure [of pool c s] by simp
qed

text \<open>The loop: the heap is the collection of ready nodes, and \<^verbatim>\<open>heappop\<close> takes the least pair of position and index.\<close>

function kahn :: "(nat \<times> node) list \<Rightarrow> (nat, nat list) dict \<Rightarrow> (nat \<times> nat) list \<times> int list \<Rightarrow> nat list \<Rightarrow> nat list" where
  "kahn pool consumers s order =
     (if fst s = [] then order
      else let m = Min (set (fst s)) in
        kahn pool consumers (fold (relax pool) (get_default consumers (snd m) []) (remove1 m (fst s), snd s)) (order @ [snd m]))"
  by pat_completeness auto
termination
proof (relation "measure (\<lambda>(pool, consumers, s, order). length (fst s) + pos_count (snd s))")
  fix pool :: "(nat \<times> node) list" and consumers :: "(nat, nat list) dict" and s :: "(nat \<times> nat) list \<times> int list"
    and order :: "nat list" and m
  assume ne: "fst s \<noteq> []" and m: "m = Min (set (fst s))"
  let ?s' = "fold (relax pool) (get_default consumers (snd m) []) (remove1 m (fst s), snd s)"
  have "length (fst ?s') + pos_count (snd ?s') \<le> length (remove1 m (fst s)) + pos_count (snd s)"
    using fold_relax_measure [of pool "get_default consumers (snd m) []" "(remove1 m (fst s), snd s)"] by simp
  moreover have "m \<in> set (fst s)" using m ne Min_in [of "set (fst s)"] by simp
  then have "length (remove1 m (fst s)) < length (fst s)" using ne by (simp add: length_remove1)
  ultimately show "((pool, consumers, ?s', order @ [snd m]), pool, consumers, s, order) \<in>
      measure (\<lambda>(pool, consumers, s, order). length (fst s) + pos_count (snd s))" by simp
qed simp

declare kahn.simps [simp del]

definition kahn_start :: "(nat \<times> node) list \<Rightarrow> nat list list \<Rightarrow> (nat \<times> nat) list \<times> int list" where
  "kahn_start pool deps =
     (let indeg = map (\<lambda>ds. int (length ds)) deps in
      (map (\<lambda>i. (fst (pool ! i), i)) (filter (\<lambda>i. indeg ! i = 0) [0..<length pool]), indeg))"

definition topo_order :: "(nat \<times> node) list \<Rightarrow> string set \<Rightarrow> string list \<Rightarrow> node list res" where
  "topo_order pool avail outputs =
     rbind (pool_producers pool) (\<lambda>producers.
     rbind (rmap (\<lambda>(p, n). node_deps producers avail (ninput n)) pool) (\<lambda>deps.
     let order = kahn pool (consumer_table deps) (kahn_start pool deps) [] in
     if length order \<noteq> length pool then Inl (InvalidGraph ''the graph has a cycle'')
     else if \<exists>t \<in> set outputs. t \<notin> avail \<and> dict_get producers t = None then Inl (InvalidGraph ''not produced'')
     else Inr (map (\<lambda>i. snd (pool ! i)) order)))"

section \<open>The order is topological\<close>

lemma consumers_inner:
  "distinct ds \<Longrightarrow> get_default (foldl (\<lambda>d i. dict_append i idx d) d ds) j [] =
     get_default d j [] @ (if j \<in> set ds then [idx] else [])"
  by (induction ds arbitrary: d) (auto simp: dict_simps)

lemma consumers_outer:
  "\<forall>ds \<in> set deps. distinct ds \<Longrightarrow>
   get_default (foldl (\<lambda>d (idx, ds). foldl (\<lambda>d i. dict_append i idx d) d ds) d (enum_from k deps)) j [] =
     get_default d j [] @ map fst (filter (\<lambda>(idx, ds). j \<in> set ds) (enum_from k deps))"
  by (induction deps arbitrary: d k) (auto simp: consumers_inner)

lemma consumer_table_spec:
  assumes "\<forall>ds \<in> set deps. distinct ds"
  shows "set (get_default (consumer_table deps) j []) = {c. c < length deps \<and> j \<in> set (deps ! c)}"
    and "distinct (get_default (consumer_table deps) j [])"
proof -
  have eq: "get_default (consumer_table deps) j [] = map fst (filter (\<lambda>(idx, ds). j \<in> set ds) (enumerate_py deps))"
    using consumers_outer [OF assms, of "[]" 0 j] by (simp add: consumer_table_def)
  show "set (get_default (consumer_table deps) j []) = {c. c < length deps \<and> j \<in> set (deps ! c)}"
    unfolding eq by (force simp: set_enum_from)
  have "distinct (map fst (enumerate_py deps))" by simp
  then show "distinct (get_default (consumer_table deps) j [])"
    unfolding eq by (rule distinct_map_filter)
qed

text \<open>The invariant of the loop, over the dependencies between positions of the pool.\<close>

definition kahn_inv :: "(nat \<times> node) list \<Rightarrow> nat list list \<Rightarrow> (nat \<times> nat) list \<times> int list \<Rightarrow> nat list \<Rightarrow> bool" where
  "kahn_inv pool deps s order \<longleftrightarrow>
     length (snd s) = length deps \<and> distinct (order @ map snd (fst s)) \<and> set order \<subseteq> {..<length deps} \<and>
     (\<forall>c < length deps. snd s ! c = int (card (set (deps ! c) - set order))) \<and>
     (\<forall>c < length deps. c \<in> set order \<or> c \<in> snd ` set (fst s) \<longleftrightarrow> snd s ! c = 0) \<and>
     set (fst s) \<subseteq> (\<lambda>i. (fst (pool ! i), i)) ` {..<length deps} \<and>
     (\<forall>k < length order. set (deps ! (order ! k)) \<subseteq> set (take k order))"

text \<open>Relaxing the consumers of the node that was taken.\<close>

lemma fold_relax:
  assumes "distinct cs" "\<forall>c \<in> set cs. c < length indeg"
  shows "fold (relax pool) cs (heap, indeg) =
    (heap @ map (\<lambda>c. (fst (pool ! c), c)) (filter (\<lambda>c. indeg ! c = 1) cs),
     map (\<lambda>c. if c \<in> set cs then indeg ! c - 1 else indeg ! c) [0..<length indeg])"
  using assms
proof (induction cs arbitrary: heap indeg)
  case Nil
  then show ?case by (simp add: map_nth)
next
  case (Cons c cs)
  define indeg' where "indeg' = indeg[c := indeg ! c - 1]"
  define heap' where "heap' = (if indeg ! c = 1 then heap @ [(fst (pool ! c), c)] else heap)"
  have step: "relax pool c (heap, indeg) = (heap', indeg')"
    using Cons.prems by (simp add: relax_def Let_def heap'_def indeg'_def)
  have nth: "indeg' ! x = (if x = c then indeg ! c - 1 else indeg ! x)" if "x < length indeg" for x
    using that by (auto simp: indeg'_def nth_list_update)
  have "filter (\<lambda>x. indeg' ! x = 1) cs = filter (\<lambda>x. indeg ! x = 1) cs"
    using Cons.prems nth by (intro filter_cong) auto
  moreover have "map (\<lambda>x. if x \<in> set cs then indeg' ! x - 1 else indeg' ! x) [0..<length indeg] =
      map (\<lambda>x. if x \<in> set (c # cs) then indeg ! x - 1 else indeg ! x) [0..<length indeg]"
    using Cons.prems nth by (intro map_cong) auto
  moreover have "fold (relax pool) cs (heap', indeg') =
      (heap' @ map (\<lambda>c. (fst (pool ! c), c)) (filter (\<lambda>x. indeg' ! x = 1) cs),
       map (\<lambda>x. if x \<in> set cs then indeg' ! x - 1 else indeg' ! x) [0..<length indeg'])"
    using Cons.IH [of indeg' heap'] Cons.prems by (simp add: indeg'_def)
  ultimately show ?case using step by (simp add: heap'_def indeg'_def)
qed

definition deps_ok :: "nat list list \<Rightarrow> bool" where
  "deps_ok deps \<longleftrightarrow> (\<forall>ds \<in> set deps. distinct ds \<and> set ds \<subseteq> {..<length deps})"

lemma map_snd_remove1:
  "distinct (map snd xs) \<Longrightarrow> m \<in> set xs \<Longrightarrow> distinct (map snd (remove1 m xs)) \<and> snd ` set (remove1 m xs) = snd ` set xs - {snd m}"
proof (induction xs)
  case Nil
  then show ?case by simp
next
  case (Cons x xs)
  then show ?case by (cases "x = m") auto
qed

lemma kahn_step_inv:
  assumes inv: "kahn_inv pool deps s order" and ok: "deps_ok deps" and ne: "fst s \<noteq> []"
  defines "m \<equiv> Min (set (fst s))"
  shows "kahn_inv pool deps
    (fold (relax pool) (get_default (consumer_table deps) (snd m) []) (remove1 m (fst s), snd s)) (order @ [snd m])"
proof -
  obtain heap indeg where s: "s = (heap, indeg)" by (cases s)
  define n where "n = length deps"
  define i where "i = snd m"
  define cs where "cs = get_default (consumer_table deps) i []"
  have dd: "\<forall>ds \<in> set deps. distinct ds" using ok by (simp add: deps_ok_def)
  have cs: "set cs = {c. c < n \<and> i \<in> set (deps ! c)}" "distinct cs"
    using consumer_table_spec [OF dd, of i] by (simp_all add: cs_def n_def)
  have m: "m \<in> set heap" using ne s Min_in [of "set heap"] by (simp add: m_def)
  have len: "length indeg = n" and dist: "distinct order" "distinct (map snd heap)" "set order \<inter> snd ` set heap = {}"
    and ord: "set order \<subseteq> {..<n}" and deg: "\<And>c. c < n \<Longrightarrow> indeg ! c = int (card (set (deps ! c) - set order))"
    and zero: "\<And>c. c < n \<Longrightarrow> c \<in> set order \<or> c \<in> snd ` set heap \<longleftrightarrow> indeg ! c = 0"
    and form: "set heap \<subseteq> (\<lambda>i. (fst (pool ! i), i)) ` {..<n}"
    and before: "\<And>k. k < length order \<Longrightarrow> set (deps ! (order ! k)) \<subseteq> set (take k order)"
    using inv s by (auto simp: kahn_inv_def n_def)
  have i: "i < n" "m = (fst (pool ! i), i)" using m form by (auto simp: i_def)
  have ih: "i \<in> snd ` set heap" using m by (auto simp: i_def)
  then have io: "i \<notin> set order" and i0: "indeg ! i = 0" using dist(3) zero [OF i(1)] by auto
  have depi: "set (deps ! i) \<subseteq> set order" using deg [OF i(1)] i0 by simp
  have pos: "1 \<le> indeg ! c" if "c \<in> set cs" for c
  proof -
    have "i \<in> set (deps ! c) - set order" "c < n" using that cs(1) io by auto
    then show ?thesis using deg by (simp add: Suc_leI card_gt_0_iff) (metis DiffI finite_Diff List.finite_set card_gt_0_iff empty_iff of_nat_1 of_nat_le_iff Suc_leI One_nat_def)
  qed
  define heap' where "heap' = remove1 m heap @ map (\<lambda>c. (fst (pool ! c), c)) (filter (\<lambda>c. indeg ! c = 1) cs)"
  define indeg' where "indeg' = map (\<lambda>c. if c \<in> set cs then indeg ! c - 1 else indeg ! c) [0..<n]"
  have new: "fold (relax pool) cs (remove1 m heap, indeg) = (heap', indeg')"
    using fold_relax [OF cs(2), of indeg pool "remove1 m heap"] cs(1) len by (simp add: heap'_def indeg'_def)
  note rem = map_snd_remove1 [OF dist(2) m, folded i_def]
  have heapset: "snd ` set heap' = (snd ` set heap - {i}) \<union> {c \<in> set cs. indeg ! c = 1}"
    using rem by (auto simp: heap'_def image_Un image_image)
  have nth': "indeg' ! c = (if c \<in> set cs then indeg ! c - 1 else indeg ! c)" if "c < n" for c
    using that by (simp add: indeg'_def)
  have fresh: "c \<notin> set order \<and> c \<notin> snd ` set heap" if "c \<in> set cs" for c
    using pos [OF that] zero [of c] that cs(1) by auto
  have "distinct ((order @ [i]) @ map snd heap')"
    using dist(1,3) rem io ih cs(2) fresh by (auto simp: heap'_def comp_def)
  moreover have "indeg' ! c = int (card (set (deps ! c) - set (order @ [i])))" if c: "c < n" for c
  proof (cases "c \<in> set cs")
    case True
    then have "i \<in> set (deps ! c) - set order" using cs(1) io by auto
    then have "card (set (deps ! c) - set order - {i}) = card (set (deps ! c) - set order) - 1" by simp
    moreover have "set (deps ! c) - set (order @ [i]) = set (deps ! c) - set order - {i}" by auto
    ultimately show ?thesis using nth' [OF c] True deg [OF c] pos [OF True] by (simp add: of_nat_diff)
  next
    case False
    then have "set (deps ! c) - set (order @ [i]) = set (deps ! c) - set order" using cs(1) c by auto
    then show ?thesis using nth' [OF c] False deg [OF c] by simp
  qed
  moreover have "c \<in> set (order @ [i]) \<or> c \<in> snd ` set heap' \<longleftrightarrow> indeg' ! c = 0" if c: "c < n" for c
    using nth' [OF c] zero [OF c] fresh [of c] pos [of c] heapset i0 ih by auto
  moreover have "set heap' \<subseteq> (\<lambda>i. (fst (pool ! i), i)) ` {..<n}"
    using form cs(1) set_remove1_subset [of m heap] by (auto simp: heap'_def)
  moreover have "set (deps ! ((order @ [i]) ! k)) \<subseteq> set (take k (order @ [i]))" if "k < length (order @ [i])" for k
    using that before [of k] depi by (cases "k < length order") (auto simp: nth_append)
  ultimately have "kahn_inv pool deps (heap', indeg') (order @ [i])"
    using ord i(1) unfolding kahn_inv_def n_def [symmetric] by (simp add: indeg'_def)
  then show ?thesis using new s by (simp add: cs_def i_def)
qed

lemma kahn_final:
  "kahn_inv pool deps s order \<Longrightarrow> deps_ok deps \<Longrightarrow>
     \<exists>s'. fst s' = [] \<and> kahn_inv pool deps s' (kahn pool (consumer_table deps) s order)"
proof (induction pool "consumer_table deps" s order rule: kahn.induct)
  case (1 pool s order)
  show ?case
  proof (cases "fst s = []")
    case True
    then show ?thesis using "1.prems" by (intro exI [of _ s]) (simp add: kahn.simps)
  next
    case False
    then show ?thesis
      using "1.hyps" [OF False refl kahn_step_inv [OF "1.prems" False] "1.prems"(2)]
      by (subst kahn.simps) (simp add: Let_def)
  qed
qed

lemma kahn_start_inv:
  assumes "length deps = length pool" "deps_ok deps"
  shows "kahn_inv pool deps (kahn_start pool deps) []"
proof -
  have "card (set (deps ! c)) = length (deps ! c)" if "c < length deps" for c
    using assms(2) that by (simp add: deps_ok_def distinct_card)
  then show ?thesis using assms(1) by (auto simp: kahn_inv_def kahn_start_def Let_def comp_def image_image)
qed

text \<open>What the loop leaves out depends on something else that it leaves out.\<close>

lemma kahn_result:
  assumes "length deps = length pool" "deps_ok deps"
  defines "order \<equiv> kahn pool (consumer_table deps) (kahn_start pool deps) []"
  shows "distinct order" "set order \<subseteq> {..<length pool}"
    and "\<And>k. k < length order \<Longrightarrow> set (deps ! (order ! k)) \<subseteq> set (take k order)"
    and "\<And>c. c < length pool \<Longrightarrow> set (deps ! c) \<subseteq> set order \<Longrightarrow> c \<in> set order"
proof -
  obtain s where s: "fst s = []" "kahn_inv pool deps s order"
    using kahn_final [OF kahn_start_inv [OF assms(1,2)] assms(2)] unfolding order_def by blast
  then show "distinct order" "set order \<subseteq> {..<length pool}"
    and "\<And>k. k < length order \<Longrightarrow> set (deps ! (order ! k)) \<subseteq> set (take k order)"
    using assms(1) by (auto simp: kahn_inv_def)
  fix c
  assume c: "c < length pool" "set (deps ! c) \<subseteq> set order"
  then have "snd s ! c = 0" using s assms(1) by (simp add: kahn_inv_def Diff_eq_empty_iff [THEN iffD2])
  then show "c \<in> set order" using s assms(1) c by (auto simp: kahn_inv_def)
qed

subsection \<open>Producers and dependencies\<close>

lemma producer_fold:
  assumes "distinct (map fst (filter (\<lambda>x. fst x \<noteq> '''') xs))" "\<forall>x \<in> set xs. fst x \<noteq> '''' \<longrightarrow> dict_get d (fst x) = None"
  shows "\<exists>d'. rfold producer_step d xs = Inr d' \<and>
    (\<forall>t i. dict_get d' t = Some i \<longleftrightarrow> dict_get d t = Some i \<or> t \<noteq> '''' \<and> (t, i) \<in> set xs)"
  using assms
proof (induction xs arbitrary: d)
  case Nil
  then show ?case by simp
next
  case (Cons x xs)
  obtain t i where x: "x = (t, i)" by (cases x)
  show ?case
  proof (cases "t = ''''")
    case True
    then show ?thesis using Cons.IH [of d] Cons.prems x by (auto simp: producer_step_def)
  next
    case False
    have fresh: "t \<notin> fst ` set xs" using Cons.prems(1) x False by (auto simp: image_iff)
    obtain d' where d': "rfold producer_step (dict_set t i d) xs = Inr d'"
        "\<forall>u k. dict_get d' u = Some k \<longleftrightarrow> dict_get (dict_set t i d) u = Some k \<or> u \<noteq> '''' \<and> (u, k) \<in> set xs"
      using Cons.IH [of "dict_set t i d"] Cons.prems x False fresh by (force simp: dict_simps)
    have none: "dict_get d t = None" using Cons.prems(2) x False by simp
    then have "rfold producer_step d (x # xs) = Inr d'" using d'(1) x False by (simp add: producer_step_def)
    moreover have "dict_get d' u = Some k \<longleftrightarrow> dict_get d u = Some k \<or> u \<noteq> '''' \<and> (u, k) \<in> set (x # xs)" for u k
      using d'(2) none x False fresh by (auto simp: dict_simps image_iff)
    ultimately show ?thesis by blast
  qed
qed

lemma producer_fold_dup:
  "rfold producer_step d xs = Inr d' \<Longrightarrow>
     distinct (map fst (filter (\<lambda>x. fst x \<noteq> '''') xs)) \<and> (\<forall>x \<in> set xs. fst x \<noteq> '''' \<longrightarrow> dict_get d (fst x) = None)"
proof (induction xs arbitrary: d)
  case Nil
  then show ?case by simp
next
  case (Cons x xs)
  obtain t i where x: "x = (t, i)" by (cases x)
  show ?case
  proof (cases "t = ''''")
    case True
    then show ?thesis using Cons x by (auto simp: producer_step_def)
  next
    case False
    obtain d1 where d1: "producer_step d (t, i) = Inr d1" "rfold producer_step d1 xs = Inr d'"
      using Cons.prems x by (auto simp: res_simps)
    then have none: "dict_get d t = None" and "d1 = dict_set t i d"
      using False by (auto simp: producer_step_def split: if_splits)
    then have rest: "rfold producer_step (dict_set t i d) xs = Inr d'" using d1(2) by simp
    have dist: "distinct (map fst (filter (\<lambda>x. fst x \<noteq> '''') xs))"
      and other: "\<And>y. y \<in> set xs \<Longrightarrow> fst y \<noteq> '''' \<Longrightarrow> fst y \<noteq> t \<and> dict_get d (fst y) = None"
      using Cons.IH [OF rest] by (auto simp: dict_simps split: if_splits)
    have "t \<notin> fst ` set (filter (\<lambda>x. fst x \<noteq> '''') xs)" using other by force
    then show ?thesis using none x False dist other by simp
  qed
qed

text \<open>The tensors that the nodes of a pool write, with the position of their writer.\<close>

definition pool_writes :: "(nat \<times> node) list \<Rightarrow> (string \<times> nat) list" where
  "pool_writes pool = concat (map (\<lambda>(idx, (p, n)). map (\<lambda>t. (t, idx)) (noutput n)) (enumerate_py pool))"

lemma in_pool_writes: "(t, i) \<in> set (pool_writes pool) \<longleftrightarrow> i < length pool \<and> t \<in> set (noutput (snd (pool ! i)))"
proof -
  have "(t, i) \<in> set (pool_writes pool) \<longleftrightarrow> (\<exists>x \<in> set (enumerate_py pool). i = fst x \<and> t \<in> set (noutput (snd (snd x))))"
    by (auto simp: pool_writes_def case_prod_beta)
  also have "\<dots> \<longleftrightarrow> (\<exists>e. (i, e) \<in> set (enumerate_py pool) \<and> t \<in> set (noutput (snd e)))" by (metis fst_conv prod.collapse snd_conv)
  finally show ?thesis by (auto simp: in_set_enumerate_py)
qed

definition written_once :: "(nat \<times> node) list \<Rightarrow> bool" where
  "written_once pool \<longleftrightarrow> distinct (filter (\<lambda>t. t \<noteq> '''') (concat (map (\<lambda>(p, n). noutput n) pool)))"

lemma map_fst_pool_writes: "map fst (pool_writes pool) = concat (map (\<lambda>(p, n). noutput n) pool)"
proof -
  have "map fst (concat (map (\<lambda>(idx, (p, n)). map (\<lambda>t. (t, idx)) (noutput n)) (enum_from k pool))) =
      concat (map (\<lambda>(p, n). noutput n) pool)" for k
    by (induction pool arbitrary: k) (auto simp: comp_def)
  then show ?thesis by (simp add: pool_writes_def)
qed

lemma written_once_iff: "written_once pool \<longleftrightarrow> distinct (map fst (filter (\<lambda>x. fst x \<noteq> '''') (pool_writes pool)))"
  by (simp add: written_once_def filter_map comp_def flip: map_fst_pool_writes)

lemma pool_producers_ok: "is_ok (pool_producers pool) \<longleftrightarrow> written_once pool"
  using producer_fold [of "pool_writes pool" "[]"] producer_fold_dup [of "[]" "pool_writes pool"]
  by (auto simp: pool_producers_def written_once_iff is_ok_iff simp flip: pool_writes_def)

lemma pool_producers_spec:
  assumes "pool_producers pool = Inr d"
  shows "dict_get d t = Some i \<longleftrightarrow> t \<noteq> '''' \<and> i < length pool \<and> t \<in> set (noutput (snd (pool ! i)))"
proof -
  have d: "rfold producer_step [] (pool_writes pool) = Inr d" using assms by (simp add: pool_producers_def pool_writes_def)
  then show ?thesis
    using producer_fold [of "pool_writes pool" "[]"] producer_fold_dup [OF d] by (auto simp: in_pool_writes)
qed

lemma node_deps_ok: "is_ok (node_deps d avail ts) \<longleftrightarrow> (\<forall>t \<in> set ts. t = '''' \<or> t \<in> avail \<or> dict_get d t \<noteq> None)"
proof (induction ts)
  case Nil
  then show ?case by simp
next
  case (Cons t ts)
  then show ?case by (cases "node_deps d avail ts"; cases "dict_get d t") auto
qed

lemma node_deps_spec:
  "node_deps d avail ts = Inr ds \<Longrightarrow> distinct ds \<and> set ds = {i. \<exists>t \<in> set ts. t \<noteq> '''' \<and> t \<notin> avail \<and> dict_get d t = Some i}"
proof (induction ts arbitrary: ds)
  case Nil
  then show ?case by simp
next
  case (Cons t ts)
  show ?case
  proof (cases "t = '''' \<or> t \<in> avail")
    case True
    then have "node_deps d avail ts = Inr ds" using Cons.prems by (simp split: if_splits)
    then show ?thesis using Cons.IH [of ds] True by auto
  next
    case False
    then obtain i ds' where "dict_get d t = Some i" "node_deps d avail ts = Inr ds'" "ds = List.insert i ds'"
      using Cons.prems by (auto simp: res_simps split: option.splits)
    then show ?thesis using Cons.IH [of ds'] False by auto
  qed
qed

text \<open>An order of the positions of the pool in which every node comes after the writers of what it reads.\<close>

definition valid_order :: "(nat \<times> node) list \<Rightarrow> string set \<Rightarrow> nat list \<Rightarrow> bool" where
  "valid_order pool avail ord \<longleftrightarrow> distinct ord \<and> set ord = {..<length pool} \<and>
     (\<forall>k < length ord. \<forall>t \<in> set (ninput (snd (pool ! (ord ! k)))). t = '''' \<or> t \<in> avail \<or>
        (\<exists>j < k. t \<in> set (noutput (snd (pool ! (ord ! j))))))"

definition outputs_written :: "(nat \<times> node) list \<Rightarrow> string set \<Rightarrow> string list \<Rightarrow> bool" where
  "outputs_written pool avail outputs \<longleftrightarrow> (\<forall>t \<in> set outputs. t \<in> avail \<or> t \<noteq> '''' \<and> (\<exists>(p, n) \<in> set pool. t \<in> set (noutput n)))"

lemma deps_of_pool:
  assumes "pool_producers pool = Inr d" "rmap (\<lambda>(p, n). node_deps d avail (ninput n)) pool = Inr deps"
  shows "length deps = length pool" "deps_ok deps"
    and "\<And>c. c < length pool \<Longrightarrow> set (deps ! c) =
      {i. i < length pool \<and> (\<exists>t \<in> set (ninput (snd (pool ! c))). t \<noteq> '''' \<and> t \<notin> avail \<and> t \<in> set (noutput (snd (pool ! i))))}"
proof -
  show len: "length deps = length pool" using rmap_length [OF assms(2)] .
  have dep: "distinct (deps ! c) \<and> set (deps ! c) =
      {i. \<exists>t \<in> set (ninput (snd (pool ! c))). t \<noteq> '''' \<and> t \<notin> avail \<and> dict_get d t = Some i}" if "c < length pool" for c
    using rmap_nth [OF assms(2) that] node_deps_spec by (cases "pool ! c") fastforce
  show eq: "set (deps ! c) = {i. i < length pool \<and>
      (\<exists>t \<in> set (ninput (snd (pool ! c))). t \<noteq> '''' \<and> t \<notin> avail \<and> t \<in> set (noutput (snd (pool ! i))))}" if "c < length pool" for c
    using dep [OF that] pool_producers_spec [OF assms(1)] by auto
  show "deps_ok deps"
    unfolding deps_ok_def
  proof
    fix ds
    assume "ds \<in> set deps"
    then obtain c where "c < length pool" "ds = deps ! c" using len by (metis in_set_conv_nth)
    then show "distinct ds \<and> set ds \<subseteq> {..<length deps}" using dep [of c] eq [of c] len by auto
  qed
qed

lemma all_ordered:
  assumes step: "\<And>c. c < n \<Longrightarrow> D c \<subseteq> S \<Longrightarrow> c \<in> S" and ord: "set ord = {..<n}"
    and dep: "\<And>k. k < length ord \<Longrightarrow> D (ord ! k) \<subseteq> set (take k ord)"
  shows "{..<n} \<subseteq> S"
proof -
  have "set (take k ord) \<subseteq> S" if "k \<le> length ord" for k
    using that
  proof (induction k)
    case 0
    then show ?case by simp
  next
    case (Suc k)
    then have sub: "set (take k ord) \<subseteq> S" and k: "k < length ord" by auto
    have "D (ord ! k) \<subseteq> S" using dep [OF k] sub by blast
    moreover have "ord ! k < n" using k ord nth_mem by blast
    ultimately have "ord ! k \<in> S" using step by blast
    then show ?case using sub k by (simp add: take_Suc_conv_app_nth)
  qed
  from this [of "length ord"] show ?thesis using ord by simp
qed

lemma valid_orderD:
  "valid_order pool avail ord \<Longrightarrow> k < length ord \<Longrightarrow> t \<in> set (ninput (snd (pool ! (ord ! k)))) \<Longrightarrow> t \<noteq> '''' \<Longrightarrow> t \<notin> avail \<Longrightarrow>
     \<exists>j < k. t \<in> set (noutput (snd (pool ! (ord ! j))))"
  unfolding valid_order_def by blast

lemma valid_order_deps:
  assumes "valid_order pool avail ord" "pool_producers pool = Inr d" "written_once pool" "k < length ord"
    and i: "i < length pool" "t \<in> set (ninput (snd (pool ! (ord ! k))))" "t \<noteq> ''''" "t \<notin> avail" "t \<in> set (noutput (snd (pool ! i)))"
  shows "i \<in> set (take k ord)"
proof -
  obtain j where j: "j < k" "t \<in> set (noutput (snd (pool ! (ord ! j))))"
    using valid_orderD [OF assms(1,4) i(2-4)] by blast
  have "ord ! j < length pool" using assms(1,4) j(1) by (auto simp: valid_order_def dest: nth_mem)
  then have "dict_get d t = Some (ord ! j)" "dict_get d t = Some i" using pool_producers_spec [OF assms(2)] i j by auto
  then show ?thesis using j(1) assms(4) by (auto simp: in_set_conv_nth)
qed

lemma topo_sound:
  assumes d: "pool_producers pool = Inr d" and deps: "rmap (\<lambda>(p, n). node_deps d avail (ninput n)) pool = Inr deps"
    and full: "length (kahn pool (consumer_table deps) (kahn_start pool deps) []) = length pool"
  shows "valid_order pool avail (kahn pool (consumer_table deps) (kahn_start pool deps) [])" (is "valid_order _ _ ?ord")
proof -
  note D = deps_of_pool [OF d deps]
  note K = kahn_result [OF D(1,2)]
  have all: "set ?ord = {..<length pool}"
    using K(1,2) full by (intro card_subset_eq) (auto simp: distinct_card)
  have "\<exists>j < k. t \<in> set (noutput (snd (pool ! (?ord ! j))))"
    if k: "k < length ?ord" and t: "t \<in> set (ninput (snd (pool ! (?ord ! k))))" "t \<noteq> ''''" "t \<notin> avail" for k t
  proof -
    have c: "?ord ! k < length pool" using K(2) k nth_mem by blast
    have "is_ok (node_deps d avail (ninput (snd (pool ! (?ord ! k)))))"
      using rmap_nth [OF deps c] by (cases "pool ! (?ord ! k)") (auto simp: is_ok_iff)
    then obtain i where "dict_get d t = Some i" using t by (auto simp: node_deps_ok)
    then have "i \<in> set (deps ! (?ord ! k))" and w: "t \<in> set (noutput (snd (pool ! i)))"
      using D(3) [OF c] t pool_producers_spec [OF d] by auto
    then have "i \<in> set (take k ?ord)" using K(3) [OF k] by blast
    then obtain j where "j < k" "?ord ! j = i" using k by (auto simp: in_set_conv_nth)
    then show ?thesis using w by blast
  qed
  then show ?thesis using K(1) all by (auto simp: valid_order_def)
qed

lemma topo_complete:
  assumes d: "pool_producers pool = Inr d" and ord: "valid_order pool avail ord" and once: "written_once pool"
  shows "\<exists>deps. rmap (\<lambda>(p, n). node_deps d avail (ninput n)) pool = Inr deps \<and>
    length (kahn pool (consumer_table deps) (kahn_start pool deps) []) = length pool"
proof -
  have set_ord: "set ord = {..<length pool}" using ord by (simp add: valid_order_def)
  have read: "dict_get d t \<noteq> None" if c: "c < length pool" and t: "t \<in> set (ninput (snd (pool ! c)))" "t \<noteq> ''''" "t \<notin> avail" for c t
  proof -
    obtain k where k: "k < length ord" "ord ! k = c" using c set_ord by (metis in_set_conv_nth lessThan_iff)
    then obtain j where j: "j < k" "t \<in> set (noutput (snd (pool ! (ord ! j))))" using valid_orderD [OF ord k(1) _ t(2,3)] t(1) by blast
    then have "ord ! j < length pool" using k set_ord nth_mem [of j ord] by auto
    then show ?thesis using pool_producers_spec [OF d, of t "ord ! j"] j t by auto
  qed
  have "is_ok (rmap (\<lambda>(p, n). node_deps d avail (ninput n)) pool)"
    using read by (fastforce simp: rmap_ok_iff node_deps_ok in_set_conv_nth)
  then obtain deps where deps: "rmap (\<lambda>(p, n). node_deps d avail (ninput n)) pool = Inr deps" by (auto simp: is_ok_iff)
  note D = deps_of_pool [OF d deps]
  let ?ord = "kahn pool (consumer_table deps) (kahn_start pool deps) []"
  note K = kahn_result [OF D(1,2)]
  have "set (deps ! (ord ! k)) \<subseteq> set (take k ord)" if k: "k < length ord" for k
    using D(3) [of "ord ! k"] set_ord k nth_mem [OF k] valid_order_deps [OF ord d once k] by auto
  then have "{..<length pool} \<subseteq> set ?ord"
    by (intro all_ordered [where D = "\<lambda>c. set (deps ! c)", OF K(4) set_ord]) auto
  then have "set ?ord = {..<length pool}" using K(2) by blast
  then have "length ?ord = length pool" using K(1) by (metis card_lessThan distinct_card)
  then show ?thesis using deps by blast
qed

text \<open>
  C31. \<^verbatim>\<open>_topo_order\<close> returns exactly when it can: it returns the nodes of the pool, each once, in an order where
  every node comes after the writers of all it reads that is not already available; and it raises only when a tensor
  is written twice, or an output is not produced, or no such order exists (something read is never written, or there
  is a cycle).
\<close>

theorem topo_order_exact:
  "case topo_order pool avail outputs of
     Inr order \<Rightarrow> written_once pool \<and> outputs_written pool avail outputs \<and>
       (\<exists>ord. valid_order pool avail ord \<and> order = map (\<lambda>i. snd (pool ! i)) ord)
   | Inl e \<Rightarrow> \<not> (written_once pool \<and> outputs_written pool avail outputs \<and> (\<exists>ord. valid_order pool avail ord))"
proof (cases "pool_producers pool")
  case (Inl e)
  then have "\<not> written_once pool" using pool_producers_ok [of pool] by simp
  then show ?thesis using Inl by (simp add: topo_order_def)
next
  case (Inr d)
  then have once: "written_once pool" using pool_producers_ok [of pool] by simp
  have outs: "(\<exists>t \<in> set outputs. t \<notin> avail \<and> dict_get d t = None) \<longleftrightarrow> \<not> outputs_written pool avail outputs"
  proof -
    have "dict_get d t = None \<longleftrightarrow> \<not> (t \<noteq> '''' \<and> (\<exists>(p, n) \<in> set pool. t \<in> set (noutput n)))" for t
    proof -
      have "(\<exists>i. dict_get d t = Some i) \<longleftrightarrow> t \<noteq> '''' \<and> (\<exists>i < length pool. t \<in> set (noutput (snd (pool ! i))))"
        using pool_producers_spec [OF Inr] by auto
      also have "\<dots> \<longleftrightarrow> t \<noteq> '''' \<and> (\<exists>x \<in> set pool. t \<in> set (noutput (snd x)))" by (metis in_set_conv_nth)
      finally show ?thesis by (auto simp: case_prod_beta)
    qed
    then show ?thesis unfolding outputs_written_def by blast
  qed
  show ?thesis
  proof (cases "\<exists>deps. rmap (\<lambda>(p, n). node_deps d avail (ninput n)) pool = Inr deps \<and>
      length (kahn pool (consumer_table deps) (kahn_start pool deps) []) = length pool")
    case True
    then obtain deps where deps: "rmap (\<lambda>(p, n). node_deps d avail (ninput n)) pool = Inr deps"
        "length (kahn pool (consumer_table deps) (kahn_start pool deps) []) = length pool" by blast
    show ?thesis using topo_sound [OF Inr deps] deps Inr once outs by (auto simp: topo_order_def Let_def)
  next
    case False
    then have "\<nexists>ord. valid_order pool avail ord" using topo_complete [OF Inr _ once] by blast
    moreover have "\<exists>e. topo_order pool avail outputs = Inl e"
      using False Inr by (cases "rmap (\<lambda>(p, n). node_deps d avail (ninput n)) pool") (auto simp: topo_order_def Let_def)
    ultimately show ?thesis by auto
  qed
qed

section \<open>States and the search\<close>

definition apply_init :: "(string, tensor_proto) dict \<Rightarrow> (string, tensor_proto) dict \<Rightarrow> string \<Rightarrow> (string, tensor_proto) dict" where
  "apply_init cand_inits inits name =
     (case dict_get cand_inits name of Some t \<Rightarrow> dict_set name t inits | None \<Rightarrow> AList.delete name inits)"

definition state_pool :: "node list \<Rightarrow> node list \<Rightarrow> (nat, nat) dict \<Rightarrow> change_unit list \<Rightarrow> (nat \<times> node) list" where
  "state_pool bn cn inverted us =
     map (\<lambda>i. (get_default inverted i (length cn + i), bn ! i))
       (filter (\<lambda>i. i \<notin> set (concat (map cu_base_rm us))) [0..<length bn]) @
     map (\<lambda>j. (j, cn ! j)) (concat (map cu_cand_add us))"

definition state_inits :: "graph \<Rightarrow> graph \<Rightarrow> change_unit list \<Rightarrow> (string, tensor_proto) dict" where
  "state_inits base cand us = foldl (apply_init (init_dict (ginit cand))) (init_dict (ginit base)) (concat (map cu_inits us))"

definition state :: "graph \<Rightarrow> graph \<Rightarrow> change_unit list \<Rightarrow> nat \<Rightarrow> (nat, nat) dict \<Rightarrow> graph res" where
  "state base cand units applied inverted =
     (let us = take applied units; inits = state_inits base cand us in
      rbind (topo_order (state_pool (gnode base) (gnode cand) inverted us)
          (set (map vname (ginput base)) \<union> set (dict_keys inits)) (map vname (goutput base)))
        (\<lambda>order. Inr (Graph order (ginput base) (goutput base) [] (map snd inits))))"

text \<open>Whether the graph with the first \<open>mid\<close> units applied passes.\<close>

definition prefix_passes :: "(graph \<Rightarrow> bool res) \<Rightarrow> graph \<Rightarrow> graph \<Rightarrow> change_unit list \<Rightarrow> nat \<Rightarrow> bool res" where
  "prefix_passes check base cand units mid =
     (case state base cand units mid (snd (match_nodes (gnode base) (gnode cand))) of
        Inr g \<Rightarrow> check g
      | Inl (InvalidGraph e) \<Rightarrow> Inl (BisectError ''prefix is not a valid graph'')
      | Inl e \<Rightarrow> Inl e)"

function bisect_loop :: "(nat \<Rightarrow> bool res) \<Rightarrow> nat \<Rightarrow> nat \<Rightarrow> nat \<Rightarrow> (nat \<times> nat) res" where
  "bisect_loop test lo hi evaluations =
     (if hi - lo > 1 then
        let mid = (lo + hi) div 2 in
        rbind (test mid) (\<lambda>ok.
          if ok then bisect_loop test mid hi (Suc evaluations) else bisect_loop test lo mid (Suc evaluations))
      else Inr (hi, evaluations))"
  by pat_completeness auto
termination by (relation "measure (\<lambda>(test, lo, hi, e). hi - lo)") auto

declare bisect_loop.simps [simp del]

record bisect_result =
  br_culprit :: change_unit
  br_units :: "change_unit list"
  br_evaluations :: nat

definition bisect_failure ::
    "(attribute \<Rightarrow> bytes) \<Rightarrow> (tensor_proto \<Rightarrow> string res) \<Rightarrow> (graph \<Rightarrow> bool res) \<Rightarrow> graph \<Rightarrow> graph \<Rightarrow> string \<Rightarrow> bisect_result option res" where
  "bisect_failure ser digest check base cand fusion =
     (if dict_get FUSION_PRESETS fusion = None then Inl (ValueError ''unknown fusion preset'')
      else rbind (check cand) (\<lambda>ok. if ok then Inr None
      else rbind (plan ser digest base cand fusion) (\<lambda>units.
        if units = [] then Inl (BisectError ''differs in no node or initializer'')
        else rbind (bisect_loop (prefix_passes check base cand units) 0 (length units) 0) (\<lambda>(hi, ev).
          Inr (Some \<lparr>br_culprit = units ! (hi - 1), br_units = units, br_evaluations = ev\<rparr>)))))"

lemma bisect_loop_result:
  assumes "bisect_loop test lo hi e = Inr (h, e')" "lo < hi"
  shows "lo < h \<and> h \<le> hi \<and> (h = hi \<or> test h = Inr False) \<and> (h - 1 = lo \<or> test (h - 1) = Inr True) \<and>
    e \<le> e' \<and> 2 ^ (e' - e) < 2 * (hi - lo)"
  using assms
proof (induction test lo hi e rule: bisect_loop.induct)
  case (1 test lo hi e)
  show ?case
  proof (cases "hi - lo > 1")
    case False
    then have "h = hi" "e' = e" using "1.prems" by (auto simp: bisect_loop.simps [of test lo hi])
    then show ?thesis using False "1.prems"(2) by auto
  next
    case True
    define mid where "mid = (lo + hi) div 2"
    have mid: "lo < mid" "mid < hi" "2 * (hi - mid) \<le> hi - lo + 1" "2 * (mid - lo) \<le> hi - lo + 1"
      using True by (auto simp: mid_def)
    have "bisect_loop test lo hi e = rbind (test mid) (\<lambda>ok.
        if ok then bisect_loop test mid hi (Suc e) else bisect_loop test lo mid (Suc e))"
      using True by (subst bisect_loop.simps) (simp add: Let_def flip: mid_def)
    from this [unfolded "1.prems"(1), symmetric] obtain ok where ok: "test mid = Inr ok"
      "(if ok then bisect_loop test mid hi (Suc e) else bisect_loop test lo mid (Suc e)) = Inr (h, e')"
      unfolding rbind_Inr by blast
    have double: "2 ^ (e' - e) < 2 * (hi - lo)" if "Suc e \<le> e'" "2 ^ (e' - Suc e) < 2 * n" "2 * n \<le> hi - lo + 1" for n
    proof -
      have e: "e' - e = Suc (e' - Suc e)" using that(1) by simp
      show ?thesis
      proof (cases "e' - Suc e")
        case 0
        then show ?thesis using e True by simp
      next
        case (Suc k)
        then have "(2::nat) ^ k < n" using that(2) by simp
        then have "(2::nat) ^ (e' - e) \<le> 4 * (n - 1)" using e Suc by simp
        then show ?thesis using that(3) True by simp
      qed
    qed
    show ?thesis
    proof (cases ok)
      case True
      then show ?thesis using "1.IH"(1) [OF \<open>hi - lo > 1\<close> mid_def ok(1)] ok mid double [of "hi - mid"] by auto
    next
      case False
      then show ?thesis using "1.IH"(2) [OF \<open>hi - lo > 1\<close> mid_def ok(1)] ok mid double [of "mid - lo"] by auto
    qed
  qed
qed

lemma bisect_loop_returns:
  assumes "\<And>k. lo < k \<Longrightarrow> k < hi \<Longrightarrow> is_ok (test k)"
  shows "is_ok (bisect_loop test lo hi e)"
  using assms
proof (induction test lo hi e rule: bisect_loop.induct)
  case (1 test lo hi e)
  show ?case
  proof (cases "hi - lo > 1")
    case False
    then show ?thesis by (simp add: bisect_loop.simps)
  next
    case True
    define mid where "mid = (lo + hi) div 2"
    have mid: "lo < mid" "mid < hi" using True by (auto simp: mid_def)
    then obtain ok where ok: "test mid = Inr ok" using "1.prems" by (auto simp: is_ok_iff)
    have "is_ok (bisect_loop test mid hi (Suc e))" if ok using "1.IH"(1) [OF True mid_def ok that] "1.prems" mid by simp
    moreover have "is_ok (bisect_loop test lo mid (Suc e))" if "\<not> ok" using "1.IH"(2) [OF True mid_def ok that] "1.prems" mid by simp
    ultimately show ?thesis using True ok by (subst bisect_loop.simps) (simp add: Let_def mid_def [symmetric])
  qed
qed


text \<open>
  C33. The search always ends with an answer when it can: if the candidate fails, every proper prefix of the units is a
  valid graph that can be checked, and a prefix passes whenever a longer one does, then \<^verbatim>\<open>bisect_failure\<close> returns, and its
  culprit is the last unit of the shortest failing prefix.
\<close>

theorem bisect_failure_finds_first:
  assumes "dict_get FUSION_PRESETS fusion \<noteq> None" "check cand = Inr False" "plan ser digest base cand fusion = Inr units" "units \<noteq> []"
    and "\<And>k. 0 < k \<Longrightarrow> k < length units \<Longrightarrow> prefix_passes check base cand units k = Inr (k < first)"
    and "1 \<le> first" "first \<le> length units"
  shows "\<exists>ev. bisect_failure ser digest check base cand fusion =
    Inr (Some \<lparr>br_culprit = units ! (first - 1), br_units = units, br_evaluations = ev\<rparr>)"
proof -
  let ?test = "prefix_passes check base cand units"
  have "is_ok (bisect_loop ?test 0 (length units) 0)" using assms(5) by (intro bisect_loop_returns) (auto simp: is_ok_iff)
  then obtain h ev where h: "bisect_loop ?test 0 (length units) 0 = Inr (h, ev)" by (auto simp: is_ok_iff)
  have "0 < length units" using assms(4) by simp
  note r = bisect_loop_result [OF h this]
  have "first \<le> h" using r assms(5) [of h] assms(7) by (cases "h < length units") auto
  moreover have "h \<le> first"
  proof (rule ccontr)
    assume "\<not> h \<le> first"
    then have "0 < h - 1" "h - 1 < length units" "\<not> h - 1 < first" using r assms(6) by auto
    then show False using assms(5) [of "h - 1"] r by auto
  qed
  ultimately have "h = first" by simp
  then show ?thesis using h assms(1-4) by (auto simp: bisect_failure_def)
qed

section \<open>An example change\<close>

definition ex_node :: "string \<Rightarrow> string \<Rightarrow> node" where
  "ex_node op t = Node op '''' '''' [''x''] [t] []"

definition ex_io :: "string \<Rightarrow> value_info" where
  "ex_io t = \<lparr>vname = t, elem_type_of = FLOAT, vshape = None\<rparr>"

definition ex_graph :: "string \<Rightarrow> graph" where
  "ex_graph op = Graph [ex_node op ''y'', ex_node op ''z''] [ex_io ''x''] [ex_io ''y'', ex_io ''z''] [] []"

text \<open>A check that fails when the second output comes from the new operator.\<close>

definition ex_check :: "graph \<Rightarrow> bool res" where
  "ex_check g = Inr (\<not> list_ex (\<lambda>n. op_type n = ''Tanh'' \<and> noutput n = [''z'']) (gnode g))"

definition ex_ser :: "attribute \<Rightarrow> bytes" where
  "ex_ser a = []"

definition ex_digest :: "tensor_proto \<Rightarrow> string res" where
  "ex_digest t = Inr (tname t)"


theorem bisect_failure_finds_first_witness:
  "\<exists>units ev. plan ex_ser ex_digest (ex_graph ''Relu'') (ex_graph ''Tanh'') ''node'' = Inr units \<and> length units = 2 \<and>
     bisect_failure ex_ser ex_digest ex_check (ex_graph ''Relu'') (ex_graph ''Tanh'') ''node'' =
       Inr (Some \<lparr>br_culprit = units ! 1, br_units = units, br_evaluations = ev\<rparr>)"
proof -
  have "case plan ex_ser ex_digest (ex_graph ''Relu'') (ex_graph ''Tanh'') ''node'' of
      Inr us \<Rightarrow> length us = 2 \<and> prefix_passes ex_check (ex_graph ''Relu'') (ex_graph ''Tanh'') us 1 = Inr True | _ \<Rightarrow> False"
    by code_simp
  then obtain us where us: "plan ex_ser ex_digest (ex_graph ''Relu'') (ex_graph ''Tanh'') ''node'' = Inr us" "length us = 2"
      "prefix_passes ex_check (ex_graph ''Relu'') (ex_graph ''Tanh'') us 1 = Inr True"
    by (auto split: sum.splits)
  have k: "prefix_passes ex_check (ex_graph ''Relu'') (ex_graph ''Tanh'') us k = Inr (k < 2)" if "0 < k" "k < length us" for k
  proof -
    have "k = 1" using that us(2) by auto
    then show ?thesis using us(3) by simp
  qed
  have "dict_get FUSION_PRESETS ''node'' \<noteq> None" "ex_check (ex_graph ''Tanh'') = Inr False" by code_simp+
  moreover have "us \<noteq> []" using us(2) by auto
  ultimately show ?thesis using bisect_failure_finds_first [OF _ _ us(1) _ k] us by auto
qed

end
