(* ===== verification/Versioning_Manifest.thy ===== *)
theory Versioning_Manifest
  imports Rpc_Protocol
begin

text \<open>
  \<^verbatim>\<open>onnxsim/versioning_manifest.py\<close>, the rules of the manifest of recorded changes, and the functions of
  \<^verbatim>\<open>onnxsim/versioning.py\<close> that write one: the dictionary of a test case, the verdict over the case reports and
  \<^verbatim>\<open>record_step\<close>. A manifest is the JSON value that is read and written; the identity of a test set (a SHA-256 over its
  cases) is an argument. A rule raises ValueError with the place it names.
\<close>

section \<open>Rules\<close>

abbreviation failed :: "string \<Rightarrow> 'a res" where
  "failed place \<equiv> Inl (ValueError place)"

text \<open>\<^verbatim>\<open>^sha256:[0-9a-f]{64}$\<close>; the dollar also matches before a final newline.\<close>

definition hex_char :: "char \<Rightarrow> bool" where
  "hex_char c \<longleftrightarrow> is_digit c \<or> CHR ''a'' \<le> c \<and> c \<le> CHR ''f''"

definition is_sha :: "string \<Rightarrow> bool" where
  "is_sha s \<longleftrightarrow> take 7 s = ''sha256:'' \<and>
     (let h = drop 7 s in length (takeWhile hex_char h) = 64 \<and> (drop 64 h = [] \<or> drop 64 h = [CHR 0x0A]))"

fun obj_rule :: "json \<Rightarrow> string \<Rightarrow> string list \<Rightarrow> string list \<Rightarrow> unit res" where
  "obj_rule (JObj d) place required optional =
     (if \<not> set required \<subseteq> set (dict_keys d) then failed place
      else if \<not> set (dict_keys d) \<subseteq> set required \<union> set optional then failed place else Inr ())"
| "obj_rule _ place required optional = failed place"

fun list_items :: "(json \<Rightarrow> string \<Rightarrow> unit res) \<Rightarrow> string \<Rightarrow> nat \<Rightarrow> json list \<Rightarrow> unit res" where
  "list_items rule place i [] = Inr ()"
| "list_items rule place i (v # vs) =
     rbind (rule v (place @ ''['' @ str_nat i @ '']'')) (\<lambda>_. list_items rule place (Suc i) vs)"

fun list_rule :: "json \<Rightarrow> string \<Rightarrow> (json \<Rightarrow> string \<Rightarrow> unit res) \<Rightarrow> unit res" where
  "list_rule (JList vs) place rule = list_items rule place 0 vs"
| "list_rule _ place rule = failed place"

fun str_rule :: "json \<Rightarrow> string \<Rightarrow> unit res" where
  "str_rule (JStr s) place = Inr ()"
| "str_rule _ place = failed place"

fun bool_rule :: "json \<Rightarrow> string \<Rightarrow> unit res" where
  "bool_rule (JBool b) place = Inr ()"
| "bool_rule _ place = failed place"

fun int_rule :: "int \<Rightarrow> json \<Rightarrow> string \<Rightarrow> unit res" where
  "int_rule m (JInt i) place = (if i < m then failed place else Inr ())"
| "int_rule m _ place = failed place"

definition number_rule :: "json \<Rightarrow> string \<Rightarrow> unit res" where
  "number_rule v place =
     (case v of
        JInt _ \<Rightarrow> rbind (math_isfinite v) (\<lambda>b. if b then Inr () else failed place)
      | JFloat _ \<Rightarrow> rbind (math_isfinite v) (\<lambda>b. if b then Inr () else failed place)
      | _ \<Rightarrow> failed place)"

fun sha_rule :: "json \<Rightarrow> string \<Rightarrow> unit res" where
  "sha_rule (JStr s) place = (if is_sha s then Inr () else failed place)"
| "sha_rule _ place = failed place"

definition str_list_rule :: "json \<Rightarrow> string \<Rightarrow> unit res" where
  "str_list_rule v place = list_rule v place str_rule"

fun digest_items :: "string \<Rightarrow> (string, json) dict \<Rightarrow> unit res" where
  "digest_items place [] = Inr ()"
| "digest_items place ((n, v) # d) = rbind (sha_rule v (place @ ''.'' @ n)) (\<lambda>_. digest_items place d)"

fun digests_rule :: "json \<Rightarrow> string \<Rightarrow> unit res" where
  "digests_rule (JObj d) place = digest_items place d"
| "digests_rule _ place = failed place"

definition enum_rule :: "json \<Rightarrow> string \<Rightarrow> string list \<Rightarrow> unit res" where
  "enum_rule v place choices = (if v \<in> JStr ` set choices then Inr () else failed place)"

text \<open>One field of an object: \<^verbatim>\<open>rule(value[key], f"{where}.{key}")\<close>.\<close>

definition field :: "json \<Rightarrow> string \<Rightarrow> string \<Rightarrow> (json \<Rightarrow> string \<Rightarrow> unit res) \<Rightarrow> unit res" where
  "field v place key rule = rbind (jitem v key) (\<lambda>x. rule x (place @ ''.'' @ key))"

fun rules :: "unit res list \<Rightarrow> unit res" where
  "rules [] = Inr ()"
| "rules (r # rs) = rbind r (\<lambda>_. rules rs)"

definition spec_rule :: "json \<Rightarrow> string \<Rightarrow> unit res" where
  "spec_rule v place = rules
     [obj_rule v place [''name'', ''dtype'', ''shape'', ''low'', ''high''] [],
      field v place ''name'' str_rule, field v place ''dtype'' str_rule,
      field v place ''shape'' (\<lambda>x w. list_rule x w (int_rule 0)),
      field v place ''low'' number_rule, field v place ''high'' number_rule]"

definition VERDICTS :: "string list" where
  "VERDICTS = [''pass'', ''partial'', ''fail'']"

definition CASE_KINDS :: "string list" where
  "CASE_KINDS = [''generated'', ''supplied'', ''onnx_test_data'']"

definition generated_rule :: "json \<Rightarrow> string \<Rightarrow> unit res" where
  "generated_rule v place = rules
     [obj_rule v place [''name'', ''kind'', ''seed'', ''specs'', ''digests''] [],
      field v place ''seed'' (int_rule (- (2 ^ 63))),
      field v place ''specs'' (\<lambda>x w. list_rule x w spec_rule),
      field v place ''digests'' digests_rule]"

definition supplied_rule :: "json \<Rightarrow> string \<Rightarrow> unit res" where
  "supplied_rule v place = rules
     [obj_rule v place [''name'', ''kind'', ''path'', ''digests''] [],
      field v place ''path'' str_rule, field v place ''digests'' digests_rule]"

definition test_data_rule :: "json \<Rightarrow> string \<Rightarrow> unit res" where
  "test_data_rule v place = rules
     [obj_rule v place [''name'', ''kind'', ''directory'', ''test_set''] [],
      field v place ''directory'' str_rule, field v place ''test_set'' (int_rule 0)]"

definition case_rule :: "json \<Rightarrow> string \<Rightarrow> unit res" where
  "case_rule v place =
     rbind (rules
       [obj_rule v place [''name'', ''kind''] [''seed'', ''specs'', ''digests'', ''path'', ''directory'', ''test_set''],
        field v place ''name'' str_rule, field v place ''kind'' (\<lambda>x w. enum_rule x w CASE_KINDS)]) (\<lambda>_.
     rbind (jitem v ''kind'') (\<lambda>kind.
       if kind = JStr ''generated'' then generated_rule v place
       else if kind = JStr ''supplied'' then supplied_rule v place
       else test_data_rule v place))"

definition diff_rule :: "json \<Rightarrow> string \<Rightarrow> unit res" where
  "diff_rule v place = (if v \<noteq> JNull then number_rule v place else Inr ())"

definition report_rule :: "json \<Rightarrow> string \<Rightarrow> unit res" where
  "report_rule v place = rules
     [obj_rule v place [''case'', ''max_abs_diff'', ''max_rel_diff'', ''ok'', ''status'', ''skipped'', ''failed_nodes''] [],
      field v place ''case'' str_rule, field v place ''max_abs_diff'' diff_rule, field v place ''max_rel_diff'' diff_rule,
      field v place ''ok'' bool_rule, field v place ''status'' (\<lambda>x w. enum_rule x w VERDICTS),
      field v place ''skipped'' str_list_rule, field v place ''failed_nodes'' str_list_rule]"

definition culprit_rule :: "json \<Rightarrow> string \<Rightarrow> unit res" where
  "culprit_rule v place = rules
     [obj_rule v place [''fusion'', ''nodes'', ''blocks'', ''initializers'', ''evaluations''] [],
      field v place ''fusion'' str_rule, field v place ''nodes'' str_list_rule, field v place ''blocks'' str_list_rule,
      field v place ''initializers'' str_list_rule, field v place ''evaluations'' (int_rule 0)]"

text \<open>A rule for a field that need not be there.\<close>

definition optional_field :: "json \<Rightarrow> string \<Rightarrow> (json \<Rightarrow> unit res) \<Rightarrow> unit res" where
  "optional_field v key rule = (case v of JObj d \<Rightarrow> (case dict_get d key of None \<Rightarrow> Inr () | Some x \<Rightarrow> rule x) | _ \<Rightarrow> Inr ())"

definition step_rule :: "json \<Rightarrow> string \<Rightarrow> unit res" where
  "step_rule v place = rules
     [obj_rule v place [''label'', ''command'', ''base_graph'', ''output_graph'', ''executor'', ''test_set'', ''cases'', ''verdict'', ''reports''] [''culprit''],
      field v place ''label'' str_rule, field v place ''command'' str_rule, field v place ''executor'' str_rule,
      field v place ''base_graph'' sha_rule, field v place ''output_graph'' sha_rule, field v place ''test_set'' sha_rule,
      field v place ''cases'' (\<lambda>x w. list_rule x w case_rule),
      field v place ''verdict'' (\<lambda>x w. enum_rule x w VERDICTS),
      field v place ''reports'' (\<lambda>x w. list_rule x w report_rule),
      optional_field v ''culprit'' (\<lambda>x. culprit_rule x (place @ ''.culprit''))]"

definition object_or_null_rule :: "json \<Rightarrow> string \<Rightarrow> unit res" where
  "object_or_null_rule v place = (case v of JNull \<Rightarrow> Inr () | JObj _ \<Rightarrow> Inr () | _ \<Rightarrow> failed place)"

definition build_rule :: "json \<Rightarrow> string \<Rightarrow> unit res" where
  "build_rule v place = rules
     [obj_rule v place [''output'', ''file_digest'', ''source_graph'', ''simplify'', ''simplify_checked'', ''onnxsim_version'', ''executor''] [],
      field v place ''output'' str_rule, field v place ''file_digest'' sha_rule, field v place ''source_graph'' sha_rule,
      field v place ''simplify'' object_or_null_rule,
      field v place ''simplify_checked'' (\<lambda>x w. if x \<noteq> JNull then bool_rule x w else Inr ()),
      field v place ''onnxsim_version'' str_rule, field v place ''executor'' str_rule]"

definition version_rule :: "json \<Rightarrow> string \<Rightarrow> unit res" where
  "version_rule v place =
     (case v of
        JBool _ \<Rightarrow> failed ''unsupported manifest version''
      | _ \<Rightarrow> if json_num v = Inr (Fin 1) then Inr () else failed ''unsupported manifest version'')"

definition base_rule :: "json \<Rightarrow> unit res" where
  "base_rule v = rules
     [obj_rule v ''base'' [''file'', ''file_digest'', ''graph''] [],
      field v ''base'' ''file'' str_rule, field v ''base'' ''file_digest'' sha_rule, field v ''base'' ''graph'' sha_rule]"

definition validate_manifest :: "json \<Rightarrow> unit res" where
  "validate_manifest m = rules
     [obj_rule m ''manifest'' [''version'', ''steps''] [''base'', ''builds''],
      field m ''manifest'' ''version'' version_rule,
      optional_field m ''base'' base_rule,
      rbind (jitem m ''steps'') (\<lambda>x. list_rule x ''steps'' step_rule),
      optional_field m ''builds'' (\<lambda>x. list_rule x ''builds'' build_rule)]"

section \<open>Recording a step\<close>

definition finite_or_none :: "fl \<Rightarrow> json" where
  "finite_or_none x = (if isfinite x then JFloat x else JNull)"

record tensor_draw =
  ts_name :: string
  ts_dtype :: string
  ts_shape :: "int list"
  ts_low :: fl
  ts_high :: fl

datatype test_case =
    GeneratedCase (case_name: string) (case_seed: int) (case_specs: "tensor_draw list") (case_digests: "(string, string) dict option")
  | SuppliedCase (case_name: string) (case_path: string) (supplied_digests: "(string, string) dict")
  | OnnxTestDataCase (case_name: string) (case_directory: string) (case_test_set: int)

record case_report =
  cr_case :: string
  cr_max_abs :: fl
  cr_max_rel :: fl
  cr_ok :: bool
  cr_status :: string
  cr_skipped :: "string list"
  cr_failed :: "string list"

text \<open>\<^verbatim>\<open>os.path.basename\<close> and \<^verbatim>\<open>os.path.normpath\<close> on POSIX paths.\<close>

fun split_slash :: "string \<Rightarrow> string \<Rightarrow> string list" where
  "split_slash acc [] = [acc]"
| "split_slash acc (c # cs) = (if c = CHR ''/'' then acc # split_slash [] cs else split_slash (acc @ [c]) cs)"

definition path_basename :: "string \<Rightarrow> string" where
  "path_basename p = last (split_slash [] p)"

definition norm_step :: "bool \<Rightarrow> string list \<Rightarrow> string \<Rightarrow> string list" where
  "norm_step rooted comps c =
     (if c = '''' \<or> c = ''.'' then comps
      else if c \<noteq> ''..'' \<or> (\<not> rooted \<and> comps = []) \<or> (comps \<noteq> [] \<and> last comps = ''..'') then comps @ [c]
      else butlast comps)"

definition normal_basename :: "string \<Rightarrow> string" where
  "normal_basename p =
     (let rooted = (take 1 p = ''/''); comps = foldl (norm_step rooted) [] (split_slash [] p) in
      if comps \<noteq> [] then last comps else if rooted then '''' else ''.'')"

definition digests_json :: "(string, string) dict \<Rightarrow> json" where
  "digests_json d = JObj (map (\<lambda>(k, v). (k, JStr v)) d)"

definition spec_json :: "tensor_draw \<Rightarrow> json" where
  "spec_json t = JObj [(''name'', JStr (ts_name t)), (''dtype'', JStr (ts_dtype t)), (''shape'', JList (map JInt (ts_shape t))),
     (''low'', JFloat (ts_low t)), (''high'', JFloat (ts_high t))]"

fun case_to_dict :: "test_case \<Rightarrow> json" where
  "case_to_dict (GeneratedCase name seed specs digests) =
     JObj [(''name'', JStr name), (''kind'', JStr ''generated''), (''seed'', JInt seed), (''specs'', JList (map spec_json specs)),
       (''digests'', digests_json (case digests of None \<Rightarrow> [] | Some d \<Rightarrow> d))]"
| "case_to_dict (OnnxTestDataCase name directory test_set) =
     JObj [(''name'', JStr name), (''kind'', JStr ''onnx_test_data''), (''directory'', JStr (normal_basename directory)), (''test_set'', JInt test_set)]"
| "case_to_dict (SuppliedCase name path digests) =
     JObj [(''name'', JStr name), (''kind'', JStr ''supplied''), (''path'', JStr (path_basename path)), (''digests'', digests_json digests)]"

definition verdict_of :: "case_report list \<Rightarrow> string" where
  "verdict_of rs =
     (if \<not> list_all cr_ok rs then ''fail'' else if list_ex (\<lambda>r. cr_status r = ''partial'') rs then ''partial'' else ''pass'')"

definition str_list_json :: "string list \<Rightarrow> json" where
  "str_list_json xs = JList (map JStr xs)"

definition report_json :: "case_report \<Rightarrow> json" where
  "report_json r = JObj [(''case'', JStr (cr_case r)), (''max_abs_diff'', finite_or_none (cr_max_abs r)),
     (''max_rel_diff'', finite_or_none (cr_max_rel r)), (''ok'', JBool (cr_ok r)), (''status'', JStr (cr_status r)),
     (''skipped'', str_list_json (cr_skipped r)), (''failed_nodes'', str_list_json (cr_failed r))]"

record step_args =
  sa_label :: string
  sa_command :: string
  sa_base_graph :: string
  sa_output_graph :: string
  sa_cases :: "test_case list"
  sa_reports :: "case_report list"
  sa_executor :: string
  sa_culprit :: "json option"

definition step_entry :: "(json list \<Rightarrow> string) \<Rightarrow> step_args \<Rightarrow> json" where
  "step_entry set_id a = JObj ([(''label'', JStr (sa_label a)), (''command'', JStr (sa_command a)), (''base_graph'', JStr (sa_base_graph a)),
     (''output_graph'', JStr (sa_output_graph a)), (''executor'', JStr (sa_executor a)),
     (''test_set'', JStr (set_id (map case_to_dict (sa_cases a)))), (''cases'', JList (map case_to_dict (sa_cases a))),
     (''verdict'', JStr (verdict_of (sa_reports a))), (''reports'', JList (map report_json (sa_reports a)))] @
     (case sa_culprit a of None \<Rightarrow> [] | Some c \<Rightarrow> [(''culprit'', c)]))"

text \<open>The manifest file: absent, or the JSON value it holds.\<close>

definition load_manifest :: "json option \<Rightarrow> json res" where
  "load_manifest stored =
     (case stored of
        None \<Rightarrow> Inr (JObj [(''version'', JInt 1), (''steps'', JList [])])
      | Some m \<Rightarrow> rbind (validate_manifest m) (\<lambda>_. Inr m))"

definition append_step :: "json \<Rightarrow> json \<Rightarrow> json res" where
  "append_step m entry =
     (case m of
        JObj d \<Rightarrow> (case dict_get d ''steps'' of
            Some (JList xs) \<Rightarrow> Inr (JObj (dict_set ''steps'' (JList (xs @ [entry])) d))
          | Some _ \<Rightarrow> Inl (OtherError ''AttributeError'')
          | None \<Rightarrow> Inl (KeyError ''steps''))
      | _ \<Rightarrow> Inl (TypeError ''indices''))"

text \<open>\<^verbatim>\<open>record_step\<close>: the entry, and the value written back to the file.\<close>

definition record_step :: "(json list \<Rightarrow> string) \<Rightarrow> json option \<Rightarrow> step_args \<Rightarrow> (json \<times> json) res" where
  "record_step set_id stored a =
     rbind (load_manifest stored) (\<lambda>m. let entry = step_entry set_id a in
     rbind (append_step m entry) (\<lambda>m'. rbind (validate_manifest m') (\<lambda>_. Inr (entry, m'))))"

section \<open>What is recorded can be read back\<close>

text \<open>The arguments the callers give: their types, digests that are digests, and finite ranges.\<close>

definition draw_args_ok :: "tensor_draw \<Rightarrow> bool" where
  "draw_args_ok t \<longleftrightarrow> list_all (\<lambda>d. 0 \<le> d) (ts_shape t) \<and> isfinite (ts_low t) \<and> isfinite (ts_high t)"

definition digests_ok :: "(string, string) dict \<Rightarrow> bool" where
  "digests_ok d \<longleftrightarrow> list_all (\<lambda>(k, v). is_sha v) d"

fun case_ok :: "test_case \<Rightarrow> bool" where
  "case_ok (GeneratedCase name seed specs digests) \<longleftrightarrow> - (2 ^ 63) \<le> seed \<and> list_all draw_args_ok specs \<and>
     digests_ok (case digests of None \<Rightarrow> [] | Some d \<Rightarrow> d)"
| "case_ok (SuppliedCase name path digests) \<longleftrightarrow> digests_ok digests"
| "case_ok (OnnxTestDataCase name directory test_set) \<longleftrightarrow> 0 \<le> test_set"

definition args_ok :: "step_args \<Rightarrow> bool" where
  "args_ok a \<longleftrightarrow> is_sha (sa_base_graph a) \<and> is_sha (sa_output_graph a) \<and> list_all case_ok (sa_cases a) \<and>
     list_all (\<lambda>r. cr_status r \<in> set VERDICTS) (sa_reports a) \<and>
     (case sa_culprit a of None \<Rightarrow> True | Some c \<Rightarrow> \<forall>w. culprit_rule c w = Inr ())"

lemma rules_ok: "rules rs = Inr () \<longleftrightarrow> (\<forall>r \<in> set rs. r = Inr ())"
  by (induction rs) (auto simp: res_simps)

declare rules.simps [simp del]

lemma list_items_ok: "(\<And>v w. v \<in> set vs \<Longrightarrow> rule v w = Inr ()) \<Longrightarrow> list_items rule place i vs = Inr ()"
  by (induction vs arbitrary: i) auto

lemma list_items_append:
  "list_items rule place i (vs @ ws) = rbind (list_items rule place i vs) (\<lambda>_. list_items rule place (i + length vs) ws)"
proof (induction vs arbitrary: i)
  case Nil
  then show ?case by simp
next
  case (Cons v vs)
  show ?case by (cases "rule v (place @ ''['' @ str_nat i @ '']'')") (simp_all add: Cons)
qed

lemma str_list_ok [simp]: "str_list_rule (str_list_json xs) w = Inr ()"
  by (auto simp: str_list_rule_def str_list_json_def intro!: list_items_ok)

lemma finite_or_none_ok [simp]: "diff_rule (finite_or_none x) w = Inr ()"
  by (simp add: diff_rule_def finite_or_none_def number_rule_def)

lemma digests_json_ok: "digests_ok d \<Longrightarrow> digests_rule (digests_json d) w = Inr ()"
  by (induction d) (auto simp: digests_json_def digests_ok_def)

lemma shape_items_ok: "list_all (\<lambda>d. 0 \<le> d) xs \<Longrightarrow> list_items (int_rule 0) w i (map JInt xs) = Inr ()"
  by (induction xs arbitrary: i) auto

lemma spec_json_ok: "draw_args_ok t \<Longrightarrow> spec_rule (spec_json t) w = Inr ()"
  by (simp add: spec_rule_def spec_json_def field_def draw_args_ok_def number_rule_def rules_ok shape_items_ok)

lemma spec_items_ok: "list_all draw_args_ok specs \<Longrightarrow> list_items spec_rule w i (map spec_json specs) = Inr ()"
  by (intro list_items_ok) (auto simp: list_all_iff spec_json_ok)

lemma case_json_ok: "case_ok c \<Longrightarrow> case_rule (case_to_dict c) w = Inr ()"
proof (cases c)
  case (GeneratedCase name seed specs digests)
  assume "case_ok c"
  then show ?thesis using GeneratedCase
    by (simp add: case_rule_def generated_rule_def field_def enum_rule_def CASE_KINDS_def spec_items_ok digests_json_ok rules.simps)
next
  case (SuppliedCase name path digests)
  assume "case_ok c"
  then show ?thesis using SuppliedCase
    by (simp add: case_rule_def supplied_rule_def field_def enum_rule_def CASE_KINDS_def digests_json_ok rules.simps)
next
  case (OnnxTestDataCase name directory test_set)
  assume "case_ok c"
  then show ?thesis using OnnxTestDataCase
    by (simp add: case_rule_def test_data_rule_def field_def enum_rule_def CASE_KINDS_def rules.simps)
qed

lemma report_json_ok: "cr_status r \<in> set VERDICTS \<Longrightarrow> report_rule (report_json r) w = Inr ()"
  by (simp add: report_rule_def report_json_def field_def enum_rule_def rules_ok)

lemma verdict_ok: "verdict_of rs \<in> set VERDICTS"
  by (simp add: verdict_of_def VERDICTS_def)

lemma step_entry_ok:
  assumes "args_ok a" "\<And>cs. is_sha (set_id cs)"
  shows "step_rule (step_entry set_id a) w = Inr ()"
proof -
  have cases: "list_items case_rule v i (map case_to_dict (sa_cases a)) = Inr ()" for v i
    using assms(1) by (intro list_items_ok) (auto simp: args_ok_def list_all_iff case_json_ok)
  have reports: "list_items report_rule v i (map report_json (sa_reports a)) = Inr ()" for v i
    using assms(1) by (intro list_items_ok) (auto simp: args_ok_def list_all_iff report_json_ok)
  show ?thesis
  proof (cases "sa_culprit a")
    case None
    then show ?thesis using assms cases reports verdict_ok
      by (simp add: step_rule_def step_entry_def field_def enum_rule_def args_ok_def optional_field_def rules_ok)
  next
    case (Some c)
    then show ?thesis using assms cases reports verdict_ok
      by (simp add: step_rule_def step_entry_def field_def enum_rule_def args_ok_def optional_field_def rules_ok)
  qed
qed

text \<open>The steps of a manifest.\<close>

definition steps_of :: "json \<Rightarrow> json list" where
  "steps_of m = (case m of JObj d \<Rightarrow> (case dict_get d ''steps'' of Some (JList xs) \<Rightarrow> xs | _ \<Rightarrow> []) | _ \<Rightarrow> [])"

lemma validate_steps:
  assumes "validate_manifest m = Inr ()"
  obtains d xs where "m = JObj d" "dict_get d ''steps'' = Some (JList xs)" "list_items step_rule ''steps'' 0 xs = Inr ()"
proof -
  have r: "obj_rule m ''manifest'' [''version'', ''steps''] [''base'', ''builds''] = Inr ()"
    "rbind (jitem m ''steps'') (\<lambda>x. list_rule x ''steps'' step_rule) = Inr ()"
    using assms by (auto simp: validate_manifest_def rules_ok)
  then obtain d where d: "m = JObj d" by (cases m) auto
  then obtain x where x: "dict_get d ''steps'' = Some x" "list_rule x ''steps'' step_rule = Inr ()"
    using r(2) by (auto simp: res_simps split: option.splits)
  then obtain xs where "x = JList xs" by (cases x) auto
  then show thesis using that d x by simp
qed

lemma validate_append:
  assumes "validate_manifest m = Inr ()" "\<And>w. step_rule entry w = Inr ()"
  shows "\<exists>m'. append_step m entry = Inr m' \<and> validate_manifest m' = Inr () \<and> steps_of m' = steps_of m @ [entry]"
proof -
  obtain d xs where d: "m = JObj d" "dict_get d ''steps'' = Some (JList xs)" "list_items step_rule ''steps'' 0 xs = Inr ()"
    using validate_steps [OF assms(1)] by blast
  define d' where "d' = dict_set ''steps'' (JList (xs @ [entry])) d"
  have keys: "set (dict_keys d') = set (dict_keys d)"
  proof -
    have "''steps'' \<in> set (dict_keys d)" using d(2) map_of_eq_None_iff [of d "''steps''"] by auto
    then show ?thesis unfolding d'_def keys_dict_set by blast
  qed
  have get: "dict_get d' k = (if k = ''steps'' then Some (JList (xs @ [entry])) else dict_get d k)" for k
    by (simp add: d'_def dict_simps)
  have "list_items step_rule ''steps'' 0 (xs @ [entry]) = Inr ()"
    using d(3) assms(2) by (simp add: list_items_append)
  moreover have "obj_rule (JObj d') w r opt = obj_rule (JObj d) w r opt" for w r opt
    by (simp only: obj_rule.simps keys)
  ultimately have "validate_manifest (JObj d') = Inr ()"
    using assms(1) d(1) get
    by (simp add: validate_manifest_def rules_ok field_def optional_field_def del: obj_rule.simps)
  then show ?thesis using d by (auto simp: append_step_def steps_of_def d'_def dict_simps)
qed

text \<open>
  C36. What \<^verbatim>\<open>record_step\<close> writes can always be read back: for a manifest that is valid (or absent) and arguments of the
  declared kinds, with proper digests, finite input ranges and any differences, infinite and NaN ones included,
  \<^verbatim>\<open>record_step\<close> returns the new entry, the manifest it writes is valid and loads again, and its steps are the
  old steps followed by that entry.
\<close>

theorem record_step_writes_a_valid_manifest:
  assumes "args_ok a" "\<And>cs. is_sha (set_id cs)" "load_manifest stored = Inr m"
  shows "\<exists>m'. record_step set_id stored a = Inr (step_entry set_id a, m') \<and> load_manifest (Some m') = Inr m' \<and>
    steps_of m' = steps_of m @ [step_entry set_id a]"
proof -
  have "validate_manifest m = Inr ()"
  proof (cases "stored")
    case None
    then have "m = JObj [(''version'', JInt 1), (''steps'', JList [])]" using assms(3) by (simp add: load_manifest_def)
    then show ?thesis by (simp add: validate_manifest_def field_def optional_field_def version_rule_def rules_ok)
  next
    case (Some f)
    then show ?thesis using assms(3) by (auto simp: load_manifest_def res_simps)
  qed
  then obtain m' where m': "append_step m (step_entry set_id a) = Inr m'" "validate_manifest m' = Inr ()"
      "steps_of m' = steps_of m @ [step_entry set_id a]"
    using validate_append step_entry_ok [where set_id = set_id, OF assms(1,2)] by blast
  then show ?thesis using assms(3) by (simp add: record_step_def Let_def) (simp add: load_manifest_def)
qed

definition ex_sha :: string where
  "ex_sha = ''sha256:'' @ replicate 64 (CHR ''0'')"

definition ex_args :: step_args where
  "ex_args = \<lparr>sa_label = ''l'', sa_command = ''c'', sa_base_graph = ex_sha, sa_output_graph = ex_sha,
     sa_cases = [GeneratedCase ''g'' 7 [\<lparr>ts_name = ''x'', ts_dtype = ''float32'', ts_shape = [2], ts_low = Fin 0, ts_high = Fin 1\<rparr>] None],
     sa_reports = [\<lparr>cr_case = ''g'', cr_max_abs = PInf, cr_max_rel = NaN, cr_ok = False, cr_status = ''fail'', cr_skipped = [], cr_failed = []\<rparr>],
     sa_executor = ''e'', sa_culprit = None\<rparr>"

theorem record_step_writes_a_valid_manifest_witness:
  "\<exists>m'. record_step (\<lambda>cs. ex_sha) None ex_args = Inr (step_entry (\<lambda>cs. ex_sha) ex_args, m') \<and> load_manifest (Some m') = Inr m'"
proof -
  have sha: "is_sha ex_sha" by code_simp
  then have "args_ok ex_args" by (simp add: args_ok_def ex_args_def draw_args_ok_def digests_ok_def VERDICTS_def)
  from record_step_writes_a_valid_manifest [where set_id = "\<lambda>cs. ex_sha", OF this sha, of None] show ?thesis
    by (auto simp: load_manifest_def)
qed

end
