(* ===== verification/Versioning_Run.thy ===== *)
theory Versioning_Run
  imports Versioning_Manifest Versioning_Bisect
begin

text \<open>
  Running and comparing graphs in \<^verbatim>\<open>onnxsim/versioning.py\<close>: test inputs checked against their digests, the partial run of
  a graph on a backend that may not support every node, and the comparison of a candidate with the base over
  the test cases. Arrays are an abstract type; running a whole model, one node, reading or generating inputs, drawing
  random values and comparing two arrays of one shape numerically are arguments.
\<close>

section \<open>A partial run\<close>

datatype run_status = Ran | Failed pyerr | Skipped

record node_run =
  nr_label :: string
  nr_op :: string
  nr_status :: run_status

record 'v partial_state =
  ps_env :: "(string, 'v) dict"
  ps_fake :: "string set"
  ps_runs :: "node_run list"

definition log_run :: "node \<Rightarrow> run_status \<Rightarrow> 'v partial_state \<Rightarrow> 'v partial_state" where
  "log_run n st s = s\<lparr>ps_runs := ps_runs s @ [\<lparr>nr_label = node_label n, nr_op = op_type n, nr_status = st\<rparr>]\<rparr>"

text \<open>The outputs of a node that failed, filled with random values of the known sizes.\<close>

fun fill_outputs ::
    "('v \<Rightarrow> string \<Rightarrow> int \<Rightarrow> 'v res) \<Rightarrow> (string, 'v) dict \<Rightarrow> int \<Rightarrow> string list \<Rightarrow> 'v partial_state \<Rightarrow> 'v partial_state res" where
  "fill_outputs random_like sizes seed [] s = Inr s"
| "fill_outputs random_like sizes seed (t # ts) s =
     (case (if t = '''' then None else dict_get sizes t) of
        None \<Rightarrow> fill_outputs random_like sizes seed ts s
      | Some v \<Rightarrow> rbind (random_like v t seed) (\<lambda>x.
          fill_outputs random_like sizes seed ts (s\<lparr>ps_env := dict_set t x (ps_env s), ps_fake := insert t (ps_fake s)\<rparr>)))"

definition set_output :: "bool \<Rightarrow> 'v partial_state \<Rightarrow> string \<times> 'v \<Rightarrow> 'v partial_state" where
  "set_output tainted s = (\<lambda>(t, v).
     if t = '''' then s
     else s\<lparr>ps_env := dict_set t v (ps_env s), ps_fake := (if tainted then insert t (ps_fake s) else ps_fake s)\<rparr>)"

definition run_node ::
    "(node \<Rightarrow> 'v option list \<Rightarrow> 'v list res) \<Rightarrow> ('v \<Rightarrow> string \<Rightarrow> int \<Rightarrow> 'v res) \<Rightarrow> (string, 'v) dict \<Rightarrow> int \<Rightarrow>
     'v partial_state \<Rightarrow> node \<Rightarrow> 'v partial_state res" where
  "run_node backend random_like sizes seed s n =
     (let names = filter (\<lambda>t. t \<noteq> '''') (ninput n) in
      if list_ex (\<lambda>t. dict_get (ps_env s) t = None) names then Inr (log_run n Skipped s)
      else
        let inputs = map (\<lambda>t. if t = '''' then None else dict_get (ps_env s) t) (ninput n);
            tainted = list_ex (\<lambda>t. t \<in> ps_fake s) names in
        case backend n inputs of
          Inl e \<Rightarrow> fill_outputs random_like sizes seed (noutput n) (log_run n (Failed e) s)
        | Inr outs \<Rightarrow> Inr (foldl (set_output tainted) (log_run n Ran s) (zip (noutput n) outs)))"

definition start_env :: "(tensor_proto \<Rightarrow> 'v) \<Rightarrow> graph \<Rightarrow> (string, 'v) dict \<Rightarrow> (string, 'v) dict" where
  "start_env to_array g feeds =
     foldl (\<lambda>d (k, v). dict_set k v d) (foldl (\<lambda>d t. dict_set (tname t) (to_array t) d) [] (ginit g)) feeds"

definition judged :: "'v partial_state \<Rightarrow> string \<Rightarrow> 'v option" where
  "judged s t = (if t \<in> ps_fake s then None else dict_get (ps_env s) t)"

record 'v partial_run =
  pr_outputs :: "(string, 'v option) dict"
  pr_nodes :: "node_run list"

definition run_partial ::
    "(tensor_proto \<Rightarrow> 'v) \<Rightarrow> ('v \<Rightarrow> string \<Rightarrow> int \<Rightarrow> 'v res) \<Rightarrow> graph \<Rightarrow> (string, 'v) dict \<Rightarrow>
     (node \<Rightarrow> 'v option list \<Rightarrow> 'v list res) \<Rightarrow> (string, 'v) dict \<Rightarrow> int \<Rightarrow> 'v partial_run res" where
  "run_partial to_array random_like g feeds backend sizes seed =
     rbind (rfold (run_node backend random_like sizes seed)
         \<lparr>ps_env = start_env to_array g feeds, ps_fake = {}, ps_runs = []\<rparr> (gnode g)) (\<lambda>s.
       Inr \<lparr>pr_outputs = foldl (\<lambda>d t. dict_set t (judged s t) d) [] (map vname (goutput g)), pr_nodes = ps_runs s\<rparr>)"

definition skipped_outputs :: "'v partial_run \<Rightarrow> string list" where
  "skipped_outputs r = map fst (filter (\<lambda>(t, v). v = None) (pr_outputs r))"

definition failed_nodes :: "'v partial_run \<Rightarrow> string list" where
  "failed_nodes r = map nr_label (filter (\<lambda>n. case nr_status n of Failed _ \<Rightarrow> True | _ \<Rightarrow> False) (pr_nodes r))"

section \<open>Test inputs\<close>

record 'v input_env =
  ie_generate :: "int \<Rightarrow> tensor_draw list \<Rightarrow> (string, 'v) dict res"
  ie_read_npz :: "string \<Rightarrow> (string, 'v) dict res"
  ie_test_set :: "string \<Rightarrow> int \<Rightarrow> (string, 'v) dict res"
  ie_digest :: "'v \<Rightarrow> string res"

fun check_digests :: "('v \<Rightarrow> string res) \<Rightarrow> (string, 'v) dict \<Rightarrow> (string, string) dict \<Rightarrow> unit res" where
  "check_digests digest feeds [] = Inr ()"
| "check_digests digest feeds ((name, d) # ds) =
     (case dict_get feeds name of
        None \<Rightarrow> Inl (ReproducibilityError ''input is missing'')
      | Some v \<Rightarrow> rbind (digest v) (\<lambda>actual.
          if actual \<noteq> d then Inl (ReproducibilityError ''digest'') else check_digests digest feeds ds))"

fun resolve_feeds :: "'v input_env \<Rightarrow> test_case \<Rightarrow> (string, 'v) dict res" where
  "resolve_feeds ie (OnnxTestDataCase name directory test_set) = ie_test_set ie directory test_set"
| "resolve_feeds ie (GeneratedCase name seed specs digests) =
     rbind (ie_generate ie seed specs) (\<lambda>feeds.
       rbind (check_digests (ie_digest ie) feeds (case digests of None \<Rightarrow> [] | Some d \<Rightarrow> d)) (\<lambda>_. Inr feeds))"
| "resolve_feeds ie (SuppliedCase name path digests) =
     rbind (ie_read_npz ie path) (\<lambda>feeds. rbind (check_digests (ie_digest ie) feeds digests) (\<lambda>_. Inr feeds))"

section \<open>Comparison\<close>

record 'v compare_env =
  ce_run :: "graph \<Rightarrow> (string, 'v) dict \<Rightarrow> 'v list res"
  ce_sizes :: "graph \<Rightarrow> (string, 'v) dict \<Rightarrow> (string, 'v) dict res"
  ce_to_array :: "tensor_proto \<Rightarrow> 'v"
  ce_random_like :: "'v \<Rightarrow> string \<Rightarrow> int \<Rightarrow> 'v res"
  ce_shape :: "'v \<Rightarrow> int list"
  ce_diff :: "'v \<Rightarrow> 'v \<Rightarrow> fl \<times> fl \<times> bool"

text \<open>Python's \<^verbatim>\<open>max(a, b)\<close>: the second only when it is greater.\<close>

definition py_max :: "fl \<Rightarrow> fl \<Rightarrow> fl" where
  "py_max a b = (if fl_lt a b then b else a)"

definition compare_step :: "'v compare_env \<Rightarrow> case_report \<Rightarrow> string \<times> 'v \<times> 'v option \<Rightarrow> case_report" where
  "compare_step ce r = (\<lambda>(name, ref, got).
     case got of
       None \<Rightarrow> r\<lparr>cr_skipped := cr_skipped r @ [name]\<rparr>
     | Some g \<Rightarrow>
         if ce_shape ce ref \<noteq> ce_shape ce g then r\<lparr>cr_ok := False, cr_max_abs := PInf\<rparr>
         else let d = ce_diff ce ref g in
           r\<lparr>cr_max_abs := py_max (cr_max_abs r) (fst d), cr_max_rel := py_max (cr_max_rel r) (fst (snd d)),
             cr_ok := cr_ok r \<and> snd (snd d)\<rparr>)"

definition finish_report :: "case_report \<Rightarrow> case_report" where
  "finish_report r = r\<lparr>cr_status := (if \<not> cr_ok r then ''fail'' else if cr_skipped r \<noteq> [] then ''partial'' else ''pass'')\<rparr>"

definition case_seed_of :: "test_case \<Rightarrow> int" where
  "case_seed_of c = (case c of GeneratedCase _ seed _ _ \<Rightarrow> seed | _ \<Rightarrow> 0)"

text \<open>What the candidate gives, on the whole model or node by node on a backend, and the labels of the nodes that failed.\<close>

definition candidate_outputs ::
    "'v compare_env \<Rightarrow> graph \<Rightarrow> graph \<Rightarrow> (node \<Rightarrow> 'v option list \<Rightarrow> 'v list res) option \<Rightarrow> test_case \<Rightarrow> (string, 'v) dict \<Rightarrow>
     ('v option list \<times> string list) res" where
  "candidate_outputs ce base cand backend c feeds =
     (case backend of
        None \<Rightarrow> rbind (ce_run ce cand feeds) (\<lambda>vs. Inr (map Some vs, []))
      | Some b \<Rightarrow> rbind (ce_sizes ce base feeds) (\<lambda>sizes.
          rbind (run_partial (ce_to_array ce) (ce_random_like ce) cand feeds b sizes (case_seed_of c)) (\<lambda>p.
            Inr (map (\<lambda>t. get_default (pr_outputs p) t None) (map vname (goutput cand)), failed_nodes p))))"

definition check_case ::
    "'v input_env \<Rightarrow> 'v compare_env \<Rightarrow> graph \<Rightarrow> graph \<Rightarrow> (node \<Rightarrow> 'v option list \<Rightarrow> 'v list res) option \<Rightarrow> test_case \<Rightarrow> case_report res" where
  "check_case ie ce base cand backend c =
     rbind (resolve_feeds ie c) (\<lambda>feeds. rbind (ce_run ce base feeds) (\<lambda>refs.
     rbind (candidate_outputs ce base cand backend c feeds) (\<lambda>(got, failed).
       Inr (finish_report (foldl (compare_step ce)
         \<lparr>cr_case = case_name c, cr_max_abs = Fin 0, cr_max_rel = Fin 0, cr_ok = True, cr_status = ''pass'', cr_skipped = [], cr_failed = failed\<rparr>
         (zip (map vname (goutput base)) (zip refs got)))))))"

definition check_equivalent ::
    "'v input_env \<Rightarrow> 'v compare_env \<Rightarrow> graph \<Rightarrow> graph \<Rightarrow> test_case list \<Rightarrow> (node \<Rightarrow> 'v option list \<Rightarrow> 'v list res) option \<Rightarrow> case_report list res" where
  "check_equivalent ie ce base cand cases backend =
     (if map vname (goutput base) \<noteq> map vname (goutput cand) then Inl (ValueError ''output names differ'')
      else rmap (check_case ie ce base cand backend) cases)"

section \<open>Judged outputs are the true ones\<close>

text \<open>The tensors that a node writes are new, as in a graph in single-assignment form.\<close>

fun outputs_fresh :: "string set \<Rightarrow> node list \<Rightarrow> bool" where
  "outputs_fresh E [] = True"
| "outputs_fresh E (n # ns) = (E \<inter> set (noutput n) \<subseteq> {''''} \<and> outputs_fresh (E \<union> set (noutput n)) ns)"

lemma set_output_sel:
  "ps_env (set_output b s (t, v)) = (if t = [] then ps_env s else dict_set t v (ps_env s))"
  "ps_fake (set_output b s (t, v)) = (if t \<noteq> [] \<and> b then insert t (ps_fake s) else ps_fake s)"
  by (auto simp: set_output_def)

lemma set_output_other:
  assumes "t = '''' \<or> t \<notin> fst ` set xs"
  shows "dict_get (ps_env (foldl (set_output b) s xs)) t = dict_get (ps_env s) t \<and> (t \<in> ps_fake (foldl (set_output b) s xs) \<longleftrightarrow> t \<in> ps_fake s)"
  using assms
proof (induction xs rule: rev_induct)
  case Nil
  then show ?case by simp
next
  case (snoc x xs)
  obtain u v where x: "x = (u, v)" by (cases x)
  have "t = '''' \<or> t \<notin> fst ` set xs" and u: "u = '''' \<or> u \<noteq> t" using snoc.prems x by auto
  from snoc.IH [OF this(1)] u show ?case by (auto simp: x set_output_sel dict_simps)
qed

lemma set_output_same:
  assumes "t \<noteq> ''''" "t \<in> fst ` set xs"
  shows "dict_get (ps_env (foldl (set_output b) s xs)) t = dict_get (ps_env (foldl (set_output b') s' xs)) t"
  using assms(2)
proof (induction xs rule: rev_induct)
  case Nil
  then show ?case by simp
next
  case (snoc x xs)
  obtain u v where x: "x = (u, v)" by (cases x)
  show ?case
  proof (cases "u = t")
    case True
    then show ?thesis using x assms(1) by (simp add: set_output_sel dict_simps)
  next
    case False
    then have "dict_get (ps_env (foldl (set_output b) s xs)) t = dict_get (ps_env (foldl (set_output b') s' xs)) t"
      using snoc x by auto
    then show ?thesis using x False by (simp add: set_output_sel dict_simps)
  qed
qed

lemma set_output_taints: "t \<noteq> '''' \<Longrightarrow> t \<in> fst ` set xs \<Longrightarrow> t \<in> ps_fake (foldl (set_output True) s xs)"
proof (induction xs rule: rev_induct)
  case Nil
  then show ?case by simp
next
  case (snoc x xs)
  then show ?case by (cases x) (auto simp: set_output_sel)
qed

lemma set_output_dom: "dom (dict_get (ps_env (foldl (set_output b) s xs))) \<subseteq> dom (dict_get (ps_env s)) \<union> fst ` set xs"
proof
  fix t assume t: "t \<in> dom (dict_get (ps_env (foldl (set_output b) s xs)))"
  show "t \<in> dom (dict_get (ps_env s)) \<union> fst ` set xs"
  proof (cases "t \<in> fst ` set xs")
    case False
    then show ?thesis using set_output_other [of t xs b s] t by (simp add: domIff)
  qed simp
qed

lemma set_output_fake: "ps_fake (foldl (set_output False) s xs) = ps_fake s"
proof (induction xs rule: rev_induct)
  case (snoc x xs)
  then show ?case by (cases x) (simp add: set_output_sel)
qed simp

lemma judged_fill: "judged (s\<lparr>ps_env := dict_set u x (ps_env s), ps_fake := insert u (ps_fake s)\<rparr>) t = Some v \<Longrightarrow> judged s t = Some v"
  by (auto simp: judged_def dict_simps split: if_splits)

lemma fill_outputs_judged:
  "fill_outputs random_like sizes seed ts s = Inr s' \<Longrightarrow>
     (judged s' t = Some v \<longrightarrow> judged s t = Some v) \<and> dom (dict_get (ps_env s')) \<subseteq> dom (dict_get (ps_env s)) \<union> set ts"
proof (induction ts arbitrary: s)
  case Nil
  then show ?case by simp
next
  case (Cons u ts)
  show ?case
  proof (cases "if u = '''' then None else dict_get sizes u")
    case None
    then have "fill_outputs random_like sizes seed ts s = Inr s'" using Cons.prems by simp
    from Cons.IH [OF this] show ?thesis by auto
  next
    case (Some w)
    then obtain x where "fill_outputs random_like sizes seed ts (s\<lparr>ps_env := dict_set u x (ps_env s), ps_fake := insert u (ps_fake s)\<rparr>) = Inr s'"
      using Cons.prems by (auto simp: res_simps)
    from Cons.IH [OF this] show ?thesis
      using judged_fill [where s = s and u = u and x = x and t = t and v = v] by (auto simp: dict_simps)
  qed
qed

text \<open>
  A partial run beside a run on a backend that gives every node its value: the tensors known to both are in \<^term>\<open>E\<close>, and what the
  partial run has judged is what the other run has.
\<close>

definition agrees :: "string set \<Rightarrow> 'v partial_state \<Rightarrow> 'v partial_state \<Rightarrow> bool" where
  "agrees E s s' \<longleftrightarrow> dom (dict_get (ps_env s)) \<subseteq> E \<and> dom (dict_get (ps_env s')) \<subseteq> E \<and> ps_fake s' = {} \<and>
     (\<forall>t v. judged s t = Some v \<longrightarrow> dict_get (ps_env s') t = Some v)"

lemma log_run_sel [simp]:
  "ps_env (log_run n st s) = ps_env s" "ps_fake (log_run n st s) = ps_fake s" "judged (log_run n st s) = judged s"
  by (auto simp: log_run_def judged_def)

lemma judged_dom: "judged s t = Some v \<Longrightarrow> t \<in> dom (dict_get (ps_env s)) \<and> t \<notin> ps_fake s \<and> dict_get (ps_env s) t = Some v"
  by (auto simp: judged_def split: if_splits)

lemma fst_set_zip: "fst ` set (zip xs ys) \<subseteq> set xs"
  by (auto dest: set_zip_leftD)

lemma true_step:
  assumes "ps_fake s = {}"
  obtains xs st where "run_node (\<lambda>n i. Inr (eval n i)) random_like sizes seed s n = Inr (foldl (set_output False) (log_run n st s) xs)"
    "fst ` set xs \<subseteq> set (noutput n)" "\<forall>e. st \<noteq> Failed e"
    "\<forall>t \<in> set (ninput n). t \<noteq> '''' \<longrightarrow> t \<in> dom (dict_get (ps_env s)) \<Longrightarrow>
       xs = zip (noutput n) (eval n (map (\<lambda>t. if t = '''' then None else dict_get (ps_env s) t) (ninput n)))"
proof (cases "list_ex (\<lambda>t. dict_get (ps_env s) t = None) (filter (\<lambda>t. t \<noteq> '''') (ninput n))")
  case True
  then have run: "run_node (\<lambda>n i. Inr (eval n i)) random_like sizes seed s n = Inr (foldl (set_output False) (log_run n Skipped s) [])"
    by (simp add: run_node_def)
  have missing: "\<not> (\<forall>t \<in> set (ninput n). t \<noteq> '''' \<longrightarrow> t \<in> dom (dict_get (ps_env s)))"
    using True by (force simp: list_ex_iff)
  show ?thesis by (rule that [OF run]) (use missing in simp_all)
next
  case False
  let ?xs = "zip (noutput n) (eval n (map (\<lambda>t. if t = '''' then None else dict_get (ps_env s) t) (ninput n)))"
  have run: "run_node (\<lambda>n i. Inr (eval n i)) random_like sizes seed s n = Inr (foldl (set_output False) (log_run n Ran s) ?xs)"
    using False assms by (auto simp: run_node_def Let_def list_ex_iff)
  show ?thesis by (rule that [OF run]) (simp_all add: fst_set_zip)
qed

text \<open>A step of the run that gives every value leaves the tensors known before as they were.\<close>

lemma agrees_extend:
  assumes a: "agrees E s s'" and fresh: "E \<inter> set (noutput n) \<subseteq> {''''}" and xs: "fst ` set xs \<subseteq> set (noutput n)"
    and old: "\<And>t v. judged u t = Some v \<Longrightarrow> t = '''' \<or> t \<notin> fst ` set xs \<Longrightarrow> judged s t = Some v"
    and new: "\<And>t v. judged u t = Some v \<Longrightarrow> t \<noteq> '''' \<Longrightarrow> t \<in> fst ` set xs \<Longrightarrow>
        judged s t = Some v \<or> dict_get (ps_env (foldl (set_output False) s' xs)) t = Some v"
    and dom: "dom (dict_get (ps_env u)) \<subseteq> dom (dict_get (ps_env s)) \<union> set (noutput n)"
  shows "agrees (E \<union> set (noutput n)) u (foldl (set_output False) s' xs)"
  unfolding agrees_def
proof (intro conjI allI impI)
  show "dom (dict_get (ps_env u)) \<subseteq> E \<union> set (noutput n)" using a dom by (auto simp: agrees_def)
  show "dom (dict_get (ps_env (foldl (set_output False) s' xs))) \<subseteq> E \<union> set (noutput n)"
    using a set_output_dom [of False s' xs] xs unfolding agrees_def by blast
  show "ps_fake (foldl (set_output False) s' xs) = {}" using a by (simp add: agrees_def set_output_fake)
  fix t v assume t: "judged u t = Some v"
  show "dict_get (ps_env (foldl (set_output False) s' xs)) t = Some v"
  proof (cases "t = '''' \<or> t \<notin> fst ` set xs")
    case True
    then have "dict_get (ps_env s') t = Some v" using old [OF t] a by (simp add: agrees_def)
    then show ?thesis using set_output_other [OF True, of False s'] by simp
  next
    case False
    have "judged s t \<noteq> Some v"
    proof
      assume "judged s t = Some v"
      then have "t \<in> E" using judged_dom [of s t v] a by (auto simp: agrees_def)
      then show False using False fresh xs by auto
    qed
    then show ?thesis using new [OF t] False by blast
  qed
qed

lemma judged_set_outputs:
  assumes "judged (foldl (set_output b) s xs) t = Some v"
  shows "judged s t = Some v \<or> t \<noteq> '''' \<and> t \<in> fst ` set xs \<and> \<not> b"
proof (cases "t = '''' \<or> t \<notin> fst ` set xs")
  case True
  have "judged (foldl (set_output b) s xs) t = judged s t"
    using set_output_other [OF True, of b s] by (simp add: judged_def)
  then show ?thesis using assms by simp
next
  case False
  then show ?thesis using judged_dom [OF assms] set_output_taints [of t xs s] by (cases b) auto
qed

lemma fill_outputs_agrees:
  assumes a: "agrees E s s'" and fresh: "E \<inter> set (noutput n) \<subseteq> {''''}" and xs: "fst ` set xs \<subseteq> set (noutput n)"
    and fill: "fill_outputs random_like sizes seed (noutput n) (log_run n st s) = Inr u"
  shows "agrees (E \<union> set (noutput n)) u (foldl (set_output False) (log_run n st' s') xs)"
proof (rule agrees_extend [where s = s, OF _ fresh xs])
  show "agrees E s (log_run n st' s')" using a by (simp add: agrees_def)
  show "dom (dict_get (ps_env u)) \<subseteq> dom (dict_get (ps_env s)) \<union> set (noutput n)"
    using fill_outputs_judged [OF fill] by simp
  fix t v assume "judged u t = Some v"
  then show "judged s t = Some v" and "judged s t = Some v \<or> dict_get (ps_env (foldl (set_output False) (log_run n st' s') xs)) t = Some v"
    using fill_outputs_judged [OF fill, of t v] by simp_all
qed

lemma run_node_agrees:
  assumes a: "agrees E s s'" and fresh: "E \<inter> set (noutput n) \<subseteq> {''''}"
    and backend: "\<And>i outs. backend n i = Inr outs \<Longrightarrow> outs = eval n i"
    and run: "run_node backend random_like sizes seed s n = Inr u"
  shows "\<exists>u'. run_node (\<lambda>n i. Inr (eval n i)) random_like sizes seed s' n = Inr u' \<and> agrees (E \<union> set (noutput n)) u u'"
proof -
  let ?names = "filter (\<lambda>t. t \<noteq> '''') (ninput n)"
  let ?inputs = "\<lambda>s. map (\<lambda>t. if t = '''' then None else dict_get (ps_env s) t) (ninput n)"
  obtain xs st where s': "run_node (\<lambda>n i. Inr (eval n i)) random_like sizes seed s' n = Inr (foldl (set_output False) (log_run n st s') xs)"
      and xs: "fst ` set xs \<subseteq> set (noutput n)"
      and all: "\<forall>t \<in> set (ninput n). t \<noteq> '''' \<longrightarrow> t \<in> dom (dict_get (ps_env s')) \<Longrightarrow> xs = zip (noutput n) (eval n (?inputs s'))"
    by (rule true_step [of s' eval random_like sizes seed n]) (use a in \<open>auto simp: agrees_def\<close>)
  have a': "agrees E s (log_run n st s')" using a by (simp add: agrees_def)
  have "agrees (E \<union> set (noutput n)) u (foldl (set_output False) (log_run n st s') xs)"
  proof (cases "list_ex (\<lambda>t. dict_get (ps_env s) t = None) ?names")
    case True
    then have "u = log_run n Skipped s" using run by (simp add: run_node_def)
    then show ?thesis by (auto intro: agrees_extend [OF a' fresh xs])
  next
    case False
    define tainted where "tainted = list_ex (\<lambda>t. t \<in> ps_fake s) ?names"
    show ?thesis
    proof (cases "backend n (?inputs s)")
      case (Inl e)
      then have "fill_outputs random_like sizes seed (noutput n) (log_run n (Failed e) s) = Inr u"
        using run False by (simp add: run_node_def Let_def)
      then show ?thesis by (rule fill_outputs_agrees [OF a fresh xs])
    next
      case (Inr outs)
      define ys where "ys = zip (noutput n) outs"
      have u: "u = foldl (set_output tainted) (log_run n Ran s) ys"
        using run False Inr by (simp add: run_node_def Let_def tainted_def ys_def)
      have same: "xs = ys" if "\<not> tainted"
      proof -
        have in_env: "judged s t = Some (the (dict_get (ps_env s) t))" if "t \<in> set (ninput n)" "t \<noteq> ''''" for t
          using that False \<open>\<not> tainted\<close> by (auto simp: tainted_def list_ex_iff judged_def)
        then have env': "dict_get (ps_env s') t = Some (the (dict_get (ps_env s) t))" if "t \<in> set (ninput n)" "t \<noteq> ''''" for t
          using that a by (simp add: agrees_def)
        have "?inputs s' = ?inputs s" using env' judged_dom [OF in_env] by auto
        moreover have "xs = zip (noutput n) (eval n (?inputs s'))" by (rule all) (use env' in blast)
        ultimately show ?thesis using backend [OF Inr] by (simp only: ys_def)
      qed
      have *: "judged s t = Some v \<or> t \<noteq> '''' \<and> t \<in> fst ` set ys \<and> \<not> tainted" if "judged u t = Some v" for t v
        using judged_set_outputs [of tainted "log_run n Ran s" ys t v] that by (simp add: u)
      show ?thesis
      proof (rule agrees_extend [OF a' fresh xs])
        show "dom (dict_get (ps_env u)) \<subseteq> dom (dict_get (ps_env s)) \<union> set (noutput n)"
          using set_output_dom [of tainted "log_run n Ran s" ys] fst_set_zip [of "noutput n" outs]
          unfolding u ys_def log_run_sel by blast
        fix t v assume t: "judged u t = Some v"
        show "judged s t = Some v" if "t = '''' \<or> t \<notin> fst ` set xs" using * [OF t] that same by auto
        show "judged s t = Some v \<or> dict_get (ps_env (foldl (set_output False) (log_run n st s') xs)) t = Some v"
          if "t \<noteq> ''''" "t \<in> fst ` set xs"
          using * [OF t] same judged_dom [OF t] set_output_same [OF that, of False "log_run n st s'" False "log_run n Ran s"] by (auto simp: u)
      qed
    qed
  qed
  then show ?thesis using s' by blast
qed

lemma run_nodes_agree:
  assumes "agrees E s s'" "outputs_fresh E ns" "\<And>n i outs. backend n i = Inr outs \<Longrightarrow> outs = eval n i"
    "rfold (run_node backend random_like sizes seed) s ns = Inr u"
  shows "\<exists>u' E'. rfold (run_node (\<lambda>n i. Inr (eval n i)) random_like sizes seed) s' ns = Inr u' \<and> agrees E' u u'"
  using assms(1,2,4)
proof (induction ns arbitrary: E s s')
  case Nil
  then show ?case by auto
next
  case (Cons n ns)
  from Cons.prems(3) obtain w where w: "run_node backend random_like sizes seed s n = Inr w"
    "rfold (run_node backend random_like sizes seed) w ns = Inr u" by (auto simp: res_simps)
  have fresh: "E \<inter> set (noutput n) \<subseteq> {''''}" "outputs_fresh (E \<union> set (noutput n)) ns" using Cons.prems(2) by auto
  obtain w' where w': "run_node (\<lambda>n i. Inr (eval n i)) random_like sizes seed s' n = Inr w'" "agrees (E \<union> set (noutput n)) w w'"
    using run_node_agrees [where eval = eval and backend = backend, OF Cons.prems(1) fresh(1) _ w(1)] assms(3) by blast
  show ?case using Cons.IH [OF w'(2) fresh(2) w(2)] w'(1) by simp
qed

lemma true_run_never_fails:
  assumes "rfold (run_node (\<lambda>n i. Inr (eval n i)) random_like sizes seed) s ns = Inr u"
    and "ps_fake s = {} \<and> (\<forall>r \<in> set (ps_runs s). \<forall>e. nr_status r \<noteq> Failed e)"
  shows "ps_fake u = {} \<and> (\<forall>r \<in> set (ps_runs u). \<forall>e. nr_status r \<noteq> Failed e)"
  using assms(1)
proof (rule rfold_invariant [where P = "\<lambda>s. ps_fake s = {} \<and> (\<forall>r \<in> set (ps_runs s). \<forall>e. nr_status r \<noteq> Failed e)", OF _ assms(2)])
  fix s s' n assume s: "ps_fake s = {} \<and> (\<forall>r \<in> set (ps_runs s). \<forall>e. nr_status r \<noteq> Failed e)"
    and run: "run_node (\<lambda>n i. Inr (eval n i)) random_like sizes seed s n = Inr s'"
  have runs: "ps_runs (foldl (set_output b) s xs) = ps_runs s" for b s and xs :: "(string \<times> 'a) list"
    by (induction xs rule: rev_induct) (auto simp: set_output_def split: prod.splits)
  obtain xs st where "s' = foldl (set_output False) (log_run n st s) xs" "\<forall>e. st \<noteq> Failed e"
    by (rule true_step [of s eval random_like sizes seed n]) (use s run in auto)
  then show "ps_fake s' = {} \<and> (\<forall>r \<in> set (ps_runs s'). \<forall>e. nr_status r \<noteq> Failed e)"
    using s by (auto simp: runs set_output_fake) (auto simp: log_run_def)
qed

lemma map_of_outputs: "dict_get (foldl (\<lambda>d t. dict_set t (f t) d) [] ts) t = (if t \<in> set ts then Some (f t) else None)"
  by (induction ts rule: rev_induct) (auto simp: dict_simps)

text \<open>
  C34. Continuing past operators that a backend cannot run never makes up an output: for a graph whose nodes write new
  tensors, and a backend that gives the value of a node whenever it returns, every output that \<^verbatim>\<open>run_partial\<close> judges (the ones it does not
  report as skipped) is the output of the run in which no node fails, whatever random values stood in for the failed ones.
\<close>

theorem judged_outputs_are_true:
  assumes "run_partial to_array random_like g feeds backend sizes seed = Inr p"
    and "outputs_fresh (dom (dict_get (start_env to_array g feeds))) (gnode g)"
    and "\<And>n i outs. backend n i = Inr outs \<Longrightarrow> outs = eval n i"
    and "dict_get (pr_outputs p) t = Some (Some v)"
  shows "\<exists>p'. run_partial to_array random_like g feeds (\<lambda>n i. Inr (eval n i)) sizes seed = Inr p' \<and>
     failed_nodes p' = [] \<and> dict_get (pr_outputs p') t = Some (Some v)"
proof -
  let ?s = "\<lparr>ps_env = start_env to_array g feeds, ps_fake = {}, ps_runs = []\<rparr>"
  from assms(1) obtain u where u: "rfold (run_node backend random_like sizes seed) ?s (gnode g) = Inr u"
      and p: "pr_outputs p = foldl (\<lambda>d t. dict_set t (judged u t) d) [] (map vname (goutput g))"
    by (auto simp: run_partial_def res_simps)
  have a: "agrees (dom (dict_get (start_env to_array g feeds))) ?s ?s" by (auto simp: agrees_def judged_def)
  obtain u' E' where u': "rfold (run_node (\<lambda>n i. Inr (eval n i)) random_like sizes seed) ?s (gnode g) = Inr u'" "agrees E' u u'"
    using run_nodes_agree [where eval = eval and backend = backend, OF a assms(2) assms(3) u] by blast
  have clean: "ps_fake u' = {} \<and> (\<forall>r \<in> set (ps_runs u'). \<forall>e. nr_status r \<noteq> Failed e)" by (rule true_run_never_fails [OF u'(1)]) simp
  have t: "t \<in> set (map vname (goutput g))" "judged u t = Some v" using assms(4) by (auto simp: p map_of_outputs split: if_splits)
  have "judged u' t = Some v" using u'(2) t(2) clean by (simp add: agrees_def judged_def)
  then show ?thesis using u'(1) clean t(1)
    by (auto simp: run_partial_def map_of_outputs failed_nodes_def filter_empty_conv split: run_status.splits)
qed

section \<open>What a verdict means\<close>

lemma compare_step_sel:
  "cr_ok (compare_step ce r (name, ref, None)) = cr_ok r"
  "cr_skipped (compare_step ce r (name, ref, None)) = cr_skipped r @ [name]"
  "cr_ok (compare_step ce r (name, ref, Some g)) = (cr_ok r \<and> ce_shape ce ref = ce_shape ce g \<and> snd (snd (ce_diff ce ref g)))"
  "cr_skipped (compare_step ce r (name, ref, Some g)) = cr_skipped r"
  by (auto simp: compare_step_def Let_def)

text \<open>An output that was produced, with the shape of the base's and within tolerance.\<close>

definition matches :: "'v compare_env \<Rightarrow> string \<times> 'v \<times> 'v option \<Rightarrow> bool" where
  "matches ce = (\<lambda>(name, ref, got). case got of None \<Rightarrow> False | Some g \<Rightarrow> ce_shape ce ref = ce_shape ce g \<and> snd (snd (ce_diff ce ref g)))"

lemma compare_outputs:
  "cr_ok (foldl (compare_step ce) r xs) \<and> cr_skipped (foldl (compare_step ce) r xs) = [] \<longleftrightarrow>
     cr_ok r \<and> cr_skipped r = [] \<and> list_all (matches ce) xs"
proof (induction xs rule: rev_induct)
  case Nil
  then show ?case by simp
next
  case (snoc x xs)
  obtain name ref got where x: "x = (name, ref, got)" by (cases x)
  show ?case using snoc by (cases got) (auto simp: x compare_step_sel matches_def)
qed

lemma finish_report_sel [simp]:
  "cr_ok (finish_report r) = cr_ok r"
  "cr_status (finish_report r) = (if \<not> cr_ok r then ''fail'' else if cr_skipped r \<noteq> [] then ''partial'' else ''pass'')"
  by (auto simp: finish_report_def)

definition case_matches ::
    "'v input_env \<Rightarrow> 'v compare_env \<Rightarrow> graph \<Rightarrow> graph \<Rightarrow> (node \<Rightarrow> 'v option list \<Rightarrow> 'v list res) option \<Rightarrow> test_case \<Rightarrow> bool" where
  "case_matches ie ce base cand backend c \<longleftrightarrow> rgives (resolve_feeds ie c) (\<lambda>feeds. rgives (ce_run ce base feeds) (\<lambda>refs.
     rgives (candidate_outputs ce base cand backend c feeds) (\<lambda>(got, _).
       list_all (matches ce) (zip (map vname (goutput base)) (zip refs got)))))"

lemma check_case_matches:
  assumes "check_case ie ce base cand backend c = Inr r"
  shows "cr_ok r \<and> cr_status r \<noteq> ''partial'' \<longleftrightarrow> case_matches ie ce base cand backend c"
proof -
  from assms obtain feeds refs got nodes where f: "resolve_feeds ie c = Inr feeds" "ce_run ce base feeds = Inr refs"
      "candidate_outputs ce base cand backend c feeds = Inr (got, nodes)"
      and r: "r = finish_report (foldl (compare_step ce)
         \<lparr>cr_case = case_name c, cr_max_abs = Fin 0, cr_max_rel = Fin 0, cr_ok = True, cr_status = ''pass'', cr_skipped = [], cr_failed = nodes\<rparr>
         (zip (map vname (goutput base)) (zip refs got)))" (is "_ = finish_report (foldl _ ?r0 ?xs)")
    by (auto simp: check_case_def res_simps)
  show ?thesis using compare_outputs [of ce ?r0 ?xs] by (auto simp: r case_matches_def f)
qed


section \<open>Examples\<close>

definition ex_model :: graph where
  "ex_model = Graph [Node ''Custom'' '''' '''' [''x''] [''u''] [], Node ''Neg'' '''' '''' [''x''] [''y''] [], Node ''Neg'' '''' '''' [''u''] [''z''] []]
     [\<lparr>vname = ''x'', elem_type_of = INT64, vshape = None\<rparr>]
     [\<lparr>vname = ''y'', elem_type_of = INT64, vshape = None\<rparr>, \<lparr>vname = ''z'', elem_type_of = INT64, vshape = None\<rparr>] [] []"

definition ex_eval :: "node \<Rightarrow> int option list \<Rightarrow> int list" where
  "ex_eval n vs = map (\<lambda>v. case v of None \<Rightarrow> 0 | Some x \<Rightarrow> if op_type n = ''Neg'' then - x else x + 1) vs"

definition ex_backend :: "node \<Rightarrow> int option list \<Rightarrow> int list res" where
  "ex_backend n vs = (if op_type n = ''Neg'' then Inr (ex_eval n vs) else Inl (ValueError ''unsupported''))"

definition ex_partial :: "(node \<Rightarrow> int option list \<Rightarrow> int list res) \<Rightarrow> int partial_run res" where
  "ex_partial b = run_partial (\<lambda>t. 0) (\<lambda>v t s. Inr 99) ex_model [(''x'', 5)] b [(''u'', 1)] 0"

theorem judged_outputs_are_true_witness:
  "\<exists>p p'. ex_partial ex_backend = Inr p \<and> skipped_outputs p = [''z''] \<and> dict_get (pr_outputs p) ''y'' = Some (Some (-5)) \<and>
     ex_partial (\<lambda>n i. Inr (ex_eval n i)) = Inr p' \<and> failed_nodes p' = [] \<and> dict_get (pr_outputs p') ''y'' = Some (Some (-5))"
proof -
  have "case ex_partial ex_backend of Inr p \<Rightarrow> skipped_outputs p = [''z''] \<and> dict_get (pr_outputs p) ''y'' = Some (Some (-5)) | _ \<Rightarrow> False"
    by code_simp
  then obtain p where p: "ex_partial ex_backend = Inr p" "skipped_outputs p = [''z'']" "dict_get (pr_outputs p) ''y'' = Some (Some (-5))"
    by (auto split: sum.splits)
  have fresh: "outputs_fresh (dom (dict_get (start_env (\<lambda>t. 0 :: int) ex_model [(''x'', 5)]))) (gnode ex_model)"
    by (auto simp: ex_model_def start_env_def split: if_splits)
  have agree: "outs = ex_eval n i" if "ex_backend n i = Inr outs" for n i outs
    using that by (simp add: ex_backend_def split: if_splits)
  show ?thesis
    using judged_outputs_are_true [where eval = ex_eval, OF p(1) [unfolded ex_partial_def] fresh _ p(3)] agree p
    unfolding ex_partial_def by blast
qed

definition ex_compare :: "int compare_env" where
  "ex_compare = \<lparr>ce_run = (\<lambda>g feeds. Inr [-5, -6]), ce_sizes = (\<lambda>g feeds. Inr [(''u'', 1)]), ce_to_array = (\<lambda>t. 0),
     ce_random_like = (\<lambda>v t s. Inr 99), ce_shape = (\<lambda>v. []), ce_diff = (\<lambda>a b. (Fin (of_int \<bar>a - b\<bar>), Fin 0, a = b))\<rparr>"

definition ex_inputs :: "int input_env" where
  "ex_inputs = \<lparr>ie_generate = (\<lambda>seed specs. Inr [(''x'', 5)]), ie_read_npz = (\<lambda>p. Inr []), ie_test_set = (\<lambda>d i. Inr []),
     ie_digest = (\<lambda>v. Inr ''d'')\<rparr>"

definition ex_check_with :: "(node \<Rightarrow> int option list \<Rightarrow> int list res) \<Rightarrow> case_report list res" where
  "ex_check_with b = check_equivalent ex_inputs ex_compare ex_model ex_model [GeneratedCase ''c'' 0 [] (Some [(''x'', ''d'')])] (Some b)"


end
