(* ===== verification/Xdna_Cache.thy ===== *)
theory Xdna_Cache
  imports Versioning_Manifest
begin

text \<open>
  \<^verbatim>\<open>onnxsim/rpc/xdna_cache.py\<close>: the cache of compiled artifacts below one root directory, keyed by a digest of everything that
  can change the compile output. A directory of the root is its regular files with their sizes and the JSON value of
  its \<^verbatim>\<open>entry.json\<close> with its modification time. The compiler, the file system outside an entry, the clock and the random names
  are arguments. The cache with concurrent clients is a step relation: every step is one operation of the file system or
  of the per-key lock, clients interleave freely, and any of them may crash between two steps.
\<close>

section \<open>Settings\<close>

abbreviation ENTRY_FILE :: string where "ENTRY_FILE \<equiv> ''entry.json''"
abbreviation PLACEHOLDER :: string where "PLACEHOLDER \<equiv> ''@ENTRY@''"
abbreviation DEFAULT_MAX_ENTRIES :: int where "DEFAULT_MAX_ENTRIES \<equiv> 20"

definition lower_char :: "char \<Rightarrow> char" where
  "lower_char c = (if CHR ''A'' \<le> c \<and> c \<le> CHR ''Z'' then char_of ((of_char c :: nat) + 32) else c)"

definition cache_enabled :: "(string, json) dict \<Rightarrow> (string, string) dict \<Rightarrow> bool" where
  "cache_enabled options env \<longleftrightarrow>
     \<not> truthy (get_default options ''no_cache'' JNull) \<and>
     map lower_char (strip (get_default env ''ONNXSIM_XDNA_CACHE'' ''1'')) \<notin> {''0'', ''off'', ''false'', ''no''}"

definition max_entries :: "(string, json) dict \<Rightarrow> (string, string) dict \<Rightarrow> int res" where
  "max_entries options env =
     (let from_env = (case dict_get env ''ONNXSIM_XDNA_CACHE_MAX_ENTRIES'' of None \<Rightarrow> JNull | Some s \<Rightarrow> JStr s);
          raw = get_default options ''cache_max_entries'' from_env in
      if raw = JNull then Inr DEFAULT_MAX_ENTRIES
      else case json_int raw of
        Inr i \<Rightarrow> Inr (max i 1)
      | Inl (TypeError _) \<Rightarrow> Inr DEFAULT_MAX_ENTRIES
      | Inl (ValueError _) \<Rightarrow> Inr DEFAULT_MAX_ENTRIES
      | Inl e \<Rightarrow> Inl e)"

definition starts_with :: "string \<Rightarrow> string \<Rightarrow> bool" where
  "starts_with p s \<longleftrightarrow> take (length p) s = p"

definition compile_env :: "(string, string) dict \<Rightarrow> (string, string) dict" where
  "compile_env env =
     filter (\<lambda>(name, _). (list_ex (\<lambda>p. starts_with p name) [''XDNA_'', ''AIE_'', ''IRON_'', ''PEANO'', ''MLIR_AIE''] \<or>
         name \<in> {''XILINX_XRT'', ''PYTHONPATH'', ''PATH'', ''LD_LIBRARY_PATH''}) \<and> \<not> starts_with ''ONNXSIM_'' name)
       (sort_key fst env)"

section \<open>Relocating paths\<close>

text \<open>\<^verbatim>\<open>s.replace(old, new)\<close>: from left to right, without overlaps; an empty pattern matches between all characters.\<close>

function replace_all :: "string \<Rightarrow> string \<Rightarrow> string \<Rightarrow> string" where
  "replace_all old new s =
     (if s = [] \<or> old = [] then s
      else if take (length old) s = old then new @ replace_all old new (drop (length old) s)
      else hd s # replace_all old new (tl s))"
  by pat_completeness auto
termination by (relation "measure (\<lambda>(old, new, s). length s)") auto

declare replace_all.simps [simp del]

definition str_replace :: "string \<Rightarrow> string \<Rightarrow> string \<Rightarrow> string" where
  "str_replace old new s = (if old = [] then new @ concat (map (\<lambda>c. c # new) s) else replace_all old new s)"

primrec relocate :: "string \<Rightarrow> string \<Rightarrow> json \<Rightarrow> json" where
  "relocate old new JNull = JNull"
| "relocate old new (JBool b) = JBool b"
| "relocate old new (JInt i) = JInt i"
| "relocate old new (JFloat x) = JFloat x"
| "relocate old new (JStr s) = JStr (str_replace old new s)"
| "relocate old new (JList xs) = JList (map (relocate old new) xs)"
| "relocate old new (JObj d) = JObj (map (map_prod id (relocate old new)) d)"

section \<open>Entries\<close>

record entry_dir =
  ed_files :: "(string, nat) dict"
  ed_meta :: "json res"
  ed_mtime :: "nat option"

record cache =
  dirs :: "(string, entry_dir) dict"

record cache_env =
  xe_outside :: "string \<Rightarrow> string \<Rightarrow> nat option"
  xe_now :: nat
  xe_tmp :: string
  xe_leftover :: "string \<Rightarrow> entry_dir option"
  xe_build :: "string \<Rightarrow> json res \<times> (string, nat) dict"
  xe_required :: "(string, nat) dict \<Rightarrow> string list res"

definition file_sizes :: "entry_dir \<Rightarrow> (string, nat) dict" where
  "file_sizes d = filter (\<lambda>(p, _). path_basename p \<noteq> ENTRY_FILE) (ed_files d)"

text \<open>The size of the regular file a name stands for, inside the entry or wherever else it leads.\<close>

definition stat_size :: "(string \<Rightarrow> nat option) \<Rightarrow> entry_dir \<Rightarrow> string \<Rightarrow> nat option" where
  "stat_size outside d name = (case dict_get (ed_files d) name of Some n \<Rightarrow> Some n | None \<Rightarrow> outside name)"

fun sizes_match :: "(string \<Rightarrow> nat option) \<Rightarrow> (string, json) dict \<Rightarrow> bool res" where
  "sizes_match stat [] = Inr True"
| "sizes_match stat ((name, sz) # fs) =
     (case stat name of
        None \<Rightarrow> Inr False
      | Some n \<Rightarrow> rbind (json_num sz) (\<lambda>x.
          if fl_le x (Fin 0) \<or> x \<noteq> Fin (of_nat n) then Inr False else sizes_match stat fs))"

fun any_missing :: "string list \<Rightarrow> json list \<Rightarrow> bool res" where
  "any_missing names [] = Inr False"
| "any_missing names (JStr s # xs) = (if s \<in> set names then any_missing names xs else Inr True)"
| "any_missing names (x # xs) = rbind (hash_key x) (\<lambda>_. Inr True)"

text \<open>The exceptions that \<^verbatim>\<open>load_entry\<close> catches.\<close>

fun load_catches :: "pyerr \<Rightarrow> bool" where
  "load_catches (OSError _) = True"
| "load_catches (ValueError _) = True"
| "load_catches (KeyError _) = True"
| "load_catches (TypeError _) = True"
| "load_catches _ = False"

definition read_entry :: "(string \<Rightarrow> nat option) \<Rightarrow> string \<Rightarrow> entry_dir \<Rightarrow> json option res" where
  "read_entry outside entry d =
     rbind (ed_meta d) (\<lambda>meta. rbind (jitem meta ''files'') (\<lambda>files. rbind (jitem meta ''required'') (\<lambda>required.
       case files of
         JObj fs \<Rightarrow>
           if fs = [] then Inr None
           else rbind (sizes_match (stat_size outside d) fs) (\<lambda>same.
             if \<not> same then Inr None
             else rbind (json_iter required) (\<lambda>names. rbind (any_missing (dict_keys fs) names) (\<lambda>missing.
               if missing then Inr None
               else rbind (jitem meta ''result'') (\<lambda>r. Inr (Some (relocate PLACEHOLDER entry r))))))
       | _ \<Rightarrow> Inr None)))"

definition entry_path :: "string \<Rightarrow> string \<Rightarrow> string" where
  "entry_path rootdir name = rootdir @ ''/'' @ name"

definition load_entry :: "cache_env \<Rightarrow> string \<Rightarrow> cache \<Rightarrow> string \<Rightarrow> json option res" where
  "load_entry env rootdir c key =
     (case dict_get (dirs c) key of
        None \<Rightarrow> Inr None
      | Some d \<Rightarrow> (case read_entry (xe_outside env key) (entry_path rootdir key) d of
            Inr r \<Rightarrow> Inr r
          | Inl e \<Rightarrow> if load_catches e then Inr None else Inl e))"

section \<open>Publishing and eviction\<close>

definition delete_dir :: "string \<Rightarrow> cache \<Rightarrow> cache" where
  "delete_dir name c = c\<lparr>dirs := AList.delete name (dirs c)\<rparr>"

definition set_dir :: "string \<Rightarrow> entry_dir \<Rightarrow> cache \<Rightarrow> cache" where
  "set_dir name d c = c\<lparr>dirs := dict_set name d (dirs c)\<rparr>"

text \<open>\<^verbatim>\<open>_remove\<close>: the directory is gone, unless it can neither be renamed nor removed.\<close>

definition remove_entry :: "cache_env \<Rightarrow> string \<Rightarrow> cache \<Rightarrow> cache" where
  "remove_entry env name c = (case xe_leftover env name of None \<Rightarrow> delete_dir name c | Some d \<Rightarrow> set_dir name d c)"

text \<open>The entries of the root, the partial ones with time 0, least recently used first.\<close>

definition by_age :: "cache \<Rightarrow> (nat \<times> string) list" where
  "by_age c = sort_key fst (map (\<lambda>(name, d). (case ed_mtime d of None \<Rightarrow> 0 | Some t \<Rightarrow> t, name))
     (filter (\<lambda>(name, d). length name = 64) (dirs c)))"

definition evicted :: "cache \<Rightarrow> int \<Rightarrow> string list \<Rightarrow> string list" where
  "evicted c limit keep = (let entries = by_age c in
     filter (\<lambda>name. name \<notin> set keep) (map snd (take (nat (int (length entries) - limit)) entries)))"

definition evict :: "cache_env \<Rightarrow> int \<Rightarrow> string list \<Rightarrow> cache \<Rightarrow> string list \<times> cache" where
  "evict env limit keep c = (evicted c limit keep, foldl (\<lambda>c name. remove_entry env name c) c (evicted c limit keep))"

definition touch :: "nat \<Rightarrow> string \<Rightarrow> cache \<Rightarrow> cache" where
  "touch t key c = (case dict_get (dirs c) key of None \<Rightarrow> c | Some d \<Rightarrow> set_dir key (d\<lparr>ed_mtime := Some t\<rparr>) c)"

definition hit :: "cache_env \<Rightarrow> string \<Rightarrow> string \<Rightarrow> cache \<Rightarrow> json option res \<times> cache" where
  "hit env rootdir key c =
     (let r = load_entry env rootdir c key in
      (r, case r of Inr (Some _) \<Rightarrow> touch (xe_now env) key c | _ \<Rightarrow> c))"

definition entry_meta :: "string \<Rightarrow> string list \<Rightarrow> (string, nat) dict \<Rightarrow> json \<Rightarrow> json" where
  "entry_meta key need files r = JObj [
     (''key'', JStr key), (''version'', JInt 1), (''required'', JList (map JStr need)),
     (''files'', JObj (map (\<lambda>(name, n). (name, JInt (int n))) files)), (''result'', r)]"

definition need_built :: "string list \<Rightarrow> (string, nat) dict \<Rightarrow> bool" where
  "need_built need files \<longleftrightarrow> list_all (\<lambda>name. 0 < get_default files name 0) need"

definition fresh_dir :: "(string, nat) dict \<Rightarrow> entry_dir" where
  "fresh_dir files = \<lparr>ed_files = files, ed_meta = Inl (OSError ''no entry''), ed_mtime = None\<rparr>"

definition dir_empty :: "entry_dir \<Rightarrow> bool" where
  "dir_empty d \<longleftrightarrow> ed_files d = [] \<and> ed_mtime d = None"

text \<open>Compiling into the temporary directory and renaming it: the body of the \<^verbatim>\<open>try\<close>.\<close>

definition build_entry :: "cache_env \<Rightarrow> string \<Rightarrow> string \<Rightarrow> cache \<Rightarrow> json res \<times> cache" where
  "build_entry env rootdir key c =
     (let tmp = xe_tmp env; (built, files) = xe_build env (entry_path rootdir tmp); d = fresh_dir files in
      case rbind built (\<lambda>r. rbind (xe_required env files) (\<lambda>need.
          if \<not> need_built need (file_sizes d) then Inl (RuntimeError ''compiler did not produce'')
          else if (case dict_get (dirs c) key of None \<Rightarrow> False | Some old \<Rightarrow> \<not> dir_empty old) then Inl (OSError ''rename'')
          else Inr (r, entry_meta key need (file_sizes d) (relocate (entry_path rootdir tmp) PLACEHOLDER r)))) of
        Inl e \<Rightarrow> (Inl e, c)
      | Inr (r, meta) \<Rightarrow> (Inr r, set_dir key (d\<lparr>ed_meta := Inr meta, ed_mtime := Some (xe_now env)\<rparr>) c))"

text \<open>What happens under the lock of the key.\<close>

definition locked_part :: "cache_env \<Rightarrow> string \<Rightarrow> string \<Rightarrow> cache \<Rightarrow> (json \<times> bool) res \<times> cache" where
  "locked_part env rootdir key c =
     (case hit env rootdir key c of
        (Inl e, c1) \<Rightarrow> (Inl e, c1)
      | (Inr (Some r), c1) \<Rightarrow> (Inr (r, True), c1)
      | (Inr None, c1) \<Rightarrow>
          let c2 = (if dict_get (dirs c1) key \<noteq> None then remove_entry env key c1 else c1) in
          if dict_get (dirs c2) (xe_tmp env) \<noteq> None then (Inl (FileExistsError ''mkdir''), c2)
          else case build_entry env rootdir key c2 of
            (Inl e, c3) \<Rightarrow> (Inl e, c3)
          | (Inr r, c3) \<Rightarrow> (Inr (r, False), c3))"

definition get_or_build :: "cache_env \<Rightarrow> string \<Rightarrow> string \<Rightarrow> int \<Rightarrow> cache \<Rightarrow> (json \<times> string) res \<times> cache" where
  "get_or_build env rootdir key limit c =
     (case hit env rootdir key c of
        (Inl e, c1) \<Rightarrow> (Inl e, c1)
      | (Inr (Some r), c1) \<Rightarrow> (Inr (r, ''hit''), c1)
      | (Inr None, c1) \<Rightarrow>
          (case locked_part env rootdir key c1 of
             (Inl e, c2) \<Rightarrow> (Inl e, c2)
           | (Inr (r, True), c2) \<Rightarrow> (Inr (r, ''hit''), c2)
           | (Inr (r, False), c2) \<Rightarrow>
               (Inr (relocate (entry_path rootdir (xe_tmp env)) (entry_path rootdir key) r, ''miss''), snd (evict env limit [key] c2))))"

section \<open>What was built is found\<close>

lemma replace_all_Nil [simp]: "replace_all old new [] = []"
  by (subst replace_all.simps) simp

lemma replace_all_found: "old \<noteq> [] \<Longrightarrow> replace_all old new (old @ s) = new @ replace_all old new s"
  by (subst replace_all.simps) simp

lemma replace_all_skip: "c \<noteq> hd old \<Longrightarrow> old \<noteq> [] \<Longrightarrow> replace_all old new (c # s) = c # replace_all old new s"
  by (subst replace_all.simps) (cases old, auto)

text \<open>A text without the first character of the placeholder can be moved through the placeholder.\<close>

lemma replace_through:
  "old \<noteq> [] \<Longrightarrow> p \<noteq> [] \<Longrightarrow> hd p \<notin> set s \<Longrightarrow> replace_all p new (replace_all old p s) = replace_all old new s"
proof (induction "length s" arbitrary: s rule: less_induct)
  case less
  show ?case
  proof (cases s)
    case (Cons c cs)
    show ?thesis
    proof (cases "take (length old) s = old")
      case True
      have "hd p \<notin> set (drop (length old) s)" using less.prems(3) by (auto dest: in_set_dropD)
      moreover have "length (drop (length old) s) < length s" using less.prems(1) Cons by simp
      ultimately have "replace_all p new (replace_all old p (drop (length old) s)) = replace_all old new (drop (length old) s)"
        using less.hyps less.prems by blast
      then show ?thesis using True Cons less.prems(1,2)
        by (subst (2 3) replace_all.simps) (simp add: replace_all_found)
    next
      case False
      have "replace_all p new (replace_all old p cs) = replace_all old new cs" using less Cons by simp
      moreover have "c \<noteq> hd p" using less.prems(3) Cons by auto
      ultimately show ?thesis using False Cons less.prems(1,2)
        by (subst (2 3) replace_all.simps) (simp add: replace_all_skip)
    qed
  qed simp
qed

primrec strings_in :: "json \<Rightarrow> string set" where
  "strings_in JNull = {}"
| "strings_in (JBool b) = {}"
| "strings_in (JInt i) = {}"
| "strings_in (JFloat x) = {}"
| "strings_in (JStr s) = {s}"
| "strings_in (JList xs) = \<Union> (set (map strings_in xs))"
| "strings_in (JObj d) = \<Union> (snd ` set (map (map_prod id strings_in) d))"

lemma relocate_through:
  assumes "tmp \<noteq> []" "\<forall>s \<in> strings_in r. CHR ''@'' \<notin> set s"
  shows "relocate PLACEHOLDER entry (relocate tmp PLACEHOLDER r) = relocate tmp entry r"
  using assms(2)
proof (induction r)
  case (JStr s)
  then show ?case using replace_through [of tmp PLACEHOLDER s entry] assms(1) by (simp add: str_replace_def)
next
  case (JObj d)
  then show ?case by (force simp: map_prod_def)
qed auto

lemma remove_other [simp]: "name \<noteq> key \<Longrightarrow> dict_get (dirs (remove_entry env name c)) key = dict_get (dirs c) key"
  by (auto simp: remove_entry_def delete_dir_def set_dir_def dict_simps delete_conv' split: option.splits)

lemma evict_keeps: "dict_get (dirs (snd (evict env limit [key] c))) key = dict_get (dirs c) key"
proof -
  have "key \<notin> set names \<Longrightarrow> dict_get (dirs (foldl (\<lambda>c name. remove_entry env name c) c names)) key = dict_get (dirs c) key" for names
    by (induction names rule: rev_induct) auto
  moreover have "key \<notin> set (evicted c limit [key])" by (auto simp: evicted_def Let_def)
  ultimately show ?thesis by (simp add: evict_def)
qed

lemma file_sizes_get:
  "distinct (dict_keys (ed_files d)) \<Longrightarrow> (name, n) \<in> set (file_sizes d) \<Longrightarrow> stat_size outside d name = Some n"
  by (auto simp: file_sizes_def stat_size_def)

lemma sizes_match_built:
  assumes "\<And>name n. (name, n) \<in> set fs \<Longrightarrow> stat name = Some n"
  shows "sizes_match stat (map (\<lambda>(name, n). (name, JInt (int n))) fs) = Inr (list_all (\<lambda>(name, n). 0 < n) fs)"
  using assms
proof (induction fs)
  case (Cons f fs)
  obtain name n where f: "f = (name, n)" by (cases f)
  have "stat name = Some n" "sizes_match stat (map (\<lambda>(name, n). (name, JInt (int n))) fs) = Inr (list_all (\<lambda>(name, n). 0 < n) fs)"
    using Cons f by auto
  then show ?case by (simp add: f)
qed simp

lemma keys_of_sizes [simp]: "map (fst \<circ> (\<lambda>(name, n). (name, JInt (int n)))) fs = dict_keys fs"
  by auto

lemma need_built_present: "need_built need files \<Longrightarrow> any_missing (dict_keys files) (map JStr need) = Inr False"
proof (induction need)
  case (Cons name need)
  have "name \<in> set (dict_keys files)"
    using Cons.prems by (auto simp: need_built_def get_default_def split: option.splits dest: map_of_SomeD intro: rev_image_eqI)
  then show ?case using Cons by (simp add: need_built_def)
qed simp

lemma read_built:
  assumes "distinct (dict_keys files)" "need_built need (file_sizes (fresh_dir files))"
  defines "fs \<equiv> file_sizes (fresh_dir files)"
  shows "read_entry outside entry ((fresh_dir files)\<lparr>ed_meta := Inr (entry_meta key need fs r), ed_mtime := t\<rparr>) =
    Inr (if fs \<noteq> [] \<and> list_all (\<lambda>(name, n). 0 < n) fs then Some (relocate PLACEHOLDER entry r) else None)"
proof -
  let ?d = "(fresh_dir files)\<lparr>ed_meta := Inr (entry_meta key need fs r), ed_mtime := t\<rparr>"
  have "sizes_match (stat_size outside ?d) (map (\<lambda>(name, n). (name, JInt (int n))) fs) = Inr (list_all (\<lambda>(name, n). 0 < n) fs)"
    using assms(1) by (intro sizes_match_built file_sizes_get) (auto simp: fs_def file_sizes_def fresh_dir_def)
  then show ?thesis using need_built_present [OF assms(2)]
    by (auto simp: read_entry_def entry_meta_def fs_def)
qed

abbreviation built_files :: "cache_env \<Rightarrow> string \<Rightarrow> (string, nat) dict" where
  "built_files env rootdir \<equiv> snd (xe_build env (entry_path rootdir (xe_tmp env)))"

lemma miss_publishes:
  assumes "get_or_build env rootdir key limit c = (Inr (r, ''miss''), c')"
  obtains r0 need where "fst (xe_build env (entry_path rootdir (xe_tmp env))) = Inr r0"
    "need_built need (file_sizes (fresh_dir (built_files env rootdir)))"
    "r = relocate (entry_path rootdir (xe_tmp env)) (entry_path rootdir key) r0"
    "dict_get (dirs c') key = Some ((fresh_dir (built_files env rootdir))\<lparr>
       ed_meta := Inr (entry_meta key need (file_sizes (fresh_dir (built_files env rootdir))) (relocate (entry_path rootdir (xe_tmp env)) PLACEHOLDER r0)),
       ed_mtime := Some (xe_now env)\<rparr>)"
proof -
  obtain c1 c2 r0 where l: "locked_part env rootdir key c1 = (Inr (r0, False), c2)"
      and r: "r = relocate (entry_path rootdir (xe_tmp env)) (entry_path rootdir key) r0" and c': "c' = snd (evict env limit [key] c2)"
    using assms by (auto simp: get_or_build_def split: prod.splits sum.splits option.splits bool.splits)
  obtain c3 where b: "build_entry env rootdir key c3 = (Inr r0, c2)"
    using l by (auto simp: locked_part_def Let_def split: prod.splits sum.splits option.splits if_splits)
  obtain need where "fst (xe_build env (entry_path rootdir (xe_tmp env))) = Inr r0" "need_built need (file_sizes (fresh_dir (built_files env rootdir)))"
      "c2 = set_dir key ((fresh_dir (built_files env rootdir))\<lparr>
       ed_meta := Inr (entry_meta key need (file_sizes (fresh_dir (built_files env rootdir))) (relocate (entry_path rootdir (xe_tmp env)) PLACEHOLDER r0)),
       ed_mtime := Some (xe_now env)\<rparr>) c3"
    using b by (auto simp: build_entry_def Let_def res_simps split: prod.splits sum.splits if_splits)
  then show thesis using that r by (simp add: c' evict_keeps) (simp add: set_dir_def dict_simps)
qed

lemma get_or_build_hit:
  assumes "load_entry env rootdir c key = Inr x"
  shows "case x of Some r \<Rightarrow> fst (get_or_build env rootdir key limit c) = Inr (r, ''hit'')
    | None \<Rightarrow> \<forall>r. fst (get_or_build env rootdir key limit c) \<noteq> Inr (r, ''hit'')"
  using assms by (auto simp: get_or_build_def locked_part_def hit_def Let_def split: option.splits prod.splits sum.splits if_splits)

text \<open>
  C39. A compiled entry is reused, exactly when it can be: after a call of \<^verbatim>\<open>get_or_build\<close> that compiled, the next call for the key (whatever other
  compiler, clock or limit it is given) returns the same result with its paths relocated to the entry, without compiling, if
  the compiler left at least one file and no empty one; otherwise the next call does not find the entry, although it was published.
  Results that hold the character of the placeholder are excluded.
\<close>

theorem cache_hit_exact:
  assumes "get_or_build env rootdir key limit c = (Inr (r, ''miss''), c')"
    and "distinct (dict_keys (built_files env rootdir))"
    and "\<And>r0 s. fst (xe_build env (entry_path rootdir (xe_tmp env))) = Inr r0 \<Longrightarrow> s \<in> strings_in r0 \<Longrightarrow> CHR ''@'' \<notin> set s"
  shows "let fs = file_sizes (fresh_dir (built_files env rootdir)) in
    if fs \<noteq> [] \<and> list_all (\<lambda>(name, n). 0 < n) fs then fst (get_or_build env' rootdir key limit' c') = Inr (r, ''hit'')
    else \<forall>r'. fst (get_or_build env' rootdir key limit' c') \<noteq> Inr (r', ''hit'')"
proof -
  let ?fs = "file_sizes (fresh_dir (built_files env rootdir))"
  from assms(1) obtain r0 need where b: "fst (xe_build env (entry_path rootdir (xe_tmp env))) = Inr r0"
    "need_built need ?fs" "r = relocate (entry_path rootdir (xe_tmp env)) (entry_path rootdir key) r0"
    "dict_get (dirs c') key = Some ((fresh_dir (built_files env rootdir))\<lparr>
       ed_meta := Inr (entry_meta key need ?fs (relocate (entry_path rootdir (xe_tmp env)) PLACEHOLDER r0)),
       ed_mtime := Some (xe_now env)\<rparr>)"
    by (rule miss_publishes)
  have "relocate PLACEHOLDER (entry_path rootdir key) (relocate (entry_path rootdir (xe_tmp env)) PLACEHOLDER r0) = r"
    unfolding b(3) by (rule relocate_through) (use assms(3) [OF b(1)] in \<open>auto simp: entry_path_def\<close>)
  then have "load_entry env' rootdir c' key = Inr (if ?fs \<noteq> [] \<and> list_all (\<lambda>(name, n). 0 < n) ?fs then Some r else None)"
    by (simp add: load_entry_def b(4) read_built [OF assms(2) b(2)])
  from get_or_build_hit [OF this, of limit'] show ?thesis by (simp add: Let_def split: if_splits)
qed

section \<open>Eviction\<close>

definition entry_names :: "cache \<Rightarrow> string set" where
  "entry_names c = {name \<in> set (dict_keys (dirs c)). length name = 64}"

definition age_of :: "cache \<Rightarrow> string \<Rightarrow> nat" where
  "age_of c name = (case dict_get (dirs c) name of Some d \<Rightarrow> (case ed_mtime d of Some t \<Rightarrow> t | None \<Rightarrow> 0) | None \<Rightarrow> 0)"

lemma by_age_names:
  assumes "distinct (dict_keys (dirs c))"
  shows "set (map snd (by_age c)) = entry_names c" "distinct (map snd (by_age c))" "sorted (map fst (by_age c))"
    "(t, name) \<in> set (by_age c) \<Longrightarrow> t = age_of c name"
proof -
  show "set (map snd (by_age c)) = entry_names c" by (force simp: by_age_def entry_names_def)
  have "distinct (map snd (map (\<lambda>(name, d). (case ed_mtime d of None \<Rightarrow> 0 | Some t \<Rightarrow> t, name)) (filter (\<lambda>(name, d). length name = 64) (dirs c))))"
  proof -
    have "map snd (map (\<lambda>(name, d). (case ed_mtime d of None \<Rightarrow> 0 | Some t \<Rightarrow> t, name)) (filter (\<lambda>(name, d). length name = 64) ds)) =
        filter (\<lambda>name. length name = 64) (dict_keys ds)" for ds :: "(string, entry_dir) dict"
      by (induction ds) auto
    then show ?thesis using assms by simp
  qed
  then show "distinct (map snd (by_age c))"
    by (simp only: by_age_def distinct_map [of snd] distinct_sort set_sort)
  show "sorted (map fst (by_age c))" by (simp add: by_age_def)
  show "(t, name) \<in> set (by_age c) \<Longrightarrow> t = age_of c name"
    using assms by (auto simp: by_age_def age_of_def map_of_is_SomeI split: option.split_asm)
qed

lemma evict_dirs:
  assumes "\<And>name. xe_leftover env name = None"
  shows "dirs (snd (evict env limit keep c)) = filter (\<lambda>(name, _). name \<notin> set (evicted c limit keep)) (dirs c)"
proof -
  have "dirs (foldl (\<lambda>c name. remove_entry env name c) c names) = filter (\<lambda>(name, _). name \<notin> set names) (dirs c)" for names
    by (induction names arbitrary: c) (auto simp: remove_entry_def assms delete_dir_def AList.delete_eq intro!: filter_cong)
  then show ?thesis by (simp add: evict_def)
qed

lemma evicted_old:
  assumes "distinct (dict_keys (dirs c))" "a \<in> set (evicted c limit keep)" "b \<in> entry_names c - set (evicted c limit keep) - set keep"
  shows "age_of c a \<le> age_of c b"
proof -
  let ?xs = "by_age c" and ?k = "nat (int (length (by_age c)) - limit)"
  obtain ta where a: "(ta, a) \<in> set (take ?k ?xs)" using assms(2) by (auto simp: evicted_def Let_def)
  have "b \<in> set (map snd ?xs)" using assms(3) by_age_names(1) [OF assms(1)] by simp
  then obtain tb where "(tb, b) \<in> set ?xs" by auto
  then have "(tb, b) \<in> set (take ?k ?xs) \<union> set (drop ?k ?xs)" by (simp only: set_append [symmetric] append_take_drop_id)
  moreover have "(tb, b) \<notin> set (take ?k ?xs)" using assms(3) by (force simp: evicted_def Let_def)
  ultimately have b: "(tb, b) \<in> set (drop ?k ?xs)" by auto
  have "sorted (map fst (take ?k ?xs) @ map fst (drop ?k ?xs))"
    using by_age_names(3) [OF assms(1)] by (metis append_take_drop_id map_append)
  then have "ta \<le> tb" using a b by (force simp: sorted_append)
  moreover have "ta = age_of c a" "tb = age_of c b"
    using a b by_age_names(4) [OF assms(1)] by (auto dest: in_set_takeD in_set_dropD)
  ultimately show ?thesis by simp
qed

lemma evicted_count:
  assumes "distinct (dict_keys (dirs c))" "0 \<le> limit"
  shows "int (card (entry_names c - set (evicted c limit keep))) \<le> limit + int (length keep)"
proof -
  let ?xs = "map snd (by_age c)" and ?k = "nat (int (length (by_age c)) - limit)"
  have ev: "set (evicted c limit keep) = set (take ?k ?xs) - set keep" by (auto simp: evicted_def Let_def take_map)
  have "entry_names c = set (take ?k ?xs) \<union> set (drop ?k ?xs)"
    by (simp only: by_age_names(1) [OF assms(1), symmetric] set_append [symmetric] append_take_drop_id)
  then have "entry_names c - set (evicted c limit keep) \<subseteq> set (drop ?k ?xs) \<union> set keep" unfolding ev by blast
  then have "card (entry_names c - set (evicted c limit keep)) \<le> card (set (drop ?k ?xs) \<union> set keep)" by (intro card_mono) auto
  also have "\<dots> \<le> length (drop ?k ?xs) + length keep"
    using card_Un_le [of "set (drop ?k ?xs)" "set keep"] card_length [of "drop ?k ?xs"] card_length [of keep] by linarith
  also have "int \<dots> \<le> limit + int (length keep)" using assms(2) by simp
  finally show ?thesis by simp
qed

text \<open>
  C40. Eviction. With directories that can be removed and a limit that is not negative, \<^verbatim>\<open>evict\<close> removes exactly the entries it reports and changes
  nothing else; it leaves at most \<^verbatim>\<open>limit\<close> entries beside the kept ones, removes nothing while there are no more than that,
  removes only entries, never a kept one, and none that was used later than an entry it leaves.
\<close>

theorem evict_least_recently_used:
  assumes "distinct (dict_keys (dirs c))" "0 \<le> limit" "\<And>name. xe_leftover env name = None"
  shows "case evict env limit keep c of (removed, c') \<Rightarrow>
    dirs c' = filter (\<lambda>(name, _). name \<notin> set removed) (dirs c) \<and>
    int (card (entry_names c')) \<le> limit + int (length keep) \<and>
    (int (card (entry_names c)) \<le> limit \<longrightarrow> removed = []) \<and>
    set removed \<subseteq> entry_names c - set keep \<and>
    (\<forall>a \<in> set removed. \<forall>b \<in> entry_names c' - set keep. age_of c a \<le> age_of c b)"
proof -
  define removed where "removed = evicted c limit keep"
  have d: "dirs (snd (evict env limit keep c)) = filter (\<lambda>(name, _). name \<notin> set removed) (dirs c)"
    unfolding removed_def by (rule evict_dirs [OF assms(3)])
  then have names: "entry_names (snd (evict env limit keep c)) = entry_names c - set removed" by (force simp: entry_names_def)
  have len: "length (by_age c) = card (entry_names c)"
    using by_age_names(1,2) [OF assms(1)] distinct_card [of "map snd (by_age c)"] by simp
  have sub: "set removed \<subseteq> entry_names c - set keep"
    using by_age_names(1) [OF assms(1)] unfolding removed_def evicted_def Let_def by (auto dest: in_set_takeD)
  have few: "removed = []" if "int (card (entry_names c)) \<le> limit" using that by (simp add: removed_def evicted_def Let_def len)
  have old: "\<forall>a \<in> set removed. \<forall>b \<in> entry_names c - set removed - set keep. age_of c a \<le> age_of c b"
    using evicted_old [OF assms(1)] unfolding removed_def by blast
  have count: "int (card (entry_names c - set removed)) \<le> limit + int (length keep)"
    unfolding removed_def by (rule evicted_count [OF assms(1,2)])
  have "fst (evict env limit keep c) = removed" by (simp add: evict_def removed_def)
  then show ?thesis using d names few sub old count by (auto simp: case_prod_beta)
qed

section \<open>Concurrent clients and crashes\<close>

text \<open>Where a client of \<^verbatim>\<open>get_or_build\<close> is; those from \<open>Inside\<close> to \<open>Ready\<close> hold the lock of their key.\<close>

datatype client =
    Waiting string | Inside string | Missing string | Cleared string
  | Building string string | Ready string string | Published string | Evicting "string list"

fun holding :: "client \<Rightarrow> string option" where
  "holding (Inside k) = Some k"
| "holding (Missing k) = Some k"
| "holding (Cleared k) = Some k"
| "holding (Building k t) = Some k"
| "holding (Ready k t) = Some k"
| "holding _ = None"

fun building :: "client \<Rightarrow> string option" where
  "building (Cleared k) = Some k"
| "building (Building k t) = Some k"
| "building (Ready k t) = Some k"
| "building _ = None"

fun tmp_of :: "client \<Rightarrow> string option" where
  "tmp_of (Building k t) = Some t"
| "tmp_of (Ready k t) = Some t"
| "tmp_of _ = None"

record cache_sys =
  disk :: cache
  lock_of :: "string \<Rightarrow> nat option"
  clients :: "nat \<Rightarrow> client option"

definition moves :: "nat \<Rightarrow> client \<Rightarrow> cache_sys \<Rightarrow> cache_sys" where
  "moves p st s = s\<lparr>clients := (clients s)(p \<mapsto> st)\<rparr>"

definition unlocks :: "nat \<Rightarrow> cache_sys \<Rightarrow> cache_sys" where
  "unlocks p s = s\<lparr>lock_of := (\<lambda>k. if lock_of s k = Some p then None else lock_of s k)\<rparr>"

definition leaves :: "nat \<Rightarrow> cache_sys \<Rightarrow> cache_sys" where
  "leaves p s = (unlocks p s)\<lparr>clients := (clients s)(p := None)\<rparr>"

inductive cache_step :: "string \<Rightarrow> cache_sys \<Rightarrow> cache_sys \<Rightarrow> bool" for rootdir where
  finds: "load_entry env rootdir (disk s) k = Inr (Some r) \<Longrightarrow>
     cache_step rootdir s (s\<lparr>disk := touch t k (disk s)\<rparr>)"
| joins: "clients s p = None \<Longrightarrow> length k = 64 \<Longrightarrow> load_entry env rootdir (disk s) k = Inr None \<Longrightarrow>
     cache_step rootdir s (moves p (Waiting k) s)"
| locks: "clients s p = Some (Waiting k) \<Longrightarrow> lock_of s k = None \<Longrightarrow>
     cache_step rootdir s (moves p (Inside k) (s\<lparr>lock_of := (lock_of s)(k \<mapsto> p)\<rparr>))"
| finds_inside: "clients s p = Some (Inside k) \<Longrightarrow> load_entry env rootdir (disk s) k = Inr (Some r) \<Longrightarrow>
     cache_step rootdir s (leaves p (s\<lparr>disk := touch t k (disk s)\<rparr>))"
| misses: "clients s p = Some (Inside k) \<Longrightarrow> load_entry env rootdir (disk s) k = Inr None \<Longrightarrow>
     cache_step rootdir s (moves p (Missing k) s)"
| clears: "clients s p = Some (Missing k) \<Longrightarrow>
     cache_step rootdir s (moves p (Cleared k) (s\<lparr>disk := delete_dir k (disk s)\<rparr>))"
| makes_tmp: "clients s p = Some (Cleared k) \<Longrightarrow> length t \<noteq> 64 \<Longrightarrow> dict_get (dirs (disk s)) t = None \<Longrightarrow>
     cache_step rootdir s (moves p (Building k t) (s\<lparr>disk := set_dir t (fresh_dir []) (disk s)\<rparr>))"
| writes: "clients s p = Some (Building k t) \<Longrightarrow>
     cache_step rootdir s (s\<lparr>disk := set_dir t (fresh_dir files) (disk s)\<rparr>)"
| describes: "clients s p = Some (Building k t) \<Longrightarrow> dict_get (dirs (disk s)) t = Some d \<Longrightarrow> need_built need (file_sizes d) \<Longrightarrow>
     cache_step rootdir s (moves p (Ready k t)
       (s\<lparr>disk := set_dir t (d\<lparr>ed_meta := Inr (entry_meta k need (file_sizes d) r), ed_mtime := Some now\<rparr>) (disk s)\<rparr>))"
| publishes: "clients s p = Some (Ready k t) \<Longrightarrow> dict_get (dirs (disk s)) t = Some d \<Longrightarrow>
     (case dict_get (dirs (disk s)) k of None \<Rightarrow> True | Some old \<Rightarrow> dir_empty old) \<Longrightarrow>
     cache_step rootdir s (moves p (Published k) (unlocks p (s\<lparr>disk := set_dir k d (delete_dir t (disk s))\<rparr>)))"
| fails: "clients s p = Some st \<Longrightarrow> holding st = Some k \<Longrightarrow>
     cache_step rootdir s (leaves p (s\<lparr>disk := (case tmp_of st of None \<Rightarrow> disk s | Some t \<Rightarrow> delete_dir t (disk s))\<rparr>))"
| lists: "clients s p = Some (Published k) \<Longrightarrow>
     cache_step rootdir s (moves p (Evicting (evicted (disk s) limit [k])) s)"
| removes: "clients s p = Some (Evicting (name # names)) \<Longrightarrow>
     cache_step rootdir s (moves p (Evicting names) (s\<lparr>disk := delete_dir name (disk s)\<rparr>))"
| returns: "clients s p = Some (Evicting []) \<Longrightarrow> cache_step rootdir s (leaves p s)"
| crashes: "clients s p = Some st \<Longrightarrow> cache_step rootdir s (leaves p s)"

abbreviation empty_root :: cache_sys where
  "empty_root \<equiv> \<lparr>disk = \<lparr>dirs = []\<rparr>, lock_of = (\<lambda>k. None), clients = (\<lambda>p. None)\<rparr>"

definition entry_complete :: "string \<Rightarrow> entry_dir \<Rightarrow> bool" where
  "entry_complete k d \<longleftrightarrow> (\<exists>need r. ed_meta d = Inr (entry_meta k need (file_sizes d) r) \<and> need_built need (file_sizes d))"

text \<open>The invariant: entries are complete, locks are exclusive, a client at work has no entry in its way and a temporary directory of its own.\<close>

definition cache_inv :: "cache_sys \<Rightarrow> bool" where
  "cache_inv s \<longleftrightarrow>
     (\<forall>k d. length k = 64 \<longrightarrow> dict_get (dirs (disk s)) k = Some d \<longrightarrow> entry_complete k d) \<and>
     (\<forall>p st k. clients s p = Some st \<longrightarrow> holding st = Some k \<longrightarrow> lock_of s k = Some p) \<and>
     (\<forall>p st k. clients s p = Some st \<longrightarrow> building st = Some k \<longrightarrow> dict_get (dirs (disk s)) k = None) \<and>
     (\<forall>p k. clients s p = Some (Waiting k) \<longrightarrow> length k = 64) \<and>
     (\<forall>p st k. clients s p = Some st \<longrightarrow> holding st = Some k \<longrightarrow> length k = 64) \<and>
     (\<forall>p st t. clients s p = Some st \<longrightarrow> tmp_of st = Some t \<longrightarrow> length t \<noteq> 64 \<and> dict_get (dirs (disk s)) t \<noteq> None) \<and>
     (\<forall>p p' st st' t. clients s p = Some st \<longrightarrow> clients s p' = Some st' \<longrightarrow> tmp_of st = Some t \<longrightarrow> tmp_of st' = Some t \<longrightarrow> p = p') \<and>
     (\<forall>p k t d. clients s p = Some (Ready k t) \<longrightarrow> dict_get (dirs (disk s)) t = Some d \<longrightarrow> entry_complete k d) \<and>
     (\<forall>p names. clients s p = Some (Evicting names) \<longrightarrow> (\<forall>name \<in> set names. length name = 64))"

lemma get_dirs [simp]:
  "dict_get (dirs (set_dir n d c)) k = (if k = n then Some d else dict_get (dirs c) k)"
  "dict_get (dirs (delete_dir n c)) k = (if k = n then None else dict_get (dirs c) k)"
  "dict_get (dirs (touch t n c)) k = (if k = n then map_option (\<lambda>d. d\<lparr>ed_mtime := Some t\<rparr>) (dict_get (dirs c) k) else dict_get (dirs c) k)"
  by (auto simp: set_dir_def delete_dir_def touch_def dict_simps delete_conv' split: option.splits)

lemma entry_complete_mtime [simp]: "entry_complete k (d\<lparr>ed_mtime := t\<rparr>) \<longleftrightarrow> entry_complete k d"
  by (simp add: entry_complete_def file_sizes_def)

lemma entry_complete_described [simp]:
  "need_built need (file_sizes d) \<Longrightarrow> entry_complete k (d\<lparr>ed_meta := Inr (entry_meta k need (file_sizes d) r)\<rparr>)"
  by (auto simp: entry_complete_def file_sizes_def)

lemma evicted_names: "name \<in> set (evicted c limit keep) \<Longrightarrow> length name = 64"
  by (auto simp: evicted_def by_age_def Let_def dest!: in_set_takeD)

lemma sys_sel [simp]:
  "disk (moves p st s) = disk s" "lock_of (moves p st s) = lock_of s" "clients (moves p st s) = (clients s)(p \<mapsto> st)"
  "disk (unlocks p s) = disk s" "clients (unlocks p s) = clients s"
  "lock_of (unlocks p s) = (\<lambda>k. if lock_of s k = Some p then None else lock_of s k)"
  "disk (leaves p s) = disk s" "clients (leaves p s) = (clients s)(p := None)"
  "lock_of (leaves p s) = (\<lambda>k. if lock_of s k = Some p then None else lock_of s k)"
  by (simp_all add: moves_def unlocks_def leaves_def)

lemma sys_eq: "(s :: cache_sys) = s' \<longleftrightarrow> disk s = disk s' \<and> lock_of s = lock_of s' \<and> clients s = clients s'"
  by (cases s, cases s') auto

text \<open>The parts of the invariant, one by one.\<close>

lemma cache_invD:
  assumes "cache_inv s"
  shows "length k = 64 \<Longrightarrow> dict_get (dirs (disk s)) k = Some d \<Longrightarrow> entry_complete k d"
    and "clients s p = Some st \<Longrightarrow> holding st = Some k \<Longrightarrow> lock_of s k = Some p"
    and "clients s p = Some st \<Longrightarrow> building st = Some k \<Longrightarrow> dict_get (dirs (disk s)) k = None"
    and "clients s p = Some (Waiting k) \<Longrightarrow> length k = 64"
    and "clients s p = Some st \<Longrightarrow> holding st = Some k \<Longrightarrow> length k = 64"
    and "clients s p = Some st \<Longrightarrow> tmp_of st = Some t \<Longrightarrow> length t \<noteq> 64"
    and "clients s p = Some st \<Longrightarrow> tmp_of st = Some t \<Longrightarrow> dict_get (dirs (disk s)) t \<noteq> None"
    and "clients s p = Some st \<Longrightarrow> clients s p' = Some st' \<Longrightarrow> tmp_of st = Some t \<Longrightarrow> tmp_of st' = Some t \<Longrightarrow> p = p'"
    and "clients s p = Some (Ready k t) \<Longrightarrow> dict_get (dirs (disk s)) t = Some d \<Longrightarrow> entry_complete k d"
    and "clients s p = Some (Evicting names) \<Longrightarrow> name \<in> set names \<Longrightarrow> length name = 64"
  using assms by (simp_all add: cache_inv_def)

lemma building_holds: "building st = Some k \<Longrightarrow> holding st = Some k"
  by (cases st) auto

lemma tmp_building: "tmp_of st = Some t \<Longrightarrow> \<exists>k. building st = Some k"
  by (cases st) auto

text \<open>A client that leaves, with or without its temporary directory, keeps the invariant.\<close>

lemma inv_leaves:
  assumes "cache_inv s"
  shows "cache_inv (leaves p s)"
  unfolding cache_inv_def
  using cache_invD [OF assms] by simp

lemma inv_sep:
  assumes "cache_inv s" "clients s p = Some st"
  shows "building st = Some k \<Longrightarrow> length k = 64"
    and "tmp_of st = Some t \<Longrightarrow> \<exists>d. dict_get (dirs (disk s)) t = Some d"
    and "st = Ready k t \<Longrightarrow> length t \<noteq> 64"
    and "st = Ready k t \<Longrightarrow> \<exists>d. dict_get (dirs (disk s)) t = Some d"
    and "tmp_of st = Some t \<Longrightarrow> holding st = Some k \<Longrightarrow> t \<noteq> k"
  using cache_invD(5) [OF assms(1,2) building_holds [of st k]] cache_invD(5) [OF assms(1,2), of k] cache_invD(6,7) [OF assms(1,2), of t]
  by auto

lemma inv_one_tmp:
  assumes "cache_inv s" "clients s p = Some st" "tmp_of st = Some t" "clients s q = Some st'" "p \<noteq> q"
  shows "tmp_of st' \<noteq> Some t" "building st' \<noteq> Some t" "st' \<noteq> Ready k t"
  using assms(5) cache_invD(8) [OF assms(1,2,4,3)] inv_sep(1) [OF assms(1,4)] cache_invD(6) [OF assms(1,2,3)] by auto

lemma inv_one_key:
  assumes "cache_inv s" "clients s p = Some st" "holding st = Some k" "clients s q = Some st'" "p \<noteq> q"
  shows "building st' \<noteq> Some k" "tmp_of st' \<noteq> Some k"
  using assms(5) cache_invD(2) [OF assms(1,2,3)] cache_invD(2) [OF assms(1,4) building_holds [of st' k]]
    cache_invD(5) [OF assms(1,2,3)] cache_invD(6) [OF assms(1,4), of k] by auto

lemma inv_touch:
  assumes "cache_inv s"
  shows "cache_inv (s\<lparr>disk := touch t k (disk s)\<rparr>)"
  using cache_invD [OF assms] unfolding cache_inv_def by auto

text \<open>A client at work changes a directory that is no entry and no other client's.\<close>

lemma inv_tmp_update:
  assumes inv: "cache_inv s" and st: "clients s p = Some st" "building st = Some k" and t: "length t \<noteq> 64"
    and other: "\<And>q st'. clients s q = Some st' \<Longrightarrow> q \<noteq> p \<Longrightarrow> tmp_of st' \<noteq> Some t"
    and st': "st' = Building k t \<or> st' = Ready k t \<and> entry_complete k d"
  shows "cache_inv (moves p st' (s\<lparr>disk := set_dir t d (disk s)\<rparr>))"
proof -
  note D = cache_invD [OF inv]
  have k: "lock_of s k = Some p" "length k = 64" "dict_get (dirs (disk s)) k = None"
    using D(2,5) [OF st(1) building_holds [OF st(2)]] D(3) [OF st] by auto
  have other': "st'' \<noteq> Ready k' t" "building st'' \<noteq> Some t" if "clients s q = Some st''" "q \<noteq> p" for q st'' k'
    using other [OF that] inv_sep(1) [OF inv that(1)] t by auto
  show ?thesis
    unfolding cache_inv_def
  proof (intro conjI allI impI, goal_cases)
    case (1 k' d')
    then show ?case using D(1) t by (auto split: if_splits)
  next
    case (2 q st'' k')
    then show ?case using D(2) k(1) st' by (auto split: if_splits)
  next
    case (3 q st'' k')
    then show ?case using D(3) [of q st'' k'] k st' t other'(2) [of q st''] by (auto split: if_splits)
  next
    case (4 q k')
    then show ?case using D(4) st' by (auto split: if_splits)
  next
    case (5 q st'' k')
    then show ?case using D(5) k(2) st' by (auto split: if_splits)
  next
    case (6 q st'' t')
    then show ?case using D(6) [of q st'' t'] t st' by (auto split: if_splits)
  next
    case (7 q st'' t')
    then show ?case using D(7) [of q st'' t'] st' by (auto split: if_splits)
  next
    case (8 q q' st1 st2 t')
    then show ?case using D(8) [of q st1 q' st2 t'] other [of q st1] other [of q' st2] st' by (auto split: if_splits)
  next
    case (9 q k' t' d')
    then show ?case using D(9) [of q k' t' d'] other'(1) [of q "Ready k' t'" k'] st' by (auto split: if_splits)
  next
    case (10 q names)
    then show ?case using D(10) st' by (auto split: if_splits)
  qed
qed

text \<open>Removing a directory, putting a complete entry where nobody is at work, and moving without a lock.\<close>

lemma inv_delete:
  assumes "cache_inv s" "\<And>p st. clients s p = Some st \<Longrightarrow> tmp_of st \<noteq> Some n"
  shows "cache_inv (s\<lparr>disk := delete_dir n (disk s)\<rparr>)"
  using cache_invD [OF assms(1)] assms(2) unfolding cache_inv_def by auto

lemma inv_put:
  assumes "cache_inv s" "entry_complete k d" "length k = 64" "\<And>p st. clients s p = Some st \<Longrightarrow> building st \<noteq> Some k"
  shows "cache_inv (s\<lparr>disk := set_dir k d (disk s)\<rparr>)"
  using cache_invD [OF assms(1)] assms(2-) unfolding cache_inv_def by auto

lemma inv_idle:
  assumes "cache_inv s" "holding st = None" "\<And>k. st = Waiting k \<Longrightarrow> length k = 64"
    "\<And>names name. st = Evicting names \<Longrightarrow> name \<in> set names \<Longrightarrow> length name = 64"
  shows "cache_inv (moves p st s)"
proof -
  have "building st = None" "tmp_of st = None" using assms(2) by (cases st; simp)+
  then show ?thesis using cache_invD [OF assms(1)] assms(2-) unfolding cache_inv_def by auto
qed

lemma inv_step:
  assumes "cache_step rootdir s s'" "cache_inv s"
  shows "cache_inv s'"
  using assms
proof (cases rule: cache_step.cases)
  case (finds env k r t)
  then show ?thesis using inv_touch assms(2) by simp
next
  case (joins p k env)
  then show ?thesis using assms(2) unfolding cache_inv_def by simp
next
  case (locks p k)
  then show ?thesis using cache_invD [OF assms(2)] unfolding cache_inv_def by auto
next
  case (finds_inside p k env r t)
  then show ?thesis using inv_leaves [OF inv_touch [OF assms(2)]] by simp
next
  case (misses p k env)
  then show ?thesis using cache_invD [OF assms(2)] unfolding cache_inv_def by simp
next
  case (clears p k)
  then show ?thesis using cache_invD [OF assms(2)] inv_one_key [OF assms(2), of p] unfolding cache_inv_def by auto
next
  case (makes_tmp p k t)
  show ?thesis
    unfolding makes_tmp(1) by (rule inv_tmp_update [OF assms(2) makes_tmp(2)]) (use makes_tmp inv_sep(2) [OF assms(2)] in force)+
next
  case (writes p k t files)
  have "moves p (Building k t) (s\<lparr>disk := set_dir t (fresh_dir files) (disk s)\<rparr>) = s'"
    using writes by (simp add: sys_eq fun_upd_idem)
  moreover have "cache_inv (moves p (Building k t) (s\<lparr>disk := set_dir t (fresh_dir files) (disk s)\<rparr>))"
    by (rule inv_tmp_update [OF assms(2) writes(2)])
      (use cache_invD(6) [OF assms(2) writes(2)] inv_one_tmp(1) [OF assms(2) writes(2)] in auto)
  ultimately show ?thesis by simp
next
  case (describes p k t d need r now)
  show ?thesis
    unfolding describes(1) by (rule inv_tmp_update [OF assms(2) describes(2)])
      (use describes cache_invD(6) [OF assms(2) describes(2)] inv_one_tmp(1) [OF assms(2) describes(2)] in auto)
next
  case (publishes p k t d)
  let ?s = "(leaves p s)\<lparr>disk := delete_dir t (disk s)\<rparr>"
  have k: "length k = 64" "entry_complete k d"
    using cache_invD(5) [OF assms(2) publishes(2)] cache_invD(9) [OF assms(2) publishes(2,3)] by auto
  have "cache_inv ((leaves p s)\<lparr>disk := delete_dir t (disk (leaves p s))\<rparr>)"
    by (rule inv_delete [OF inv_leaves [OF assms(2)]])
      (use inv_one_tmp(1) [OF assms(2) publishes(2)] in \<open>auto split: if_splits\<close>)
  then have "cache_inv ?s" by simp
  then have "cache_inv (?s\<lparr>disk := set_dir k d (disk ?s)\<rparr>)"
    by (rule inv_put [OF _ k(2,1)]) (use inv_one_key(1) [OF assms(2) publishes(2)] in \<open>auto split: if_splits\<close>)
  then have "cache_inv (moves p (Published k) (?s\<lparr>disk := set_dir k d (disk ?s)\<rparr>))" by (rule inv_idle) auto
  moreover have "moves p (Published k) (?s\<lparr>disk := set_dir k d (disk ?s)\<rparr>) = s'" by (simp add: publishes(1) sys_eq fun_eq_iff)
  ultimately show ?thesis by simp
next
  case (fails p st k)
  have left: "cache_inv (leaves p s)" by (rule inv_leaves [OF assms(2)])
  show ?thesis
  proof (cases "tmp_of st")
    case None
    then have "s' = leaves p s" using fails(1) by simp
    then show ?thesis using left by simp
  next
    case (Some t)
    have "cache_inv ((leaves p s)\<lparr>disk := delete_dir t (disk (leaves p s))\<rparr>)"
      by (rule inv_delete [OF left]) (use inv_one_tmp(1) [OF assms(2) fails(2) Some] in \<open>auto split: if_splits\<close>)
    moreover have "s' = (leaves p s)\<lparr>disk := delete_dir t (disk (leaves p s))\<rparr>" using fails(1) Some by (simp add: sys_eq fun_eq_iff)
    ultimately show ?thesis by simp
  qed
next
  case (lists p k limit)
  show ?thesis unfolding lists(1) by (rule inv_idle [OF assms(2)]) (use evicted_names in auto)
next
  case (removes p name names)
  have "length name = 64" using cache_invD(10) [OF assms(2) removes(2)] by simp
  then have "cache_inv (s\<lparr>disk := delete_dir name (disk s)\<rparr>)"
    using cache_invD(6) [OF assms(2)] by (intro inv_delete [OF assms(2)]) blast
  then show ?thesis unfolding removes(1) by (rule inv_idle) (use cache_invD(10) [OF assms(2) removes(2)] in auto)
next
  case (returns p)
  then show ?thesis using inv_leaves [OF assms(2)] by simp
next
  case (crashes p st)
  then show ?thesis using inv_leaves [OF assms(2)] by simp
qed

lemma inv_reachable: "(cache_step rootdir)\<^sup>*\<^sup>* empty_root s \<Longrightarrow> cache_inv s"
proof (induction rule: rtranclp_induct)
  case base
  then show ?case by (simp add: cache_inv_def)
next
  case (step s s')
  then show ?case by (blast intro: inv_step)
qed


section \<open>A call is a run\<close>

lemma set_set_dir [simp]: "set_dir t d (set_dir t d' c) = set_dir t d c"
  by (simp add: set_dir_def)

lemma delete_set_dir:
  assumes "dict_get (dirs c) t = None"
  shows "delete_dir t (set_dir t d c) = c"
proof -
  have "t \<notin> set (dict_keys (dirs c))" using assms by (auto simp: map_of_eq_None_iff)
  then show ?thesis by (simp add: delete_dir_def set_dir_def delete_update_same)
qed

lemma delete_no_dir: "dict_get (dirs c) k = None \<Longrightarrow> delete_dir k c = c"
  by (simp add: delete_dir_def map_of_eq_None_iff)

text \<open>The removals after publishing, one step each.\<close>

lemma run_removes:
  "clients s p = Some (Evicting names) \<Longrightarrow>
     (cache_step rootdir)\<^sup>*\<^sup>* s (leaves p (s\<lparr>disk := foldl (\<lambda>c name. delete_dir name c) (disk s) names\<rparr>))"
proof (induction names arbitrary: s)
  case Nil
  then show ?case using cache_step.returns [OF Nil, of rootdir] by simp
next
  case (Cons name names)
  let ?s = "moves p (Evicting names) (s\<lparr>disk := delete_dir name (disk s)\<rparr>)"
  have "cache_step rootdir s ?s" by (rule cache_step.removes [OF Cons.prems])
  moreover have "(cache_step rootdir)\<^sup>*\<^sup>* ?s (leaves p (?s\<lparr>disk := foldl (\<lambda>c name. delete_dir name c) (disk ?s) names\<rparr>))"
    by (rule Cons.IH) simp
  moreover have "leaves p (?s\<lparr>disk := foldl (\<lambda>c name. delete_dir name c) (disk ?s) names\<rparr>) =
      leaves p (s\<lparr>disk := foldl (\<lambda>c name. delete_dir name c) (disk s) (name # names)\<rparr>)"
    by (simp add: sys_eq fun_eq_iff)
  ultimately show ?case by (metis converse_rtranclp_into_rtranclp)
qed

text \<open>From the miss under the lock to the end of the call.\<close>

lemma run_build:
  assumes at: "clients s p = Some (Cleared k)" and t: "length t \<noteq> 64" "dict_get (dirs (disk s)) t = None"
    and k: "dict_get (dirs (disk s)) k = None" "t \<noteq> k" and need: "need_built need (file_sizes (fresh_dir files))"
    and d: "d = (fresh_dir files)\<lparr>ed_meta := Inr (entry_meta k need (file_sizes (fresh_dir files)) r), ed_mtime := Some now\<rparr>"
  shows "(cache_step rootdir)\<^sup>*\<^sup>* s (leaves p (s\<lparr>disk := foldl (\<lambda>c name. delete_dir name c) (set_dir k d (disk s)) (evicted (set_dir k d (disk s)) limit [k])\<rparr>))"
proof -
  let ?s1 = "moves p (Building k t) (s\<lparr>disk := set_dir t (fresh_dir []) (disk s)\<rparr>)"
  let ?s2 = "?s1\<lparr>disk := set_dir t (fresh_dir files) (disk ?s1)\<rparr>"
  let ?s3 = "moves p (Ready k t) (?s2\<lparr>disk := set_dir t d (disk ?s2)\<rparr>)"
  let ?s4 = "moves p (Published k) (unlocks p (?s3\<lparr>disk := set_dir k d (delete_dir t (disk ?s3))\<rparr>))"
  let ?s5 = "moves p (Evicting (evicted (disk ?s4) limit [k])) ?s4"
  have 1: "cache_step rootdir s ?s1" by (rule cache_step.makes_tmp [OF at t])
  have 2: "cache_step rootdir ?s1 ?s2" by (rule cache_step.writes [where p = p and k = k]) simp
  have 3: "cache_step rootdir ?s2 ?s3" unfolding d by (rule cache_step.describes [where d = "fresh_dir files"]) (use need in simp_all)
  have 4: "cache_step rootdir ?s3 ?s4" by (rule cache_step.publishes) (use k in \<open>auto simp: d fresh_dir_def dir_empty_def\<close>)
  have 5: "cache_step rootdir ?s4 ?s5" by (rule cache_step.lists) simp
  have 6: "(cache_step rootdir)\<^sup>*\<^sup>* ?s5 (leaves p (?s5\<lparr>disk := foldl (\<lambda>c name. delete_dir name c) (disk ?s5) (evicted (disk ?s4) limit [k])\<rparr>))"
    by (rule run_removes) simp
  have "delete_dir t (disk ?s3) = disk s" using delete_set_dir [OF t(2)] by simp
  then have 7: "leaves p (?s5\<lparr>disk := foldl (\<lambda>c name. delete_dir name c) (disk ?s5) (evicted (disk ?s4) limit [k])\<rparr>) =
      leaves p (s\<lparr>disk := foldl (\<lambda>c name. delete_dir name c) (set_dir k d (disk s)) (evicted (set_dir k d (disk s)) limit [k])\<rparr>)"
    by (simp add: sys_eq fun_eq_iff)
  note r = converse_rtranclp_into_rtranclp
  show ?thesis using r [OF 1 r [OF 2 r [OF 3 r [OF 4 r [OF 5 6]]]]] unfolding 7 .
qed

lemma run_to_cleared:
  assumes "clients s p = None" "lock_of s k = None" "length k = 64" "load_entry env rootdir (disk s) k = Inr None"
  shows "(cache_step rootdir)\<^sup>*\<^sup>* s (moves p (Cleared k) (s\<lparr>disk := delete_dir k (disk s), lock_of := (lock_of s)(k \<mapsto> p)\<rparr>))"
proof -
  let ?s1 = "moves p (Waiting k) s"
  let ?s2 = "moves p (Inside k) (?s1\<lparr>lock_of := (lock_of ?s1)(k \<mapsto> p)\<rparr>)"
  let ?s3 = "moves p (Missing k) ?s2"
  let ?s4 = "moves p (Cleared k) (?s3\<lparr>disk := delete_dir k (disk ?s3)\<rparr>)"
  have "cache_step rootdir s ?s1" by (rule cache_step.joins [OF assms(1,3,4)])
  moreover have "cache_step rootdir ?s1 ?s2" by (rule cache_step.locks) (use assms(2) in simp_all)
  moreover have "cache_step rootdir ?s2 ?s3" by (rule cache_step.misses [where env = env]) (use assms(4) in simp_all)
  moreover have "cache_step rootdir ?s3 ?s4" by (rule cache_step.clears) simp
  moreover have "?s4 = moves p (Cleared k) (s\<lparr>disk := delete_dir k (disk s), lock_of := (lock_of s)(k \<mapsto> p)\<rparr>)" by (simp add: sys_eq)
  ultimately show ?thesis by (metis (no_types, lifting) converse_rtranclp_into_rtranclp rtranclp.rtrancl_refl)
qed

lemma leaves_back:
  assumes "clients s p = None" "lock_of s k = None"
  shows "leaves p ((moves p st (s\<lparr>disk := c, lock_of := (lock_of s)(k \<mapsto> p)\<rparr>))\<lparr>disk := c'\<rparr>) = leaves p (s\<lparr>disk := c'\<rparr>)"
  using assms by (auto simp: sys_eq fun_eq_iff)

lemma leaves_free:
  assumes "clients s p = None" "\<And>k. lock_of s k \<noteq> Some p"
  shows "leaves p s = s"
  using assms by (auto simp: sys_eq fun_eq_iff)

lemma evict_is_delete:
  assumes "\<And>name. xe_leftover env name = None"
  shows "snd (evict env limit keep c) = foldl (\<lambda>c name. delete_dir name c) c (evicted c limit keep)"
  using assms by (simp add: evict_def remove_entry_def)

lemma build_entry_cases:
  assumes "build_entry env rootdir key c = (x, c3)"
  shows "(\<exists>e. x = Inl e \<and> c3 = c) \<or>
    (\<exists>r need. x = Inr r \<and> need_built need (file_sizes (fresh_dir (built_files env rootdir))) \<and>
      c3 = set_dir key ((fresh_dir (built_files env rootdir))\<lparr>
        ed_meta := Inr (entry_meta key need (file_sizes (fresh_dir (built_files env rootdir))) (relocate (entry_path rootdir (xe_tmp env)) PLACEHOLDER r)),
        ed_mtime := Some (xe_now env)\<rparr>) c)"
  using assms by (auto simp: build_entry_def Let_def res_simps split: prod.splits sum.splits if_splits)

lemma locked_part_miss:
  assumes "load_entry env rootdir c key = Inr None" "\<And>name. xe_leftover env name = None"
  shows "locked_part env rootdir key c =
    (if dict_get (dirs (delete_dir key c)) (xe_tmp env) \<noteq> None then (Inl (FileExistsError ''mkdir''), delete_dir key c)
     else case build_entry env rootdir key (delete_dir key c) of
       (Inl e, c3) \<Rightarrow> (Inl e, c3)
     | (Inr r, c3) \<Rightarrow> (Inr (r, False), c3))"
proof -
  have "(if dict_get (dirs c) key \<noteq> None then remove_entry env key c else c) = delete_dir key c"
    using assms(2) delete_no_dir [of c key] by (auto simp: remove_entry_def)
  then show ?thesis using assms(1) by (simp add: locked_part_def hit_def Let_def)
qed


section \<open>Examples\<close>

definition ex_key :: string where
  "ex_key = replicate 64 (CHR ''a'')"

definition ex_env :: "(string, nat) dict \<Rightarrow> cache_env" where
  "ex_env files = \<lparr>xe_outside = (\<lambda>k n. None), xe_now = 7, xe_tmp = ''.tmp-1'', xe_leftover = (\<lambda>n. None),
     xe_build = (\<lambda>dir. (Inr (JObj [(''xclbin'', JStr (dir @ ''/a.bin''))]), files)), xe_required = (\<lambda>fs. Inr [''a.bin''])\<rparr>"

definition ex_cache :: cache where
  "ex_cache = snd (get_or_build (ex_env [(''a.bin'', 3)]) ''/c'' ex_key 20 \<lparr>dirs = []\<rparr>)"

lemma ex_miss:
  "get_or_build (ex_env [(''a.bin'', 3)]) ''/c'' ex_key 20 \<lparr>dirs = []\<rparr> =
     (Inr (JObj [(''xclbin'', JStr (''/c/'' @ ex_key @ ''/a.bin''))], ''miss''), ex_cache)"
  "dict_keys (dirs ex_cache) = [ex_key]"
proof -
  have "fst (get_or_build (ex_env [(''a.bin'', 3)]) ''/c'' ex_key 20 \<lparr>dirs = []\<rparr>) =
      Inr (JObj [(''xclbin'', JStr (''/c/'' @ ex_key @ ''/a.bin''))], ''miss'')" by code_simp
  then show "get_or_build (ex_env [(''a.bin'', 3)]) ''/c'' ex_key 20 \<lparr>dirs = []\<rparr> =
      (Inr (JObj [(''xclbin'', JStr (''/c/'' @ ex_key @ ''/a.bin''))], ''miss''), ex_cache)"
    by (simp add: ex_cache_def prod_eq_iff)
  show "dict_keys (dirs ex_cache) = [ex_key]" by code_simp
qed

theorem cache_hit_exact_witness:
  "fst (get_or_build (ex_env []) ''/c'' ex_key 20 ex_cache) = Inr (JObj [(''xclbin'', JStr (''/c/'' @ ex_key @ ''/a.bin''))], ''hit'')"
proof -
  have "s \<in> strings_in r0 \<Longrightarrow> CHR ''@'' \<notin> set s" if "fst (xe_build (ex_env [(''a.bin'', 3)]) (entry_path ''/c'' (xe_tmp (ex_env [(''a.bin'', 3)])))) = Inr r0" for r0 s
    using that by (auto simp: ex_env_def entry_path_def)
  moreover have "distinct (dict_keys (built_files (ex_env [(''a.bin'', 3)]) ''/c''))" by (simp add: ex_env_def)
  moreover have "file_sizes (fresh_dir (built_files (ex_env [(''a.bin'', 3)]) ''/c'')) = [(''a.bin'', 3)]" by code_simp
  ultimately show ?thesis
    using cache_hit_exact [OF ex_miss(1), where env' = "ex_env []" and limit' = 20] by (simp add: Let_def)
qed

theorem evict_least_recently_used_witness:
  "case evict (ex_env []) 0 [] ex_cache of (removed, c') \<Rightarrow> removed = [ex_key] \<and> dirs c' = [] \<and> card (entry_names c') = 0"
proof -
  have r: "fst (evict (ex_env []) 0 [] ex_cache) = [ex_key]" by code_simp
  obtain d where "dirs ex_cache = [(ex_key, d)]" using ex_miss(2) by (cases "dirs ex_cache") auto
  then show ?thesis
    using evict_least_recently_used [of ex_cache 0 "ex_env []" "[]"] r by (auto simp: ex_env_def)
qed


text \<open>A run to a client that is ready to publish.\<close>

lemma ex_ready: "\<exists>s. (cache_step ''/c'')\<^sup>*\<^sup>* empty_root s \<and> clients s 0 = Some (Ready ex_key ''.tmp-1'')"
proof -
  let ?c = "delete_dir ex_key (disk empty_root)"
  let ?s = "moves 0 (Cleared ex_key) (empty_root\<lparr>disk := ?c, lock_of := (lock_of empty_root)(ex_key \<mapsto> 0)\<rparr>)"
  have "(cache_step ''/c'')\<^sup>*\<^sup>* empty_root ?s"
    by (rule run_to_cleared [where env = "ex_env []"]) (simp_all add: ex_key_def load_entry_def)
  moreover have "cache_step ''/c'' ?s (moves 0 (Building ex_key ''.tmp-1'') (?s\<lparr>disk := set_dir ''.tmp-1'' (fresh_dir []) (disk ?s)\<rparr>))" (is "cache_step _ _ ?s1")
    by (rule cache_step.makes_tmp) (simp_all add: ex_key_def)
  moreover have "cache_step ''/c'' ?s1 (moves 0 (Ready ex_key ''.tmp-1'') (?s1\<lparr>disk := set_dir ''.tmp-1''
      ((fresh_dir [])\<lparr>ed_meta := Inr (entry_meta ex_key [] (file_sizes (fresh_dir [])) JNull), ed_mtime := Some 0\<rparr>) (disk ?s1)\<rparr>))" (is "cache_step _ _ ?s2")
    by (rule cache_step.describes [where d = "fresh_dir []"]) (simp_all add: need_built_def)
  moreover have "clients ?s2 0 = Some (Ready ex_key ''.tmp-1'')" by simp
  ultimately show ?thesis by (meson rtranclp.rtrancl_into_rtrancl)
qed


end
