(* ===== verification/Spec2Isabelle.thy ===== *)
theory Spec2Isabelle
  imports Prelude Onnx Tensor_Store Ep_Fragmentation Device_Targets Union_Find Graph_Partition Partition_Regions
    Shape_Ranges Shape_Soundness Shape_Data Index_Facts Arena_Plan Cost_Bounds Cost_Sound Cost_Rules Cost_Rules_Sound Cost_Rules_Onnx Rpc_Protocol Rpc_Tracker Rpc_Server
    Versioning_Bisect Versioning_Manifest Versioning_Run Xdna_Cache
begin

text \<open>
  A verification of onnxsim, the ONNX simplifier and the tool set around it. The simplifier's passes are C++; what is modelled here is the
  logic of the Python package \<^verbatim>\<open>onnxsim/\<close> (all paths below are relative to it) that decides something about a model, moves its
  weights, checks one version of it against another or serves it to a client. The theories are shallow: every definition is an executable HOL function
  that follows the Python function of the same name, branch by branch.

  \<^bold>\<open>Foundations.\<close> \<^verbatim>\<open>Prelude\<close> has Python's exceptions as values (\<open>pyerr\<close>, \<open>'a res\<close>, the fold and map that stop at
  the first exception), dictionaries as association lists in insertion order, \<^verbatim>\<open>enumerate\<close> and decimal text. \<^verbatim>\<open>Onnx\<close> has the
  protobuf messages: tensors, value infos, and the mutually recursive attributes, nodes and graphs.

  \<^bold>\<open>Weights.\<close> \<^verbatim>\<open>Tensor_Store\<close> models how \<^verbatim>\<open>onnx_simplifier.py\<close> takes the bytes of tensors out of a model, restores them after an export and fills
  them in on import, for safetensors and GGUF. Three families of functions walk the tree of graphs; the locale \<open>keyed_rewrite\<close> proves the walk once and is
  interpreted for each. Shown: when an export leaves the caller's model unchanged (and that it does not when two unnamed constants share a key), the
  round trip through an archive, and the outcome of importing GGUF weights.

  \<^bold>\<open>Devices.\<close> \<^verbatim>\<open>Ep_Fragmentation\<close> (\<^verbatim>\<open>_ep_fragmentation.py\<close>) counts the islands of supported nodes; \<^verbatim>\<open>Device_Targets\<close> has the WebNN and WebGPU checks and
  operator tables (\<^verbatim>\<open>webnn_target.py\<close>, \<^verbatim>\<open>webgpu_target.py\<close>, \<^verbatim>\<open>rustnn_runtime.py\<close>, \<^verbatim>\<open>model_info.py\<close>); \<^verbatim>\<open>Graph_Partition\<close> is
  \<^verbatim>\<open>graph_partition.py\<close>, which places every node, cuts the graph into regions over the disjoint sets of \<^verbatim>\<open>Union_Find\<close> and lists the tensors that
  cross; \<^verbatim>\<open>Partition_Regions\<close> has its theorems. Interfaces: \<open>capability\<close> (what may run where) and \<open>merge_find\<close> (what the disjoint sets promise,
  shared with the bisection). Shown: placement is total and valid, regions are the connected components and their convexity test is exact, boundaries
  are exactly the crossing tensors, and a symbolic size raises.

  \<^bold>\<open>Shapes and cost.\<close> \<^verbatim>\<open>Shape_Ranges\<close> is \<^verbatim>\<open>shape_ranges.py\<close>: ranges of dimensions and the shape rules on them. \<^verbatim>\<open>Shape_Soundness\<close> and
  \<^verbatim>\<open>Shape_Data\<close> show that a rule's answer holds the shape of every run, through the locale \<open>sound_op\<close> for operations folded over
  dimensions. \<^verbatim>\<open>Index_Facts\<close> (\<^verbatim>\<open>index_facts.py\<close>) judges indices; a proved verdict means valid indices in every run. \<^verbatim>\<open>Arena_Plan\<close>, \<^verbatim>\<open>Cost_Bounds\<close> and
  \<^verbatim>\<open>Cost_Sound\<close> are \<^verbatim>\<open>shape_cost.py\<close>: the bounds on memory and compute, the check of a static allocation and the verdict on a budget. Shown: the check passes
  exactly the valid plans, a plan that passes never loses a tensor that is still needed (a run on a shared arena is the specification), the
  bounds hold every run, and a verdict is a fact about every run; the weights are the exception, which is shown too.

  \<^bold>\<open>Serving.\<close> \<^verbatim>\<open>Rpc_Protocol\<close> (\<^verbatim>\<open>rpc/_protocol.py\<close>) is the framing and the encoding of tensors, \<^verbatim>\<open>Rpc_Tracker\<close> (\<^verbatim>\<open>rpc/tracker.py\<close>) the registry of
  servers with its connections as a step relation, \<^verbatim>\<open>Rpc_Server\<close> (\<^verbatim>\<open>rpc/server.py\<close>) the handler of one connection, \<^verbatim>\<open>Xdna_Cache\<close> (\<^verbatim>\<open>rpc/xdna_cache.py\<close>) the
  compile cache with concurrent and crashing clients as a step relation. The server's loop calls the protocol's operations and rests on its
  lemmas. Shown: round trips and bounds of messages whatever the peer sends and however the stream is cut, which registrations a
  tracker lists (locale \<open>registry\<close>), that a session closes every runner once and writes only inside its directory, and that the cache holds only
  complete entries.

  \<^bold>\<open>Versioning.\<close> \<^verbatim>\<open>Versioning_Run\<close>, \<^verbatim>\<open>Versioning_Bisect\<close> and \<^verbatim>\<open>Versioning_Manifest\<close> are \<^verbatim>\<open>versioning.py\<close> and \<^verbatim>\<open>versioning_manifest.py\<close>: the check of a
  candidate against a base with node-by-node runs, the search for the change that broke it, and the record of the steps. Shown: what a passing verdict means,
  that an output is judged only when it is the true one, that the order of a mixed graph is found exactly when there is one, what the culprit of a
  bisection is and that it is found in logarithmically many checks, and that a recorded step leaves a valid manifest.

  \<^bold>\<open>Loops.\<close> Recursion that is not structural has its measure: the bytes left on a stream, the distance of the search, the nodes not yet
  visited. \<^verbatim>\<open>find\<close> of the disjoint sets is a partial function in the option type, and is shown to return on every well-formed forest. No definition uses fuel.

  \<^bold>\<open>Arguments.\<close> Code that is not Python of this repository is an argument of the definitions that call it: ONNX shape inference, numpy types, archive readers and
  writers, the memory planner and the other C++ entry points, sympy, the runtime that executes a model, clocks, random generators and digests. The result of
  interval propagation (\<^verbatim>\<open>interval.py\<close>) is an argument too, with the operations on it that are used. Doubles are exact rationals with the special values, except
  where the rounding matters: the sums of \<^verbatim>\<open>shape_cost.py\<close> round to 53 bits, and \<^verbatim>\<open>range_count\<close> takes the rounding as an argument.

  \<^bold>\<open>Not modelled.\<close> The C++ core and its passes (another language); \<^verbatim>\<open>pruning.py\<close>, quantization, calibration and training (\<^verbatim>\<open>gptq.py\<close>, \<^verbatim>\<open>awq.py\<close>, \<^verbatim>\<open>qat.py\<close>, \<^verbatim>\<open>quark_*.py\<close>,
  \<^verbatim>\<open>finetune.py\<close> and their like), which are numpy numerics over array contents; the analyses on real intervals (\<^verbatim>\<open>interval.py\<close>, \<^verbatim>\<open>crown.py\<close>,
  \<^verbatim>\<open>zonotope.py\<close>, \<^verbatim>\<open>taylor.py\<close>, \<^verbatim>\<open>fp_error.py\<close>); exporters to other frameworks, which are calls into them; code generators for WebGPU and XNNPACK; the RPC client and the
  server's command line; reports, plots and the command lines; scripts, tools, examples and bindings.
\<close>

end
